(* ===== verification/Kernel_Prelude.thy ===== *)
theory Kernel_Prelude
  imports "HOL-Library.Word" "HOL-Library.Monad_Syntax"
begin

text \<open>
  Shared vocabulary of the development: the machine types of the MIPS port
  (src/kern/arch/mips/include), the error numbers of src/kern/include/kern/errno.h, the
  outcome type of a kernel function, the constants of src/kern/arch/mips/include/vm.h, and
  the generic facts on lists, options and words that the component theories use.

  A kernel function that can fail an assertion, call \<open>panic\<close>, or touch memory outside the
  object it was given is modelled with result type \<open>'a option\<close>: \<open>None\<close> means that the kernel
  did not come back from the call.  An error number returned to the caller is an ordinary
  value, \<open>Inl e\<close> of a sum.
\<close>

unbundle bit_operations_syntax

subsection \<open>Machine types\<close>

type_synonym u8 = "8 word"
type_synonym u16 = "16 word"
type_synonym u32 = "32 word"
type_synonym u64 = "64 word"
type_synonym vaddr = u32
type_synonym paddr = u32

type_synonym 'a kres = "'a option"

definition kassert :: "bool \<Rightarrow> unit kres" where
  "kassert b = (if b then Some () else None)"

subsection \<open>Error numbers (kern/errno.h)\<close>

datatype errno =
    ENOSYS | EUNIMP | ENOMEM | EAGAIN | EINTR | EFAULT | ENAMETOOLONG | EINVAL
  | EPERM | EACCES | EMPROC | ENPROC | ENOEXEC | E2BIG | ESRCH | ECHILD
  | ENOTDIR | EISDIR | ENOENT | ELOOP | ENOTEMPTY | EEXIST | EMLINK | EXDEV
  | ENODEV | ENXIO | EBUSY | EMFILE | ENFILE | EBADF | EIOCTL | EIO
  | ESPIPE | EPIPE | EROFS | ENOSPC | EDQUOT | EFBIG | EFTYPE | EDOM

subsection \<open>Arithmetic macros of lib.h\<close>

definition DIVROUNDUP :: "nat \<Rightarrow> nat \<Rightarrow> nat" where
  "DIVROUNDUP a b = (a + b - 1) div b"

definition DIVROUNDUP32 :: "nat \<Rightarrow> nat \<Rightarrow> nat" where
  "DIVROUNDUP32 a b = (a + b - 1) mod 2 ^ 32 div b"

definition ROUNDUP :: "nat \<Rightarrow> nat \<Rightarrow> nat" where
  "ROUNDUP a b = DIVROUNDUP a b * b"

abbreviation (input) PAGE_SIZE :: nat where
  "PAGE_SIZE \<equiv> 4096"

abbreviation (input) PAGE_FRAME :: u32 where
  "PAGE_FRAME \<equiv> 0xfffff000"

subsection \<open>Arrays: an access outside the object has no defined outcome\<close>

definition aget :: "'a list \<Rightarrow> nat \<Rightarrow> 'a kres" where
  "aget xs i = (if i < length xs then Some (xs ! i) else None)"

definition aput :: "'a list \<Rightarrow> nat \<Rightarrow> 'a \<Rightarrow> 'a list kres" where
  "aput xs i x = (if i < length xs then Some (xs[i := x]) else None)"

subsection \<open>Collections of rules\<close>

named_theorems kdefs \<open>definitions of straight-line kernel code, to be unfolded\<close>

subsection \<open>Outcomes\<close>

lemma kassert_Some [simp]: "kassert b = Some u \<longleftrightarrow> b"
  by (simp add: kassert_def)

lemma kassert_True [simp]: "kassert True = Some ()"
  by (simp add: kassert_def)

lemma kassert_False [simp]: "kassert False = None"
  by (simp add: kassert_def)

lemma kassert_bind [simp]: "(kassert b \<bind> f) = (if b then f () else None)"
  by (simp add: kassert_def)

lemma kassert_bindI: "b \<Longrightarrow> f () = r \<Longrightarrow> (kassert b \<bind> f) = r"
  by simp

lemmas bind_Some_iff = Option.bind_eq_Some_conv

lemma aget_in [simp]: "i < length xs \<Longrightarrow> aget xs i = Some (xs ! i)"
  by (simp add: aget_def)

lemma aput_in [simp]: "i < length xs \<Longrightarrow> aput xs i x = Some (xs[i := x])"
  by (simp add: aput_def)

lemma aget_Some_iff: "aget xs i = Some x \<longleftrightarrow> i < length xs \<and> xs ! i = x"
  by (simp add: aget_def)

lemma aput_Some_iff: "aput xs i x = Some ys \<longleftrightarrow> i < length xs \<and> ys = xs[i := x]"
  by (auto simp: aput_def)

subsection \<open>Words and numbers\<close>

lemma unat_of_nat_u32: "n < 2 ^ 32 \<Longrightarrow> unat (of_nat n :: u32) = n"
  by (simp add: unat_of_nat)

subsection \<open>Rounding\<close>

lemma DIVROUNDUP_bounds:
  assumes "0 < b"
  shows "a \<le> DIVROUNDUP a b * b" and "DIVROUNDUP a b * b < a + b"
proof -
  have eq: "(a + b - 1) div b * b + (a + b - 1) mod b = a + b - 1"
    by (rule div_mult_mod_eq)
  have "(a + b - 1) mod b < b"
    using assms by simp
  then show "a \<le> DIVROUNDUP a b * b" and "DIVROUNDUP a b * b < a + b"
    using eq assms unfolding DIVROUNDUP_def by linarith+
qed

lemma DIVROUNDUP_0 [simp]: "0 < b \<Longrightarrow> DIVROUNDUP 0 b = 0"
  by (simp add: DIVROUNDUP_def)

lemma DIVROUNDUP_least:
  assumes "0 < b" and "a \<le> k * b"
  shows "DIVROUNDUP a b \<le> k"
proof -
  have "DIVROUNDUP a b * b < a + b"
    using assms(1) by (rule DIVROUNDUP_bounds)
  also have "\<dots> \<le> (k + 1) * b"
    using assms(2) by simp
  finally have "DIVROUNDUP a b < k + 1"
    using mult_less_cancel2 by blast
  then show ?thesis by simp
qed

lemma DIVROUNDUP32_eq: "0 < b \<Longrightarrow> a + b \<le> 2 ^ 32 \<Longrightarrow> DIVROUNDUP32 a b = DIVROUNDUP a b"
  by (simp add: DIVROUNDUP32_def DIVROUNDUP_def)

end
