(* ===== verification/Bswap.thy ===== *)
theory Bswap
  imports Kernel_Prelude
begin

text \<open>
  Byte order (src/kern/lib/bswap.c): the unconditional swaps, the network order functions of
  a big-endian machine, and the splitting of 64-bit values into register pairs.
\<close>

subsection \<open>The functions\<close>

definition bswap16 :: "u16 \<Rightarrow> u16" where
  "bswap16 val = push_bit 8 (val AND 0x00ff) OR drop_bit 8 (val AND 0xff00)"

definition bswap32 :: "u32 \<Rightarrow> u32" where
  "bswap32 val =
     push_bit 24 (val AND 0x000000ff)
     OR push_bit 8 (val AND 0x0000ff00)
     OR drop_bit 8 (val AND 0x00ff0000)
     OR drop_bit 24 (val AND 0xff000000)"

definition bswap64 :: "u64 \<Rightarrow> u64" where
  "bswap64 val =
     push_bit 56 (val AND 0x00000000000000ff)
     OR push_bit 40 (val AND 0x000000000000ff00)
     OR push_bit 24 (val AND 0x0000000000ff0000)
     OR push_bit 8 (val AND 0x00000000ff000000)
     OR push_bit 8 (val AND 0x000000ff00000000)
     OR push_bit 24 (val AND 0x0000ff0000000000)
     OR drop_bit 40 (val AND 0x00ff000000000000)
     OR drop_bit 56 (val AND 0xff00000000000000)"

definition ntohs :: "u16 \<Rightarrow> u16" where "ntohs val = val"
definition htons :: "u16 \<Rightarrow> u16" where "htons val = val"
definition ntohl :: "u32 \<Rightarrow> u32" where "ntohl val = val"
definition htonl :: "u32 \<Rightarrow> u32" where "htonl val = val"
definition ntohll :: "u64 \<Rightarrow> u64" where "ntohll val = val"
definition htonll :: "u64 \<Rightarrow> u64" where "htonll val = val"

definition join32to64 :: "u32 \<Rightarrow> u32 \<Rightarrow> u64" where
  "join32to64 x1 x2 = push_bit 32 (ucast x1) OR ucast x2"

definition split64to32 :: "u64 \<Rightarrow> u32 \<times> u32" where
  "split64to32 x = (ucast (drop_bit 32 x), ucast (x AND 0xffffffff))"

subsection \<open>Reference: the bytes of a word, least significant first\<close>

definition byte_at :: "'a::len word \<Rightarrow> nat \<Rightarrow> u8" where
  "byte_at w k = ucast (drop_bit (8 * k) w)"


subsection \<open>Bits of bytes\<close>

lemma bit_byte_at: "bit (byte_at w k) n \<longleftrightarrow> n < 8 \<and> bit w (8 * k + n)"
  by (auto simp: byte_at_def bit_simps)

lemma byte_at_cong:
  assumes "\<And>n. n < 8 \<Longrightarrow> bit v (8 * j + n) = bit w (8 * k + n)"
  shows "byte_at v j = byte_at w k"
  by (rule bit_word_eqI) (simp add: bit_byte_at assms)

lemma less_8E:
  assumes "(n::nat) < 8"
  obtains "n = 0" | "n = 1" | "n = 2" | "n = 3" | "n = 4" | "n = 5" | "n = 6" | "n = 7"
  using assms by linarith

lemma less_4E:
  assumes "(n::nat) < 4"
  obtains "n = 0" | "n = 1" | "n = 2" | "n = 3"
  using assms by linarith

lemma less_2E:
  assumes "(n::nat) < 2"
  obtains "n = 0" | "n = 1"
  using assms by linarith

lemma word32_bytes_eqI:
  fixes v w :: u32
  assumes "\<And>k. k < 4 \<Longrightarrow> byte_at v k = byte_at w k"
  shows "v = w"
proof (rule bit_word_eqI)
  fix n
  assume "n < LENGTH(32)"
  then have "n div 8 < 4" by simp
  from assms [OF this] have "bit (byte_at v (n div 8)) (n mod 8) = bit (byte_at w (n div 8)) (n mod 8)"
    by simp
  then show "bit v n = bit w n" by (simp add: bit_byte_at)
qed

lemma bit_bswap16: "k < 2 \<Longrightarrow> n < 8 \<Longrightarrow> bit (bswap16 w) (8 * k + n) = bit w (8 * (1 - k) + n)"
  by (elim less_2E less_8E) (simp_all add: bswap16_def bit_simps flip: numeral_2_eq_2)

lemma bit_bswap32: "k < 4 \<Longrightarrow> n < 8 \<Longrightarrow> bit (bswap32 w) (8 * k + n) = bit w (8 * (3 - k) + n)"
  by (elim less_4E less_8E) (simp_all add: bswap32_def bit_simps flip: numeral_2_eq_2)


lemma bswap32_byte: "k < 4 \<Longrightarrow> byte_at (bswap32 w) k = byte_at w (3 - k)"
  by (rule byte_at_cong) (rule bit_bswap32)

lemma bswap16_byte: "k < 2 \<Longrightarrow> byte_at (bswap16 w) k = byte_at w (1 - k)"
  by (rule byte_at_cong) (rule bit_bswap16)

text \<open>
  C6.  The 32-bit byte swap is its own inverse, and so is the 16-bit one: swapping a value
  to the other byte order and back gives the value.
\<close>

theorem bswap_involution: "bswap32 (bswap32 w) = w \<and> bswap16 (bswap16 v) = v"
proof
  show "bswap32 (bswap32 w) = w"
    by (rule word32_bytes_eqI) (simp add: bswap32_byte)
  show "bswap16 (bswap16 v) = v"
  proof (rule bit_word_eqI)
    fix n
    assume "n < LENGTH(16)"
    then have "n div 8 < 2" and "n mod 8 < 8" by simp_all
    then show "bit (bswap16 (bswap16 v)) n = bit v n"
      using bit_bswap16 [of "n div 8" "n mod 8" "bswap16 v"]
        bit_bswap16 [of "1 - n div 8" "n mod 8" v] by simp
  qed
qed

lemma bswap64_byte_low:
  shows "byte_at (bswap64 w) 0 = byte_at w 7" and "byte_at (bswap64 w) 1 = byte_at w 6"
    and "byte_at (bswap64 w) 2 = 0" and "byte_at (bswap64 w) 3 = 0"
  by (rule bit_word_eqI; simp add: bit_byte_at bit_simps bswap64_def;
      elim less_8E; simp add: bit_simps)+

lemma bswap64_byte_high:
  shows "byte_at (bswap64 w) 4 = byte_at w 3" and "byte_at (bswap64 w) 5 = byte_at w 2 OR byte_at w 4"
    and "byte_at (bswap64 w) 6 = byte_at w 1" and "byte_at (bswap64 w) 7 = byte_at w 0"
  by (rule bit_word_eqI; simp add: bit_byte_at bit_simps bswap64_def;
      elim less_8E; simp add: bit_simps)+

text \<open>
  C7.  What the 64-bit byte swap computes.  Two of its eight terms shift the wrong way, so it
  is not a byte reversal: bytes 2 and 3 of the result are always zero, byte 5 of the argument
  is lost, and byte 4 is merged into the byte that should hold byte 2 alone.  The other five
  bytes are reversed.
\<close>

theorem bswap64_bytes:
  "byte_at (bswap64 w) 0 = byte_at w 7 \<and> byte_at (bswap64 w) 1 = byte_at w 6 \<and>
   byte_at (bswap64 w) 2 = 0 \<and> byte_at (bswap64 w) 3 = 0 \<and>
   byte_at (bswap64 w) 4 = byte_at w 3 \<and>
   byte_at (bswap64 w) 5 = byte_at w 2 OR byte_at w 4 \<and>
   byte_at (bswap64 w) 6 = byte_at w 1 \<and> byte_at (bswap64 w) 7 = byte_at w 0"
  by (intro conjI bswap64_byte_low bswap64_byte_high)

lemma bit_u32_beyond: "\<not> bit (w :: u32) (32 + n)"
  using bit_imp_le_length [of w "32 + n"] by auto

text \<open>
  C8.  Splitting a 64-bit value into the register pair of the system call convention and
  joining the pair again gives the value, and the other way around.
\<close>

theorem split_join_roundtrip:
  "case_prod join32to64 (split64to32 x) = x \<and> split64to32 (join32to64 x1 x2) = (x1, x2)"
proof
  have m: "(0xffffffff :: u64) = mask 32"
    by (simp add: mask_eq_exp_minus_1)
  show "case_prod join32to64 (split64to32 x) = x"
    by (rule bit_word_eqI) (auto simp: split64to32_def join32to64_def m bit_simps)
  show "split64to32 (join32to64 x1 x2) = (x1, x2)"
    by (auto simp: split64to32_def join32to64_def m bit_u32_beyond bit_simps intro!: bit_word_eqI)
qed

end
