(* ===== verification/Memory_Interface.thy ===== *)
theory Memory_Interface
  imports Kernel_Prelude
begin

text \<open>
  The two contracts the memory components promise to their clients.  \<open>page_allocator\<close> is what
  the address spaces and the kernel heap rely on when they ask for runs of pages, and
  \<open>kernel_heap\<close> is what every user of \<open>kmalloc\<close> and \<open>kfree\<close> relies on.  Both relate the
  concrete state to a finite map from the start address of what is allocated to its length.
  The coremap interprets the first one and the subpage allocator the second.
\<close>

definition page_run :: "u32 \<Rightarrow> nat \<Rightarrow> nat set" where
  "page_run p n = {unat p ..< unat p + 4096 * n}"

definition byte_run :: "u32 \<Rightarrow> nat \<Rightarrow> nat set" where
  "byte_run p n = {unat p ..< unat p + n}"

locale page_allocator =
  fixes alloc :: "nat \<Rightarrow> 'v \<Rightarrow> (u32 \<times> 'v) option" and free :: "u32 \<Rightarrow> 'v \<Rightarrow> 'v option"
    and prel :: "'v \<Rightarrow> (u32 \<rightharpoonup> nat) \<Rightarrow> bool"
  assumes alloc_total: "prel v A \<Longrightarrow> \<exists>p v'. alloc n v = Some (p, v')"
    and alloc_fail: "prel v A \<Longrightarrow> alloc n v = Some (0, v') \<Longrightarrow> v' = v"
    and alloc_fresh: "prel v A \<Longrightarrow> alloc n v = Some (p, v') \<Longrightarrow> p \<noteq> 0 \<Longrightarrow> A p = None \<and> prel v' (A(p \<mapsto> n))"
    and free_run: "prel v A \<Longrightarrow> A p = Some n \<Longrightarrow> \<exists>v'. free p v = Some v' \<and> prel v' (A(p := None))"
    and run_shape: "prel v A \<Longrightarrow> A p = Some n \<Longrightarrow>
      0 < n \<and> p \<noteq> 0 \<and> 4096 dvd unat p \<and> unat p + 4096 * n \<le> 2 ^ 32"
    and run_disjoint: "prel v A \<Longrightarrow> A p = Some n \<Longrightarrow> A q = Some m \<Longrightarrow> p \<noteq> q \<Longrightarrow>
      page_run p n \<inter> page_run q m = {}"
begin

lemma alloc_cases:
  assumes "prel v A"
  obtains "alloc n v = Some (0, v)"
  | p v' where "alloc n v = Some (p, v')" "p \<noteq> 0" "A p = None" "prel v' (A(p \<mapsto> n))"
proof -
  obtain p v' where "alloc n v = Some (p, v')" using alloc_total [OF assms] by blast
  then show thesis
    using that alloc_fail [OF assms] alloc_fresh [OF assms] by (cases "p = 0") auto
qed

lemma alloc_disjoint:
  assumes "prel v A" and "alloc n v = Some (p, v')" and "p \<noteq> 0" and "A q = Some m"
  shows "page_run p n \<inter> page_run q m = {}"
  using alloc_fresh [OF assms(1-3)] assms(4) run_disjoint [of v' "A(p \<mapsto> n)" p n q m] by (cases "p = q") auto

lemma alloc_free:
  assumes "prel v A" and "alloc n v = Some (p, v')" and "p \<noteq> 0"
  shows "\<exists>v''. free p v' = Some v'' \<and> prel v'' A"
proof -
  have "A p = None" "prel v' (A(p \<mapsto> n))" using alloc_fresh [OF assms] by simp_all
  then show ?thesis using free_run [of v' "A(p \<mapsto> n)" p n] by (simp add: fun_upd_idem)
qed

end

locale kernel_heap =
  fixes kmalloc :: "nat \<Rightarrow> 'h \<Rightarrow> (u32 \<times> 'h) option" and kfree :: "u32 \<Rightarrow> 'h \<Rightarrow> 'h option"
    and hrel :: "'h \<Rightarrow> (u32 \<rightharpoonup> nat) \<Rightarrow> bool" and word_at :: "'h \<Rightarrow> u32 \<Rightarrow> u32"
  assumes kmalloc_total: "hrel h L \<Longrightarrow> sz < 2 ^ 31 \<Longrightarrow> \<exists>p h'. kmalloc sz h = Some (p, h')"
    and kmalloc_fail: "hrel h L \<Longrightarrow> sz < 2 ^ 31 \<Longrightarrow> kmalloc sz h = Some (0, h') \<Longrightarrow> hrel h' L"
    and kmalloc_fresh: "hrel h L \<Longrightarrow> sz < 2 ^ 31 \<Longrightarrow> kmalloc sz h = Some (p, h') \<Longrightarrow> p \<noteq> 0 \<Longrightarrow>
      L p = None \<and> hrel h' (L(p \<mapsto> sz))"
    and kfree_null: "hrel h L \<Longrightarrow> kfree 0 h = Some h"
    and kfree_live: "hrel h L \<Longrightarrow> L p = Some sz \<Longrightarrow> \<exists>h'. kfree p h = Some h' \<and> hrel h' (L(p := None))"
    and block_shape: "hrel h L \<Longrightarrow> L p = Some sz \<Longrightarrow> p \<noteq> 0 \<and> 4 dvd unat p \<and> unat p + sz \<le> 2 ^ 32"
    and block_disjoint: "hrel h L \<Longrightarrow> L p = Some a \<Longrightarrow> L q = Some b \<Longrightarrow> p \<noteq> q \<Longrightarrow>
      byte_run p a \<inter> byte_run q b = {}"
    and kmalloc_frame: "hrel h L \<Longrightarrow> sz < 2 ^ 31 \<Longrightarrow> kmalloc sz h = Some (p, h') \<Longrightarrow> L q = Some b \<Longrightarrow>
      unat w \<in> byte_run q b \<Longrightarrow> 4 dvd unat w \<Longrightarrow> word_at h' w = word_at h w"
    and kfree_frame: "hrel h L \<Longrightarrow> L p = Some a \<Longrightarrow> kfree p h = Some h' \<Longrightarrow> L q = Some b \<Longrightarrow> p \<noteq> q \<Longrightarrow>
      unat w \<in> byte_run q b \<Longrightarrow> 4 dvd unat w \<Longrightarrow> word_at h' w = word_at h w"
begin

lemma kmalloc_cases:
  assumes "hrel h L" and "sz < 2 ^ 31"
  obtains h' where "kmalloc sz h = Some (0, h')" "hrel h' L"
  | p h' where "kmalloc sz h = Some (p, h')" "p \<noteq> 0" "L p = None" "hrel h' (L(p \<mapsto> sz))"
proof -
  obtain p h' where "kmalloc sz h = Some (p, h')" using kmalloc_total [OF assms] by blast
  then show thesis
    using that kmalloc_fail [OF assms] kmalloc_fresh [OF assms] by (cases "p = 0") auto
qed

lemma kmalloc_kfree:
  assumes "hrel h L" and "sz < 2 ^ 31" and "kmalloc sz h = Some (p, h')" and "p \<noteq> 0"
  shows "\<exists>h''. kfree p h' = Some h'' \<and> hrel h'' L"
proof -
  have "L p = None" "hrel h' (L(p \<mapsto> sz))" using kmalloc_fresh [OF assms] by simp_all
  then show ?thesis using kfree_live [of h' "L(p \<mapsto> sz)" p sz] by (simp add: fun_upd_idem)
qed

lemma kmalloc_disjoint:
  assumes "hrel h L" and "sz < 2 ^ 31" and "kmalloc sz h = Some (p, h')" and "p \<noteq> 0"
    and "L q = Some b"
  shows "byte_run p sz \<inter> byte_run q b = {}"
  using kmalloc_fresh [OF assms(1-4)] assms(5) block_disjoint [of h' "L(p \<mapsto> sz)" p sz q b] by (cases "p = q") auto

end

end
