(* ===== verification/Bitmap.thy ===== *)
theory Bitmap
  imports Memory_Interface
begin

text \<open>
  The bitmaps of src/kern/lib/bitmap.c, which hand out indices (the file system uses one for
  its free blocks).  The bits live in an array of bytes.  The memory allocator that
  \<open>bitmap_create\<close> and \<open>bitmap_destroy\<close> call is an argument of the definitions; the lemmas on
  the bits do not depend on it.  Against the bytes stands the set of the indices in use, and
  the locale \<open>index_allocator\<close> is the contract in terms of that set.
\<close>

subsection \<open>Model\<close>

text \<open>
  The two address fields are where the structure and its bytes were allocated; the bytes
  themselves are in \<open>bm_v\<close>.
\<close>

record bitmap =
  bm_self :: u32
  bm_vp :: u32
  bm_nbits :: nat
  bm_v :: "u8 list"

definition bitmap_words :: "nat \<Rightarrow> nat" where
  "bitmap_words nbits = DIVROUNDUP32 nbits 8"

function bitmap_mark_over :: "u8 list \<Rightarrow> nat \<Rightarrow> nat \<Rightarrow> u8 list kres" where
  "bitmap_mark_over v ix j =
     (if j < 8 then do {
        w \<leftarrow> aget v ix;
        v' \<leftarrow> aput v ix (w OR push_bit j 1);
        bitmap_mark_over v' ix (Suc j)
      } else Some v)"
  by auto
termination
  by (relation "measure (\<lambda>(v, ix, j). 8 - j)") auto

definition bitmap_fresh :: "nat \<Rightarrow> u8 list kres" where
  "bitmap_fresh nbits =
     (let words = bitmap_words nbits; v = replicate words (0 :: u8) in
      if words > nbits div 8 then
        (let ix = words - 1; overbits = nbits - ix * 8 in do {
           kassert (nbits div 8 = words - 1);
           kassert (overbits > 0 \<and> overbits < 8);
           bitmap_mark_over v ix overbits
         })
      else Some v)"

definition bitmap_create ::
  "(nat \<Rightarrow> 'h \<Rightarrow> (u32 \<times> 'h) kres) \<Rightarrow> (u32 \<Rightarrow> 'h \<Rightarrow> 'h kres) \<Rightarrow>
   nat \<Rightarrow> 'h \<Rightarrow> (bitmap option \<times> 'h) kres" where
  "bitmap_create kmalloc kfree nbits h = do {
     (bp, h1) \<leftarrow> kmalloc 8 h;
     if bp = 0 then Some (None, h1)
     else do {
       (vp, h2) \<leftarrow> kmalloc (bitmap_words nbits) h1;
       if vp = 0 then do { h3 \<leftarrow> kfree bp h2; Some (None, h3) }
       else do {
         v \<leftarrow> bitmap_fresh nbits;
         Some (Some \<lparr>bm_self = bp, bm_vp = vp, bm_nbits = nbits, bm_v = v\<rparr>, h2)
       }
     }
   }"

definition bitmap_getdata :: "bitmap \<Rightarrow> u8 list" where
  "bitmap_getdata b = bm_v b"

function bitmap_scan_word :: "u8 \<Rightarrow> nat \<Rightarrow> nat kres" where
  "bitmap_scan_word w offset =
     (if offset < 8 then
        (if w AND push_bit offset 1 = 0 then Some offset
         else bitmap_scan_word w (Suc offset))
      else None)"
  by auto
termination
  by (relation "measure (\<lambda>(w, offset). 8 - offset)") auto

function bitmap_alloc_loop :: "bitmap \<Rightarrow> nat \<Rightarrow> (bitmap \<times> (errno + nat)) kres" where
  "bitmap_alloc_loop b ix =
     (if ix < bitmap_words (bm_nbits b) then do {
        w \<leftarrow> aget (bm_v b) ix;
        if w \<noteq> 0xff then do {
          offset \<leftarrow> bitmap_scan_word w 0;
          v' \<leftarrow> aput (bm_v b) ix (w OR push_bit offset 1);
          kassert (ix * 8 + offset < bm_nbits b);
          Some (b\<lparr>bm_v := v'\<rparr>, Inr (ix * 8 + offset))
        } else bitmap_alloc_loop b (Suc ix)
      } else Some (b, Inl ENOSPC))"
  by auto
termination
  by (relation "measure (\<lambda>(b, ix). bitmap_words (bm_nbits b) - ix)") auto

definition bitmap_alloc :: "bitmap \<Rightarrow> (bitmap \<times> (errno + nat)) kres" where
  "bitmap_alloc b = bitmap_alloc_loop b 0"

definition bitmap_translate :: "nat \<Rightarrow> nat \<times> u8" where
  "bitmap_translate bitno = (bitno div 8, push_bit (bitno mod 8) 1)"

definition bitmap_mark :: "bitmap \<Rightarrow> nat \<Rightarrow> bitmap kres" where
  "bitmap_mark b index = do {
     kassert (index < bm_nbits b);
     let (ix, mask) = bitmap_translate index;
     w \<leftarrow> aget (bm_v b) ix;
     kassert (w AND mask = 0);
     v' \<leftarrow> aput (bm_v b) ix (w OR mask);
     Some (b\<lparr>bm_v := v'\<rparr>)
   }"

definition bitmap_unmark :: "bitmap \<Rightarrow> nat \<Rightarrow> bitmap kres" where
  "bitmap_unmark b index = do {
     kassert (index < bm_nbits b);
     let (ix, mask) = bitmap_translate index;
     w \<leftarrow> aget (bm_v b) ix;
     kassert (w AND mask \<noteq> 0);
     v' \<leftarrow> aput (bm_v b) ix (w AND NOT mask);
     Some (b\<lparr>bm_v := v'\<rparr>)
   }"

definition bitmap_isset :: "bitmap \<Rightarrow> nat \<Rightarrow> u8 kres" where
  "bitmap_isset b index = do {
     let (ix, mask) = bitmap_translate index;
     w \<leftarrow> aget (bm_v b) ix;
     Some (w AND mask)
   }"

definition bitmap_destroy :: "(u32 \<Rightarrow> 'h \<Rightarrow> 'h kres) \<Rightarrow> bitmap \<Rightarrow> 'h \<Rightarrow> 'h kres" where
  "bitmap_destroy kfree b h = do {
     h1 \<leftarrow> kfree (bm_vp b) h;
     kfree (bm_self b) h1
   }"

declare bitmap_mark_over.simps [simp del] bitmap_scan_word.simps [simp del]
  bitmap_alloc_loop.simps [simp del]

subsection \<open>Abstraction: the set of indices in use\<close>

definition bm_bit :: "bitmap \<Rightarrow> nat \<Rightarrow> bool" where
  "bm_bit b i = bit (bm_v b ! (i div 8)) (i mod 8)"

definition bm_used :: "bitmap \<Rightarrow> nat set" where
  "bm_used b = {i. i < bm_nbits b \<and> bm_bit b i}"

text \<open>
  The invariant: the bytes are as many as the bits need, and the bits of the last byte that
  are beyond the end of the map are marked in use.
\<close>

definition bm_wf :: "bitmap \<Rightarrow> bool" where
  "bm_wf b \<longleftrightarrow> bm_nbits b + 8 \<le> 2 ^ 32 \<and> length (bm_v b) = bitmap_words (bm_nbits b) \<and>
     (\<forall>i < 8 * bitmap_words (bm_nbits b). bm_nbits b \<le> i \<longrightarrow> bm_bit b i)"

lemma bitmap_words_bounds:
  assumes "n + 8 \<le> 2 ^ 32"
  shows "n \<le> 8 * bitmap_words n" and "8 * bitmap_words n < n + 8"
  using DIVROUNDUP_bounds [of 8 n] assms
  by (simp_all add: bitmap_words_def DIVROUNDUP32_eq mult.commute)

lemma index_in_words:
  "bm_wf b \<Longrightarrow> i < 8 * bitmap_words (bm_nbits b) \<Longrightarrow> i div 8 < length (bm_v b)"
  by (auto simp: bm_wf_def)

lemma index_in_bytes: "bm_wf b \<Longrightarrow> i < bm_nbits b \<Longrightarrow> i div 8 < length (bm_v b)"
  using bitmap_words_bounds [of "bm_nbits b"] by (auto simp: bm_wf_def)

lemma bit_test_eq_0 [simp]: "(w :: u8) AND push_bit n 1 = 0 \<longleftrightarrow> \<not> bit w n"
  by (simp add: push_bit_of_1 and_exp_eq_0_iff_not_bit)

lemma bit_test_exp_eq_0 [simp]: "(w :: u8) AND 2 ^ n = 0 \<longleftrightarrow> \<not> bit w n"
  by (rule and_exp_eq_0_iff_not_bit)

lemma div_mod_8_eqD: "i div 8 = k div 8 \<Longrightarrow> i mod 8 = k mod 8 \<Longrightarrow> i = (k :: nat)"
  by (metis div_mult_mod_eq)

lemma bm_bit_or:
  assumes "k div 8 < length (bm_v b)"
  shows "bm_bit (b\<lparr>bm_v := (bm_v b)[k div 8 := bm_v b ! (k div 8) OR push_bit (k mod 8) 1]\<rparr>) i
         \<longleftrightarrow> i = k \<or> bm_bit b i"
  using assms div_mod_8_eqD [of i k]
  by (cases "i div 8 = k div 8") (auto simp: bm_bit_def bit_simps)

lemma bm_bit_andnot:
  assumes "k div 8 < length (bm_v b)"
  shows "bm_bit (b\<lparr>bm_v := (bm_v b)[k div 8 := bm_v b ! (k div 8) AND NOT (push_bit (k mod 8) 1)]\<rparr>) i
         \<longleftrightarrow> i \<noteq> k \<and> bm_bit b i"
  using assms div_mod_8_eqD [of i k]
  by (cases "i div 8 = k div 8") (auto simp: bm_bit_def bit_simps)

lemma bm_set_index:
  assumes "bm_wf b" and "k < bm_nbits b"
  defines "b' \<equiv> b\<lparr>bm_v := (bm_v b)[k div 8 := bm_v b ! (k div 8) OR push_bit (k mod 8) 1]\<rparr>"
  shows "bm_wf b'" and "bm_used b' = insert k (bm_used b)" and "bm_nbits b' = bm_nbits b"
  using assms(1,2) bm_bit_or [of k b] index_in_bytes [OF assms(1,2)]
  unfolding b'_def by (auto simp: bm_wf_def bm_used_def)

lemma bm_clear_index:
  assumes "bm_wf b" and "k < bm_nbits b"
  defines "b' \<equiv> b\<lparr>bm_v := (bm_v b)[k div 8 := bm_v b ! (k div 8) AND NOT (push_bit (k mod 8) 1)]\<rparr>"
  shows "bm_wf b'" and "bm_used b' = bm_used b - {k}" and "bm_nbits b' = bm_nbits b"
  using assms(1,2) bm_bit_andnot [of k b] index_in_bytes [OF assms(1,2)]
  unfolding b'_def by (auto simp: bm_wf_def bm_used_def)

subsection \<open>The scan for a free bit\<close>

lemma bitmap_scan_word_least:
  assumes "offset \<le> k" and "k < 8" and "\<not> bit w k" and "\<forall>j. offset \<le> j \<and> j < k \<longrightarrow> bit w j"
  shows "bitmap_scan_word w offset = Some k"
  using assms
proof (induction w offset rule: bitmap_scan_word.induct)
  case (1 w offset)
  show ?case
  proof (cases "offset = k")
    case True
    then show ?thesis using 1 by (subst bitmap_scan_word.simps) simp
  next
    case False
    then have "bit w offset" using 1 by simp
    then show ?thesis using 1 False by (subst bitmap_scan_word.simps) simp
  qed
qed

lemma bit_byte_full: "bit (0xff :: u8) n \<longleftrightarrow> n < 8"
proof -
  have "(0xff :: u8) = mask 8" by (simp add: mask_eq_exp_minus_1)
  then show ?thesis by (simp only: bit_mask_iff) auto
qed

lemma byte_not_full: "w \<noteq> 0xff \<Longrightarrow> \<exists>k < 8. \<not> bit (w :: u8) k"
  using bit_word_eqI [of w "0xff"] bit_byte_full by force

lemma bitmap_alloc_loop_least:
  assumes "bm_wf b" and "k < bm_nbits b" and "\<not> bm_bit b k" and "\<forall>i < k. bm_bit b i"
    and "ix \<le> k div 8"
  shows "bitmap_alloc_loop b ix =
    Some (b\<lparr>bm_v := (bm_v b)[k div 8 := bm_v b ! (k div 8) OR push_bit (k mod 8) 1]\<rparr>, Inr k)"
  using assms
proof (induction b ix rule: bitmap_alloc_loop.induct)
  case (1 b ix)
  note len = index_in_bytes [OF 1(2,3)]
  have ix: "ix < bitmap_words (bm_nbits b)" "ix < length (bm_v b)"
    using 1 len by (auto simp: bm_wf_def)
  show ?case
  proof (cases "ix = k div 8")
    case True
    have "\<not> bit (bm_v b ! ix) (k mod 8)" using 1 True by (simp add: bm_bit_def)
    moreover have "bit (bm_v b ! ix) j" if "j < k mod 8" for j
    proof -
      have "8 * ix + j < k" using that True mult_div_mod_eq [of 8 k] by linarith
      moreover have "j < 8" using that by (meson mod_less_divisor less_trans zero_less_numeral)
      ultimately show ?thesis using 1(5) by (force simp: bm_bit_def)
    qed
    ultimately have "bitmap_scan_word (bm_v b ! ix) 0 = Some (k mod 8)" and "bm_v b ! ix \<noteq> 0xff"
      using bit_byte_full [of "k mod 8"] by (auto intro: bitmap_scan_word_least)
    then show ?thesis
      using 1 ix True by (subst bitmap_alloc_loop.simps) (simp add: mult.commute)
  next
    case False
    have "bm_v b ! ix = 0xff"
    proof (rule ccontr)
      assume "bm_v b ! ix \<noteq> 0xff"
      then obtain j where j: "j < 8" "\<not> bit (bm_v b ! ix) j" using byte_not_full by blast
      then have "ix * 8 + j < k" using 1(6) False by linarith
      then show False using 1(5) j by (force simp: bm_bit_def)
    qed
    then show ?thesis
      using 1 ix False by (subst bitmap_alloc_loop.simps) simp
  qed
qed

lemma bitmap_alloc_loop_full:
  assumes "bm_wf b" and "\<forall>i < bm_nbits b. bm_bit b i"
  shows "bitmap_alloc_loop b ix = Some (b, Inl ENOSPC)"
  using assms
proof (induction b ix rule: bitmap_alloc_loop.induct)
  case (1 b ix)
  have all: "bm_bit b i" if "i < 8 * bitmap_words (bm_nbits b)" for i
    using 1(2,3) that by (cases "i < bm_nbits b") (auto simp: bm_wf_def)
  have "bm_v b ! ix = 0xff" if "ix < bitmap_words (bm_nbits b)"
  proof (rule ccontr)
    assume "bm_v b ! ix \<noteq> 0xff"
    then obtain j where "j < 8" "\<not> bit (bm_v b ! ix) j" using byte_not_full by blast
    then show False using all [of "ix * 8 + j"] that by (simp add: bm_bit_def)
  qed
  then show ?case
    using 1 by (subst bitmap_alloc_loop.simps) (auto simp: bm_wf_def)
qed

lemma bitmap_mark_over_bits:
  assumes "ix < length v" and "j \<le> 8"
  obtains v' where "bitmap_mark_over v ix j = Some v'" and "length v' = length v"
    and "\<forall>i < length v. i \<noteq> ix \<longrightarrow> v' ! i = v ! i"
    and "\<forall>n < 8. bit (v' ! ix) n \<longleftrightarrow> bit (v ! ix) n \<or> j \<le> n"
  using assms
proof (induction v ix j arbitrary: thesis rule: bitmap_mark_over.induct)
  case (1 v ix j)
  show ?case
  proof (cases "j < 8")
    case True
    let ?v = "v[ix := v ! ix OR push_bit j 1]"
    obtain v' where v': "bitmap_mark_over ?v ix (Suc j) = Some v'" "length v' = length v"
        "\<forall>i < length v. i \<noteq> ix \<longrightarrow> v' ! i = ?v ! i"
        "\<forall>n < 8. bit (v' ! ix) n \<longleftrightarrow> bit (?v ! ix) n \<or> Suc j \<le> n"
      using 1(1) [of "v ! ix" ?v] 1(3) True by auto
    show ?thesis
    proof (rule 1(2))
      show "bitmap_mark_over v ix j = Some v'"
        using v'(1) 1(3) True by (subst bitmap_mark_over.simps) simp
    qed (use v' 1(3) True in \<open>auto simp: bit_simps\<close>)
  next
    case False
    then show ?thesis
      using 1(2) [of v] 1(4) bitmap_mark_over.simps [of v ix j] by simp
  qed
qed

lemma bitmap_fresh_wf:
  assumes "nbits + 8 \<le> 2 ^ 32"
  obtains v where "bitmap_fresh nbits = Some v"
    and "bm_wf \<lparr>bm_self = p, bm_vp = q, bm_nbits = nbits, bm_v = v\<rparr>"
    and "bm_used \<lparr>bm_self = p, bm_vp = q, bm_nbits = nbits, bm_v = v\<rparr> = {}"
proof -
  let ?w = "bitmap_words nbits" and ?v = "replicate (bitmap_words nbits) (0 :: u8)"
  note b = bitmap_words_bounds [OF assms]
  show thesis
  proof (cases "?w > nbits div 8")
    case False
    then have "8 * ?w = nbits" using b by linarith
    with False show thesis
      using that [of ?v] assms by (auto simp: bitmap_fresh_def bm_wf_def bm_used_def bm_bit_def)
  next
    case True
    let ?ix = "?w - 1" and ?o = "nbits - (?w - 1) * 8"
    have ix: "nbits div 8 = ?ix" "0 < ?o" "?o < 8" using True b by linarith+
    obtain v where v: "bitmap_mark_over ?v ?ix ?o = Some v" "length v = ?w"
        "\<forall>i < ?w. i \<noteq> ?ix \<longrightarrow> v ! i = 0" "\<forall>n < 8. bit (v ! ?ix) n \<longleftrightarrow> ?o \<le> n"
      using bitmap_mark_over_bits [of ?ix ?v ?o] True ix by auto
    have bit: "bit (v ! (i div 8)) (i mod 8) \<longleftrightarrow> nbits \<le> i" if "i < 8 * ?w" for i
    proof (cases "i div 8 = ?ix")
      case True
      then have "i = ?ix * 8 + i mod 8" using mult_div_mod_eq [of 8 i] by linarith
      then have "?o \<le> i mod 8 \<longleftrightarrow> nbits \<le> i" using ix by linarith
      then show ?thesis using v(4) True by simp
    next
      case False
      moreover have "i div 8 < ?w" using that by simp
      ultimately show ?thesis using v(3) ix by force
    qed
    have "\<not> bit (v ! (i div 8)) (i mod 8)" if "i < nbits" for i
      using bit [of i] that b by simp
    then show thesis
    proof (intro that)
      show "bitmap_fresh nbits = Some v"
        using True ix v(1) by (simp add: bitmap_fresh_def Let_def)
    qed (use v(2) bit assms in \<open>simp_all add: bm_wf_def bm_used_def bm_bit_def\<close>)
  qed
qed

subsection \<open>Contract\<close>

text \<open>
  What a client of an index map relies on: allocation takes the least index that is free and
  fails exactly when there is none; marking and unmarking change one index.
\<close>

locale index_allocator =
  fixes wf :: "'b \<Rightarrow> bool" and size :: "'b \<Rightarrow> nat" and used :: "'b \<Rightarrow> nat set"
    and alloc :: "'b \<Rightarrow> ('b \<times> (errno + nat)) option"
    and mark :: "'b \<Rightarrow> nat \<Rightarrow> 'b option" and unmark :: "'b \<Rightarrow> nat \<Rightarrow> 'b option"
  assumes used_bounded: "wf b \<Longrightarrow> used b \<subseteq> {..<size b}"
    and alloc_full: "wf b \<Longrightarrow> used b = {..<size b} \<Longrightarrow> alloc b = Some (b, Inl ENOSPC)"
    and alloc_least: "wf b \<Longrightarrow> k < size b \<Longrightarrow> k \<notin> used b \<Longrightarrow> {..<k} \<subseteq> used b \<Longrightarrow>
      \<exists>b'. alloc b = Some (b', Inr k) \<and> wf b' \<and> size b' = size b \<and> used b' = insert k (used b)"
    and mark_free: "wf b \<Longrightarrow> k < size b \<Longrightarrow> k \<notin> used b \<Longrightarrow>
      \<exists>b'. mark b k = Some b' \<and> wf b' \<and> size b' = size b \<and> used b' = insert k (used b)"
    and unmark_used: "wf b \<Longrightarrow> k \<in> used b \<Longrightarrow>
      \<exists>b'. unmark b k = Some b' \<and> wf b' \<and> size b' = size b \<and> used b' = used b - {k}"
begin

lemma alloc_cases:
  assumes "wf b"
  obtains "used b = {..<size b}" "alloc b = Some (b, Inl ENOSPC)"
  | b' k where "alloc b = Some (b', Inr k)" "k < size b" "k \<notin> used b" "{..<k} \<subseteq> used b"
      "wf b'" "size b' = size b" "used b' = insert k (used b)"
proof (cases "used b = {..<size b}")
  case True
  show thesis by (rule that(1) [OF True alloc_full [OF assms True]])
next
  case False
  then have ex: "\<exists>k. k < size b \<and> k \<notin> used b"
    using used_bounded [OF assms] by blast
  define k where "k = (LEAST k. k < size b \<and> k \<notin> used b)"
  have k: "k < size b" "k \<notin> used b"
    using LeastI_ex [OF ex] unfolding k_def by auto
  have "i \<in> used b" if "i < k" for i
    using not_less_Least [OF that [unfolded k_def]] that k(1) by simp
  then have low: "{..<k} \<subseteq> used b" by blast
  obtain b' where b': "alloc b = Some (b', Inr k)" "wf b'" "size b' = size b" "used b' = insert k (used b)"
    using alloc_least [OF assms k low] by blast
  show thesis by (rule that(2) [OF b'(1) k low b'(2-4)])
qed

lemma alloc_then_unmark:
  assumes "wf b" and "alloc b = Some (b', Inr k)"
  shows "\<exists>b''. unmark b' k = Some b'' \<and> wf b'' \<and> size b'' = size b \<and> used b'' = used b"
  using assms(1)
proof (cases rule: alloc_cases)
  case (2 c l)
  then have eqs: "c = b'" "l = k" using assms(2) by simp_all
  then have "k \<in> used b'" using 2 by simp
  then show ?thesis using unmark_used [of b' k] 2 eqs by auto
qed (use assms(2) in simp)

lemma free_count_alloc:
  assumes "wf b" and "alloc b = Some (b', Inr k)"
  shows "Suc (card ({..<size b'} - used b')) = card ({..<size b} - used b)"
  using assms(1)
proof (cases rule: alloc_cases)
  case (2 c l)
  then have eqs: "c = b'" "l = k" using assms(2) by simp_all
  have "{..<size b} - used b = insert k ({..<size b} - used b')" using 2 eqs by auto
  moreover have "k \<notin> {..<size b} - used b'" using 2 eqs by simp
  ultimately show ?thesis using 2(6) eqs by (metis card_insert_disjoint finite_Diff finite_lessThan)
qed (use assms(2) in simp)

end

lemma bitmap_alloc_full:
  "bm_wf b \<Longrightarrow> bm_used b = {..<bm_nbits b} \<Longrightarrow> bitmap_alloc b = Some (b, Inl ENOSPC)"
  unfolding bitmap_alloc_def by (rule bitmap_alloc_loop_full) (auto simp: bm_used_def)

lemma bitmap_alloc_least:
  assumes "bm_wf b" and "k < bm_nbits b" and "k \<notin> bm_used b" and "{..<k} \<subseteq> bm_used b"
  shows "\<exists>b'. bitmap_alloc b = Some (b', Inr k) \<and> bm_wf b' \<and> bm_nbits b' = bm_nbits b \<and>
    bm_used b' = insert k (bm_used b)"
proof -
  have "\<not> bm_bit b k" "\<forall>i < k. bm_bit b i" using assms by (auto simp: bm_used_def)
  from bitmap_alloc_loop_least [OF assms(1,2) this, of 0] show ?thesis
    using bm_set_index [OF assms(1,2)] by (simp add: bitmap_alloc_def)
qed

lemma bitmap_mark_free:
  assumes "bm_wf b" and "k < bm_nbits b" and "k \<notin> bm_used b"
  shows "\<exists>b'. bitmap_mark b k = Some b' \<and> bm_wf b' \<and> bm_nbits b' = bm_nbits b \<and>
    bm_used b' = insert k (bm_used b)"
  using bm_set_index [OF assms(1,2)] assms index_in_bytes [OF assms(1,2)]
  by (simp add: bitmap_mark_def bitmap_translate_def bm_used_def bm_bit_def)

lemma bitmap_unmark_used:
  assumes "bm_wf b" and "k \<in> bm_used b"
  shows "\<exists>b'. bitmap_unmark b k = Some b' \<and> bm_wf b' \<and> bm_nbits b' = bm_nbits b \<and>
    bm_used b' = bm_used b - {k}"
proof -
  have k: "k < bm_nbits b" using assms(2) by (simp add: bm_used_def)
  show ?thesis
    using bm_clear_index [OF assms(1) k] assms k index_in_bytes [OF assms(1) k]
    by (simp add: bitmap_unmark_def bitmap_translate_def bm_used_def bm_bit_def)
qed

interpretation bm: index_allocator bm_wf bm_nbits bm_used bitmap_alloc bitmap_mark bitmap_unmark
proof unfold_locales
  show "bm_used b \<subseteq> {..<bm_nbits b}" for b by (auto simp: bm_used_def)
qed (fact bitmap_alloc_full bitmap_alloc_least bitmap_mark_free bitmap_unmark_used)+

lemma bitmap_create_success:
  assumes "nbits + 8 \<le> 2 ^ 32" and "kmalloc 8 h = Some (bp, h1)" and "bp \<noteq> 0"
    and "kmalloc (bitmap_words nbits) h1 = Some (vp, h2)" and "vp \<noteq> 0"
  obtains b where "bitmap_create kmalloc kfree nbits h = Some (Some b, h2)" and "bm_wf b"
    and "bm_nbits b = nbits" and "bm_used b = {}" and "bm_self b = bp" and "bm_vp b = vp"
proof -
  obtain v where v: "bitmap_fresh nbits = Some v"
      "bm_wf \<lparr>bm_self = bp, bm_vp = vp, bm_nbits = nbits, bm_v = v\<rparr>"
      "bm_used \<lparr>bm_self = bp, bm_vp = vp, bm_nbits = nbits, bm_v = v\<rparr> = {}"
    by (rule bitmap_fresh_wf [OF assms(1)])
  show thesis
    by (rule that [OF _ v(2) _ v(3)]) (use v(1) assms(2-) in \<open>simp_all add: bitmap_create_def\<close>)
qed

lemma bitmap_words_small: "nbits + 8 \<le> 2 ^ 32 \<Longrightarrow> bitmap_words nbits < 2 ^ 31"
  using bitmap_words_bounds(2) [of nbits] by simp

subsection \<open>Bitmaps on a kernel heap\<close>

context kernel_heap
begin

lemma bitmap_create_cases:
  assumes rel: "hrel h L" and n: "nbits + 8 \<le> 2 ^ 32"
  obtains h' where "bitmap_create kmalloc kfree nbits h = Some (None, h')" and "hrel h' L"
  | b h' where "bitmap_create kmalloc kfree nbits h = Some (Some b, h')" and "bm_wf b" and "bm_nbits b = nbits"
      and "bm_used b = {}" and "L (bm_self b) = None" and "L (bm_vp b) = None" and "bm_self b \<noteq> bm_vp b"
      and "hrel h' (L(bm_self b \<mapsto> 8, bm_vp b \<mapsto> bitmap_words nbits))"
proof -
  have "(8 :: nat) < 2 ^ 31" by simp
  with rel show thesis
  proof (cases rule: kmalloc_cases)
    case (1 h')
    then show thesis using that(1) [of h'] by (simp add: bitmap_create_def)
  next
    case (2 bp h1)
    show thesis
      using 2(4) bitmap_words_small [OF n]
    proof (cases rule: kmalloc_cases)
      case v: (1 h2)
      obtain h3 where "kfree bp h2 = Some h3" "hrel h3 L"
        using kfree_live [OF v(2), of bp 8] 2(3) by (auto simp: fun_upd_idem)
      then show thesis using that(1) [of h3] 2(1,2) v by (simp add: bitmap_create_def)
    next
      case v: (2 vp h2)
      show thesis
        by (rule bitmap_create_success [OF n 2(1,2) v(1,2), of kfree])
          (use that(2) v 2 in \<open>auto split: if_splits\<close>)
    qed
  qed
qed

lemma bitmap_destroy_ok:
  assumes "hrel h L" and "L (bm_self b) = Some 8" and "L (bm_vp b) = Some n" and "bm_self b \<noteq> bm_vp b"
  shows "\<exists>h'. bitmap_destroy kfree b h = Some h' \<and> hrel h' (L(bm_vp b := None, bm_self b := None))"
proof -
  obtain h1 where h1: "kfree (bm_vp b) h = Some h1" "hrel h1 (L(bm_vp b := None))"
    using kfree_live [OF assms(1,3)] by blast
  then show ?thesis using kfree_live [OF h1(2), of "bm_self b" 8] assms(2,4) by (auto simp: bitmap_destroy_def)
qed

end

subsection \<open>Properties\<close>

text \<open>
  C5.  Allocation from a bitmap.  From a well-formed map \<open>bitmap_alloc\<close> never fails an
  assertion; it returns ENOSPC, changing nothing, exactly when every index is in use, and
  otherwise takes the least free index, after which unmarking it gives back the same set.
\<close>

theorem bitmap_alloc_refines:
  assumes "bm_wf b"
  shows "(bm_used b = {..<bm_nbits b} \<and> bitmap_alloc b = Some (b, Inl ENOSPC)) \<or>
    (\<exists>b' b'' k. bitmap_alloc b = Some (b', Inr k) \<and> bm_wf b' \<and> k < bm_nbits b \<and> k \<notin> bm_used b \<and>
       {..<k} \<subseteq> bm_used b \<and> bm_used b' = insert k (bm_used b) \<and>
       bitmap_unmark b' k = Some b'' \<and> bm_wf b'' \<and> bm_used b'' = bm_used b)"
  using assms
proof (cases rule: bm.alloc_cases)
  case (2 b' k)
  with bm.alloc_then_unmark [OF assms 2(1)] show ?thesis by blast
qed blast

theorem bitmap_alloc_refines_witness:
  "bm_wf \<lparr>bm_self = 0x80001000, bm_vp = 0x80001008, bm_nbits = 10, bm_v = [0x0f, 0xfc]\<rparr> \<and>
   (\<exists>b' k. bitmap_alloc \<lparr>bm_self = 0x80001000, bm_vp = 0x80001008, bm_nbits = 10, bm_v = [0x0f, 0xfc]\<rparr>
      = Some (b', Inr k) \<and> bm_wf b')"
proof -
  let ?b = "\<lparr>bm_self = 0x80001000, bm_vp = 0x80001008, bm_nbits = 10, bm_v = [0x0f, 0xfc]\<rparr>"
  have "bitmap_words 10 = 2" by (simp add: bitmap_words_def DIVROUNDUP32_def)
  moreover have "\<forall>i < 16. 10 \<le> i \<longrightarrow> bm_bit ?b i" by code_simp
  ultimately have "bm_wf ?b" by (simp add: bm_wf_def)
  have "\<not> bm_bit ?b 4" by code_simp
  then have "4 \<notin> bm_used ?b" by (simp only: bm_used_def mem_Collect_eq simp_thms)
  moreover have "4 \<in> {..<bm_nbits ?b}" by simp
  ultimately have "bm_used ?b \<noteq> {..<bm_nbits ?b}" by blast
  with \<open>bm_wf ?b\<close> show ?thesis using bitmap_alloc_refines [of ?b] by blast
qed

end
