(* ===== verification/Coremap.thy ===== *)
theory Coremap
  imports Memory_Interface
begin

text \<open>
  Physical memory: the boot-time allocator of src/kern/arch/mips/vm/ram.c and the coremap of
  src/kern/arch/mips/vm/dumbvm.c with the page-level entry points \<open>getppages\<close>,
  \<open>alloc_kpages\<close> and \<open>free_kpages\<close>.  Each function holds \<open>coremap_lock\<close> (or
  \<open>stealmem_lock\<close>) over its whole body and is modelled as one step on the record of the
  file-level variables of the two source files.
\<close>

subsection \<open>Model\<close>

record coremap_entry =
  ce_used :: int
  ce_count :: nat

record vm_state =
  firstpaddr :: paddr
  lastpaddr :: paddr
  vm_bootstrap_flag :: bool
  num_of_coremap_pages :: nat
  num_of_pages :: nat
  firstaddr :: paddr
  lastaddr :: paddr
  coremap :: "coremap_entry list"

definition MIPS_KSEG0 :: u32 where
  "MIPS_KSEG0 = 0x80000000"

definition PADDR_TO_KVADDR :: "paddr \<Rightarrow> vaddr" where
  "PADDR_TO_KVADDR pa = pa + MIPS_KSEG0"

definition KVADDR_TO_PADDR :: "vaddr \<Rightarrow> paddr" where
  "KVADDR_TO_PADDR va = va - MIPS_KSEG0"

text \<open>
  \<open>ram_bootstrap\<close> reads the size of RAM from the mainbus and the first free address from
  \<open>start.S\<close>; both are arguments.
\<close>

definition ram_bootstrap :: "u32 \<Rightarrow> vaddr \<Rightarrow> vm_state \<Rightarrow> vm_state" where
  "ram_bootstrap mainbus_ramsize firstfree v =
     (let ramsize = (if mainbus_ramsize > 508 * 1024 * 1024 then 508 * 1024 * 1024 else mainbus_ramsize)
      in v\<lparr>lastpaddr := ramsize, firstpaddr := firstfree - MIPS_KSEG0\<rparr>)"

definition ram_stealmem :: "nat \<Rightarrow> vm_state \<Rightarrow> paddr \<times> vm_state" where
  "ram_stealmem npages v =
     (let size = of_nat npages * 4096 in
      if firstpaddr v + size > lastpaddr v then (0, v)
      else (firstpaddr v, v\<lparr>firstpaddr := firstpaddr v + size\<rparr>))"

definition ram_getsize :: "vm_state \<Rightarrow> paddr \<times> paddr \<times> vm_state" where
  "ram_getsize v = (firstpaddr v, lastpaddr v, v\<lparr>firstpaddr := 0, lastpaddr := 0\<rparr>)"

definition vm_bootstrap :: "vm_state \<Rightarrow> vm_state" where
  "vm_bootstrap v0 =
     (let (lo, hi, v) = ram_getsize v0;
          npages = unat (hi - lo) div 4096;
          coremap_size = npages * 8;
          ncore = ROUNDUP coremap_size 4096 div 4096
      in v\<lparr>firstaddr := lo, lastaddr := hi, num_of_pages := npages, num_of_coremap_pages := ncore,
           coremap := map (\<lambda>i. if i < ncore then \<lparr>ce_used = 1, ce_count = 1\<rparr>
                               else \<lparr>ce_used = 0, ce_count = 0\<rparr>) [0..<npages],
           vm_bootstrap_flag := True\<rparr>)"

function coremap_clear :: "coremap_entry list \<Rightarrow> nat \<Rightarrow> nat \<Rightarrow> coremap_entry list kres" where
  "coremap_clear cm i end =
     (if i < end then do {
        cm' \<leftarrow> aput cm i \<lparr>ce_used = 0, ce_count = 0\<rparr>;
        coremap_clear cm' (Suc i) end
      } else Some cm)"
  by auto
termination
  by (relation "measure (\<lambda>(cm, i, end). end - i)") auto

definition coremap_dealloc :: "paddr \<Rightarrow> vm_state \<Rightarrow> vm_state kres" where
  "coremap_dealloc pa v =
     (let start = unat (pa - firstaddr v) div 4096 in do {
        e \<leftarrow> aget (coremap v) start;
        cm \<leftarrow> coremap_clear (coremap v) start ((start + ce_count e) mod 2 ^ 32);
        Some (v\<lparr>coremap := cm\<rparr>)
      })"

function coremap_fill :: "coremap_entry list \<Rightarrow> nat \<Rightarrow> nat \<Rightarrow> coremap_entry list kres" where
  "coremap_fill cm j i =
     (if j \<le> i then do {
        cm' \<leftarrow> aput cm j \<lparr>ce_used = 1, ce_count = 1\<rparr>;
        coremap_fill cm' (Suc j) i
      } else Some cm)"
  by auto
termination
  by (relation "measure (\<lambda>(cm, j, i). Suc i - j)") auto

text \<open>
  The search loop of \<open>coremap_alloc\<close>: \<open>i\<close> is the index, \<open>length\<close> the number of free frames
  seen immediately before it.
\<close>

function coremap_alloc_loop ::
  "vm_state \<Rightarrow> nat \<Rightarrow> nat \<Rightarrow> nat \<Rightarrow> (paddr \<times> vm_state) kres" where
  "coremap_alloc_loop v npages i len =
     (if i < num_of_pages v then do {
        e \<leftarrow> aget (coremap v) i;
        if ce_used e = 0 then
          if Suc len = npages then do {
            let start = i + 1 - Suc len;
            cm \<leftarrow> aput (coremap v) start \<lparr>ce_used = 1, ce_count = npages\<rparr>;
            cm' \<leftarrow> coremap_fill cm (start + 1) i;
            Some (firstaddr v + of_nat start * 4096, v\<lparr>coremap := cm'\<rparr>)
          } else coremap_alloc_loop v npages (Suc i) (Suc len)
        else coremap_alloc_loop v npages (Suc i) 0
      } else Some (0, v))"
  by auto
termination
  by (relation "measure (\<lambda>(v, npages, i, len). num_of_pages v - i)") auto

definition coremap_alloc :: "nat \<Rightarrow> vm_state \<Rightarrow> (paddr \<times> vm_state) kres" where
  "coremap_alloc npages v = coremap_alloc_loop v npages (num_of_coremap_pages v) 0"

definition getppages :: "nat \<Rightarrow> vm_state \<Rightarrow> (paddr \<times> vm_state) kres" where
  "getppages npages v =
     (if vm_bootstrap_flag v then coremap_alloc npages v else Some (ram_stealmem npages v))"

definition alloc_kpages :: "nat \<Rightarrow> vm_state \<Rightarrow> (vaddr \<times> vm_state) kres" where
  "alloc_kpages npages v = do {
     (pa, v') \<leftarrow> getppages npages v;
     Some (if pa = 0 then 0 else PADDR_TO_KVADDR pa, v')
   }"

definition free_kpages :: "vaddr \<Rightarrow> vm_state \<Rightarrow> vm_state kres" where
  "free_kpages addr v = coremap_dealloc (KVADDR_TO_PADDR addr) v"

declare coremap_clear.simps [simp del] coremap_fill.simps [simp del]
  coremap_alloc_loop.simps [simp del]

subsection \<open>The coremap as a set of disjoint runs\<close>

text \<open>
  The entries inside a run look like runs of their own (\<open>count\<close> is 1), so the runs cannot be
  read off the entries: the invariant relates the entries to the map \<open>R\<close> from the first
  frame of each allocated run to its length.
\<close>

definition cm_inv :: "nat \<Rightarrow> coremap_entry list \<Rightarrow> (nat \<rightharpoonup> nat) \<Rightarrow> bool" where
  "cm_inv ncp cm R \<longleftrightarrow>
     (\<forall>s n. R s = Some n \<longrightarrow> ncp \<le> s \<and> 0 < n \<and> s + n \<le> length cm \<and> ce_count (cm ! s) = n \<and>
        (\<forall>j. s \<le> j \<and> j < s + n \<longrightarrow> ce_used (cm ! j) \<noteq> 0)) \<and>
     (\<forall>s n t m. R s = Some n \<longrightarrow> R t = Some m \<longrightarrow> s < t \<longrightarrow> s + n \<le> t) \<and>
     (\<forall>j < length cm. ncp \<le> j \<longrightarrow> ce_used (cm ! j) \<noteq> 0 \<longrightarrow>
        (\<exists>s n. R s = Some n \<and> s \<le> j \<and> j < s + n))"

definition free_run :: "coremap_entry list \<Rightarrow> nat \<Rightarrow> nat \<Rightarrow> bool" where
  "free_run cm s n \<longleftrightarrow> s + n \<le> length cm \<and> (\<forall>j. s \<le> j \<and> j < s + n \<longrightarrow> ce_used (cm ! j) = 0)"

definition cm_take :: "coremap_entry list \<Rightarrow> nat \<Rightarrow> nat \<Rightarrow> coremap_entry list" where
  "cm_take cm s n = map (\<lambda>k. if k = s then \<lparr>ce_used = 1, ce_count = n\<rparr>
     else if s < k \<and> k < s + n then \<lparr>ce_used = 1, ce_count = 1\<rparr> else cm ! k) [0..<length cm]"

definition cm_drop :: "coremap_entry list \<Rightarrow> nat \<Rightarrow> nat \<Rightarrow> coremap_entry list" where
  "cm_drop cm s n = map (\<lambda>k. if s \<le> k \<and> k < s + n then \<lparr>ce_used = 0, ce_count = 0\<rparr> else cm ! k)
     [0..<length cm]"

lemma length_cm_take [simp]: "length (cm_take cm s n) = length cm"
  and length_cm_drop [simp]: "length (cm_drop cm s n) = length cm"
  by (simp_all add: cm_take_def cm_drop_def)

lemma coremap_fill_eq:
  "i < length cm \<Longrightarrow> coremap_fill cm j i =
     Some (map (\<lambda>k. if j \<le> k \<and> k \<le> i then \<lparr>ce_used = 1, ce_count = 1\<rparr> else cm ! k) [0..<length cm])"
proof (induction cm j i rule: coremap_fill.induct)
  case (1 cm j i)
  show ?case
  proof (cases "j \<le> i")
    case True
    then show ?thesis
      using 1 by (subst coremap_fill.simps) (auto simp: nth_list_update intro: nth_equalityI)
  next
    case False
    then show ?thesis
      by (subst coremap_fill.simps) (auto intro: nth_equalityI)
  qed
qed

lemma coremap_clear_eq:
  "e \<le> length cm \<Longrightarrow> coremap_clear cm i e =
     Some (map (\<lambda>k. if i \<le> k \<and> k < e then \<lparr>ce_used = 0, ce_count = 0\<rparr> else cm ! k) [0..<length cm])"
proof (induction cm i e rule: coremap_clear.induct)
  case (1 cm i e)
  show ?case
  proof (cases "i < e")
    case True
    then show ?thesis
      using 1 by (subst coremap_clear.simps) (auto simp: nth_list_update intro: nth_equalityI)
  next
    case False
    then show ?thesis
      by (subst coremap_clear.simps) (auto intro: nth_equalityI)
  qed
qed

lemma coremap_take_run:
  assumes "s + n \<le> length cm" and "0 < n"
  shows "coremap_fill (cm[s := \<lparr>ce_used = 1, ce_count = n\<rparr>]) (s + 1) (s + n - 1) = Some (cm_take cm s n)"
  using assms by (subst coremap_fill_eq) (auto simp: cm_take_def intro!: nth_equalityI)

lemma cm_invD:
  assumes "cm_inv ncp cm R" and "R s = Some n"
  shows "ncp \<le> s" and "0 < n" and "s + n \<le> length cm" and "ce_count (cm ! s) = n"
    and "s \<le> j \<Longrightarrow> j < s + n \<Longrightarrow> ce_used (cm ! j) \<noteq> 0"
  using assms by (simp_all add: cm_inv_def)

lemma cm_inv_apart:
  assumes "cm_inv ncp cm R" and "R s = Some n" and "R t = Some m" and "s \<noteq> t"
  shows "s + n \<le> t \<or> t + m \<le> s"
  using assms unfolding cm_inv_def by (meson linorder_neqE_nat)

lemma cm_inv_covered:
  assumes "cm_inv ncp cm R" and "j < length cm" and "ncp \<le> j" and "ce_used (cm ! j) \<noteq> 0"
  obtains s n where "R s = Some n" and "s \<le> j" and "j < s + n"
  using assms unfolding cm_inv_def by blast

lemma cm_invI:
  assumes "\<And>s n. R s = Some n \<Longrightarrow> ncp \<le> s \<and> 0 < n \<and> s + n \<le> length cm \<and> ce_count (cm ! s) = n"
    and "\<And>s n j. R s = Some n \<Longrightarrow> s \<le> j \<Longrightarrow> j < s + n \<Longrightarrow> ce_used (cm ! j) \<noteq> 0"
    and "\<And>s n t m. R s = Some n \<Longrightarrow> R t = Some m \<Longrightarrow> s < t \<Longrightarrow> s + n \<le> t"
    and "\<And>j. j < length cm \<Longrightarrow> ncp \<le> j \<Longrightarrow> ce_used (cm ! j) \<noteq> 0 \<Longrightarrow>
           \<exists>s n. R s = Some n \<and> s \<le> j \<and> j < s + n"
  shows "cm_inv ncp cm R"
  using assms unfolding cm_inv_def by blast

lemma free_run_apart:
  assumes inv: "cm_inv ncp cm R" and "free_run cm s n" and "0 < n" and R: "R t = Some m"
  shows "t + m \<le> s \<or> s + n \<le> t"
proof (rule ccontr)
  assume "\<not> ?thesis"
  then have "t \<le> max s t" "max s t < t + m" "s \<le> max s t" "max s t < s + n"
    using cm_invD(2) [OF inv R] \<open>0 < n\<close> by auto
  then show False
    using cm_invD(5) [OF inv R, of "max s t"] \<open>free_run cm s n\<close> unfolding free_run_def by blast
qed

lemma cm_take_nth:
  "k < length cm \<Longrightarrow> cm_take cm s n ! k = (if k = s then \<lparr>ce_used = 1, ce_count = n\<rparr>
     else if s < k \<and> k < s + n then \<lparr>ce_used = 1, ce_count = 1\<rparr> else cm ! k)"
  by (simp add: cm_take_def)

lemma cm_drop_nth:
  "k < length cm \<Longrightarrow> cm_drop cm s n ! k =
     (if s \<le> k \<and> k < s + n then \<lparr>ce_used = 0, ce_count = 0\<rparr> else cm ! k)"
  by (simp add: cm_drop_def)

lemma cm_inv_take:
  assumes inv: "cm_inv ncp cm R" and free: "free_run cm s n" and "ncp \<le> s" and "0 < n"
  shows "R s = None" and "cm_inv ncp (cm_take cm s n) (R(s \<mapsto> n))"
proof -
  note apart = free_run_apart [OF inv free \<open>0 < n\<close>]
  have len: "s + n \<le> length cm" using free by (simp add: free_run_def)
  show R: "R s = None"
    using apart [of s] cm_invD(2) [OF inv, of s] \<open>0 < n\<close> by (cases "R s") force+
  have out: "cm_take cm s n ! k = cm ! k" if "R t = Some m" "t \<le> k" "k < t + m" for t m k
    using cm_take_nth [of k cm s n] apart [OF that(1)] cm_invD(3) [OF inv that(1)] that
      \<open>0 < n\<close> by auto
  show "cm_inv ncp (cm_take cm s n) (R(s \<mapsto> n))"
  proof (rule cm_invI, goal_cases)
    case (1 t m)
    then show ?case
      using cm_invD [OF inv, of t m] out [of t m t] len assms(3,4) cm_take_nth [of s cm s n]
      by (cases "t = s") auto
  next
    case (2 t m j)
    then show ?case
      using cm_invD(5) [OF inv, of t m j] out [of t m j] len cm_take_nth [of j cm s n]
      by (cases "t = s") auto
  next
    case (3 t m t' m')
    then show ?case
      using cm_inv_apart [OF inv, of t m t' m'] apart [of t m] apart [of t' m'] assms(4)
        cm_invD(2) [OF inv]
      by (auto split: if_splits)
  next
    case (4 j)
    show ?case
    proof (cases "s \<le> j \<and> j < s + n")
      case True
      then show ?thesis by (intro exI [of _ s] exI [of _ n]) simp
    next
      case False
      then have "cm_take cm s n ! j = cm ! j"
        using 4 cm_take_nth [of j cm s n] assms(4) by auto
      then obtain t m where "R t = Some m" "t \<le> j" "j < t + m"
        using 4 by (auto intro: cm_inv_covered [OF inv, of j])
      with R show ?thesis by (intro exI [of _ t] exI [of _ m]) auto
    qed
  qed
qed

lemma cm_inv_drop:
  assumes inv: "cm_inv ncp cm R" and R: "R s = Some n"
  shows "cm_inv ncp (cm_drop cm s n) (R(s := None))"
proof -
  have out: "cm_drop cm s n ! k = cm ! k" if "R t = Some m" "t \<noteq> s" "t \<le> k" "k < t + m" for t m k
    using cm_drop_nth [of k cm s n] cm_inv_apart [OF inv that(1) R that(2)]
      cm_invD(3) [OF inv that(1)] that by auto
  show ?thesis
  proof (rule cm_invI, goal_cases)
    case (1 t m)
    then show ?case using cm_invD [OF inv, of t m] out [of t m t] by (auto split: if_splits)
  next
    case (2 t m j)
    then show ?case using cm_invD(5) [OF inv, of t m j] out [of t m j] by (auto split: if_splits)
  next
    case (3 t m t' m')
    then show ?case
      using cm_inv_apart [OF inv, of t m t' m'] cm_invD(2) [OF inv] by (fastforce split: if_splits)
  next
    case (4 j)
    then have j: "\<not> (s \<le> j \<and> j < s + n)" using cm_drop_nth [of j cm s n] by auto
    then obtain t m where "R t = Some m" "t \<le> j" "j < t + m"
      using 4 cm_drop_nth [of j cm s n] by (auto intro: cm_inv_covered [OF inv, of j])
    with R j show ?case by (intro exI [of _ t] exI [of _ m]) auto
  qed
qed

subsection \<open>First fit\<close>

lemma coremap_alloc_loop_found:
  assumes "length (coremap v) = num_of_pages v" and "len \<le> i" and "len < n"
    and "\<forall>j. i - len \<le> j \<and> j < i \<longrightarrow> ce_used (coremap v ! j) = 0"
    and "i - len \<le> s" and "free_run (coremap v) s n"
    and "\<forall>t. i - len \<le> t \<and> t < s \<longrightarrow> \<not> free_run (coremap v) t n"
  shows "coremap_alloc_loop v n i len =
    Some (firstaddr v + of_nat s * 4096, v\<lparr>coremap := cm_take (coremap v) s n\<rparr>)"
  using assms
proof (induction v n i len rule: coremap_alloc_loop.induct)
  case (1 v n i len)
  have i: "i < num_of_pages v"
    using 1(3-5,7,8) by (auto simp: free_run_def)
  show ?case
  proof (cases "ce_used (coremap v ! i) = 0")
    case True
    show ?thesis
    proof (cases "Suc len = n")
      case n: True
      have "free_run (coremap v) (i - len) n"
        unfolding free_run_def
      proof (intro conjI allI impI)
        show "i - len + n \<le> length (coremap v)" using i 1(3,4) n by simp
        show "ce_used (coremap v ! j) = 0" if "i - len \<le> j \<and> j < i - len + n" for j
          using 1(4,6) n True that by (cases "j = i") auto
      qed
      then have "\<not> i - len < s" using 1(9) by blast
      then have s: "s = i - len" using 1(7) by simp
      then have "s + n \<le> length (coremap v)" "0 < n" "i = s + n - 1" "i + 1 - n = s" "s < num_of_pages v"
        using i 1(3,4) n by auto
      then show ?thesis
        using coremap_take_run [of s n "coremap v"] 1(3) i True n
        by (subst coremap_alloc_loop.simps) simp
    next
      case False
      have "coremap_alloc_loop v n (Suc i) (Suc len) =
          Some (firstaddr v + of_nat s * 4096, v\<lparr>coremap := cm_take (coremap v) s n\<rparr>)"
      proof (rule 1(1) [OF i _ True False])
        show "\<forall>j. Suc i - Suc len \<le> j \<and> j < Suc i \<longrightarrow> ce_used (coremap v ! j) = 0"
          using 1(6) True by (auto simp: less_Suc_eq)
      qed (use 1(3-9) i False in auto)
      then show ?thesis using i True False 1(3) by (subst coremap_alloc_loop.simps) simp
    qed
  next
    case False
    have "i < s"
      using False 1(4,5,7,8) unfolding free_run_def by (metis add_le_imp_le_diff le_diff_conv
          le_less_trans less_le_trans nat_add_left_cancel_less not_less)
    then have "coremap_alloc_loop v n (Suc i) 0 =
        Some (firstaddr v + of_nat s * 4096, v\<lparr>coremap := cm_take (coremap v) s n\<rparr>)"
      by (intro 1(2) [OF i _ False]) (use 1(3-9) i in auto)
    then show ?thesis using i False 1(3) by (subst coremap_alloc_loop.simps) simp
  qed
qed

lemma coremap_alloc_loop_none:
  assumes "length (coremap v) = num_of_pages v" and "len \<le> i"
    and "\<forall>j. i - len \<le> j \<and> j < i \<longrightarrow> ce_used (coremap v ! j) = 0"
    and "n = 0 \<or> len < n \<and> (\<forall>t. i - len \<le> t \<longrightarrow> \<not> free_run (coremap v) t n)"
  shows "coremap_alloc_loop v n i len = Some (0, v)"
  using assms
proof (induction v n i len rule: coremap_alloc_loop.induct)
  case (1 v n i len)
  show ?case
  proof (cases "i < num_of_pages v")
    case i: True
    show ?thesis
    proof (cases "ce_used (coremap v ! i) = 0")
      case True
      have free: "\<forall>j. Suc i - Suc len \<le> j \<and> j < Suc i \<longrightarrow> ce_used (coremap v ! j) = 0"
        using 1(5) True by (auto simp: less_Suc_eq)
      have "Suc len \<noteq> n"
      proof
        assume "Suc len = n"
        then have "free_run (coremap v) (i - len) n"
          using free i 1(3,4) by (auto simp: free_run_def)
        then show False using 1(6) \<open>Suc len = n\<close> by auto
      qed
      moreover from this have "coremap_alloc_loop v n (Suc i) (Suc len) = Some (0, v)"
        using i True free 1(3-6) by (intro 1(1)) auto
      ultimately show ?thesis using i True 1(3) by (subst coremap_alloc_loop.simps) simp
    next
      case False
      then have "coremap_alloc_loop v n (Suc i) 0 = Some (0, v)"
        using i 1(3-6) by (intro 1(2)) auto
      then show ?thesis using i False 1(3) by (subst coremap_alloc_loop.simps) simp
    qed
  qed (subst coremap_alloc_loop.simps, simp)
qed

subsection \<open>Runs of physical addresses\<close>

text \<open>
  \<open>cm_rel v A\<close>: after \<open>vm_bootstrap\<close>, the coremap records exactly the runs of frames of the map
  \<open>A\<close> from physical addresses to lengths.
\<close>

definition vm_wf :: "vm_state \<Rightarrow> bool" where
  "vm_wf v \<longleftrightarrow> vm_bootstrap_flag v \<and> length (coremap v) = num_of_pages v \<and> 0 < num_of_coremap_pages v \<and>
     4096 dvd unat (firstaddr v) \<and> unat (firstaddr v) + 4096 * num_of_pages v \<le> 2 ^ 29"

definition frame_addr :: "vm_state \<Rightarrow> nat \<Rightarrow> paddr" where
  "frame_addr v s = firstaddr v + of_nat s * 4096"

definition frame_runs :: "vm_state \<Rightarrow> (paddr \<rightharpoonup> nat) \<Rightarrow> nat \<rightharpoonup> nat" where
  "frame_runs v A = (\<lambda>s. if s < num_of_pages v then A (frame_addr v s) else None)"

definition cm_rel :: "vm_state \<Rightarrow> (paddr \<rightharpoonup> nat) \<Rightarrow> bool" where
  "cm_rel v A \<longleftrightarrow> vm_wf v \<and> dom A \<subseteq> frame_addr v ` {..<num_of_pages v} \<and>
     cm_inv (num_of_coremap_pages v) (coremap v) (frame_runs v A)"

lemma unat_frame_addr:
  assumes "vm_wf v" and "s \<le> num_of_pages v"
  shows "unat (frame_addr v s) = unat (firstaddr v) + 4096 * s"
proof -
  have "4096 * s \<le> 4096 * num_of_pages v" using assms(2) by simp
  then have lt: "unat (firstaddr v) + 4096 * s < 2 ^ 32" using assms(1) by (simp add: vm_wf_def)
  have "frame_addr v s = of_nat (unat (firstaddr v) + 4096 * s)"
    by (simp add: frame_addr_def mult.commute)
  then show ?thesis using unat_of_nat_u32 [OF lt] by (simp only:)
qed

lemma frame_addr_inj:
  assumes "vm_wf v" and "s < num_of_pages v" and "t < num_of_pages v" and "frame_addr v s = frame_addr v t"
  shows "s = t"
proof -
  have "unat (firstaddr v) + 4096 * s = unat (firstaddr v) + 4096 * t"
    using assms(2-4) unat_frame_addr [OF assms(1)] by (metis less_imp_le)
  then show ?thesis by simp
qed

lemma frame_index:
  assumes "vm_wf v" and "s < num_of_pages v"
  shows "unat (frame_addr v s - firstaddr v) div 4096 = s"
proof -
  have "4096 * s < 4096 * num_of_pages v" using assms(2) by simp
  then have "unat (of_nat (s * 4096) :: u32) = s * 4096"
    using assms(1) by (intro unat_of_nat_u32) (simp add: vm_wf_def)
  then show ?thesis by (simp add: frame_addr_def)
qed

lemma cm_rel_frame:
  assumes "cm_rel v A" and "A p = Some n"
  obtains s where "s < num_of_pages v" and "p = frame_addr v s"
  using assms unfolding cm_rel_def by blast

lemma cm_rel_run:
  assumes "cm_rel v A" and "A p = Some n" and "p = frame_addr v s" and "s < num_of_pages v"
  shows "num_of_coremap_pages v \<le> s" and "0 < n" and "s + n \<le> num_of_pages v"
    and "ce_count (coremap v ! s) = n"
  using cm_invD(1-4) [of "num_of_coremap_pages v" "coremap v" "frame_runs v A" s n] assms
  by (auto simp: cm_rel_def vm_wf_def frame_runs_def)

lemma frame_runs_upd:
  assumes "vm_wf v" and "s < num_of_pages v"
  shows "frame_runs v (A(frame_addr v s := x)) = (frame_runs v A)(s := x)"
  using assms frame_addr_inj [OF assms(1)] by (auto simp: fun_eq_iff frame_runs_def)

lemma frame_addr_coremap [simp]: "frame_addr (v\<lparr>coremap := cm\<rparr>) s = frame_addr v s"
  by (simp add: frame_addr_def)

lemma frame_runs_coremap [simp]: "frame_runs (v\<lparr>coremap := cm\<rparr>) A = frame_runs v A"
  by (simp add: frame_runs_def fun_eq_iff)

lemma vm_wf_coremap [simp]: "length cm = length (coremap v) \<Longrightarrow> vm_wf (v\<lparr>coremap := cm\<rparr>) = vm_wf v"
  by (simp add: vm_wf_def)

lemma cm_rel_disjoint:
  assumes rel: "cm_rel v A" and p: "A p = Some n" and q: "A q = Some m" and "p \<noteq> q"
  shows "page_run p n \<inter> page_run q m = {}"
proof -
  obtain s t where st: "s < num_of_pages v" "p = frame_addr v s" "t < num_of_pages v" "q = frame_addr v t"
    using cm_rel_frame [OF rel p] cm_rel_frame [OF rel q] by metis
  have wf: "vm_wf v" using rel by (simp add: cm_rel_def)
  have "s + n \<le> t \<or> t + m \<le> s"
    using rel p q st \<open>p \<noteq> q\<close>
    by (intro cm_inv_apart [of "num_of_coremap_pages v" "coremap v" "frame_runs v A"])
      (auto simp: cm_rel_def frame_runs_def)
  then show ?thesis
    using unat_frame_addr [OF wf, of s] unat_frame_addr [OF wf, of t] st by (auto simp: page_run_def)
qed

lemma cm_rel_shape:
  assumes rel: "cm_rel v A" and p: "A p = Some n"
  shows "0 < n \<and> p \<noteq> 0 \<and> 4096 dvd unat p \<and> unat p + 4096 * n \<le> 2 ^ 29"
proof -
  obtain s where s: "s < num_of_pages v" "p = frame_addr v s"
    by (rule cm_rel_frame [OF rel p])
  have wf: "vm_wf v" using rel by (simp add: cm_rel_def)
  note run = cm_rel_run [OF rel p s(2,1)]
  have eq: "unat p = unat (firstaddr v) + 4096 * s"
    using unat_frame_addr [OF wf, of s] s by simp
  moreover have "0 < s" using run(1) wf by (simp add: vm_wf_def)
  ultimately have "unat p \<noteq> 0" by simp
  moreover have "4096 * (s + n) \<le> 4096 * num_of_pages v" using run(3) by (intro mult_le_mono2)
  ultimately show ?thesis
    using eq wf run(2) unfolding vm_wf_def by (auto simp: dvd_add)
qed

lemma coremap_dealloc_run:
  assumes rel: "cm_rel v A" and p: "A p = Some n"
  obtains cm where "coremap_dealloc p v = Some (v\<lparr>coremap := cm\<rparr>)" and "length cm = length (coremap v)"
    and "cm_rel (v\<lparr>coremap := cm\<rparr>) (A(p := None))"
proof -
  obtain s where s: "s < num_of_pages v" "p = frame_addr v s"
    by (rule cm_rel_frame [OF rel p])
  have wf: "vm_wf v" using rel by (simp add: cm_rel_def)
  note run = cm_rel_run [OF rel p s(2,1)]
  have len: "length (coremap v) = num_of_pages v" using wf by (simp add: vm_wf_def)
  have lt: "s + n < 2 ^ 32" using run(3) wf by (simp add: vm_wf_def)
  show thesis
  proof (rule that [of "cm_drop (coremap v) s n"])
    show "coremap_dealloc p v = Some (v\<lparr>coremap := cm_drop (coremap v) s n\<rparr>)"
      using s len run lt frame_index [OF wf s(1)] coremap_clear_eq [of "s + n" "coremap v" s]
      by (simp add: coremap_dealloc_def Let_def cm_drop_def)
    show "cm_rel (v\<lparr>coremap := cm_drop (coremap v) s n\<rparr>) (A(p := None))"
      using rel s p len cm_inv_drop [of "num_of_coremap_pages v" "coremap v" "frame_runs v A" s n]
        frame_runs_upd [OF wf s(1), of A None]
      by (auto simp: cm_rel_def) (simp add: frame_runs_def)
  qed simp
qed

lemma coremap_alloc_run:
  assumes rel: "cm_rel v A"
  obtains "coremap_alloc n v = Some (0, v)"
      and "\<forall>s \<ge> num_of_coremap_pages v. 0 < n \<longrightarrow> \<not> free_run (coremap v) s n"
  | s cm where "coremap_alloc n v = Some (frame_addr v s, v\<lparr>coremap := cm\<rparr>)" and "frame_addr v s \<noteq> 0"
      and "length cm = length (coremap v)" and "A (frame_addr v s) = None" and "0 < n"
      and "free_run (coremap v) s n" and "num_of_coremap_pages v \<le> s"
      and "\<forall>t. num_of_coremap_pages v \<le> t \<and> t < s \<longrightarrow> \<not> free_run (coremap v) t n"
      and "cm_rel (v\<lparr>coremap := cm\<rparr>) (A(frame_addr v s \<mapsto> n))" and "cm = cm_take (coremap v) s n"
proof (cases "\<forall>s \<ge> num_of_coremap_pages v. 0 < n \<longrightarrow> \<not> free_run (coremap v) s n")
  case True
  have "coremap_alloc n v = Some (0, v)"
    unfolding coremap_alloc_def using rel True
    by (intro coremap_alloc_loop_none) (auto simp: cm_rel_def vm_wf_def)
  then show thesis using that(1) True by blast
next
  case False
  then have n: "0 < n" by blast
  define s where "s = (LEAST s. num_of_coremap_pages v \<le> s \<and> free_run (coremap v) s n)"
  have s: "num_of_coremap_pages v \<le> s" "free_run (coremap v) s n"
    using LeastI_ex [of "\<lambda>s. num_of_coremap_pages v \<le> s \<and> free_run (coremap v) s n"] False
    unfolding s_def by auto
  have least: "\<not> free_run (coremap v) t n" if "num_of_coremap_pages v \<le> t \<and> t < s" for t
    using not_less_Least [of t] that unfolding s_def by blast
  have wf: "vm_wf v" and len: "length (coremap v) = num_of_pages v"
    using rel by (auto simp: cm_rel_def vm_wf_def)
  then have sn: "s < num_of_pages v" using s(2) n by (simp add: free_run_def)
  have "coremap_alloc n v = Some (frame_addr v s, v\<lparr>coremap := cm_take (coremap v) s n\<rparr>)"
    unfolding coremap_alloc_def frame_addr_def using s least n len
    by (intro coremap_alloc_loop_found) auto
  moreover have "A (frame_addr v s) = None"
      "cm_rel (v\<lparr>coremap := cm_take (coremap v) s n\<rparr>) (A(frame_addr v s \<mapsto> n))"
    using rel sn cm_inv_take [OF _ s(2,1) n, of "frame_runs v A"] frame_runs_upd [OF wf sn, of A "Some n"] wf len
    by (auto simp: cm_rel_def) (simp add: frame_runs_def)
  moreover from this(2) have "frame_addr v s \<noteq> 0"
    using cm_rel_shape [of _ "A(frame_addr v s \<mapsto> n)" "frame_addr v s" n] by simp
  ultimately show thesis using that(2) s least n by simp
qed

lemma cm_rel_flag: "cm_rel v A \<Longrightarrow> vm_bootstrap_flag v"
  by (simp add: cm_rel_def vm_wf_def)

interpretation cm: page_allocator getppages coremap_dealloc cm_rel
proof unfold_locales
  fix v A n p v' q m
  assume rel: "cm_rel v A"
  have eq: "getppages n v = coremap_alloc n v"
    using cm_rel_flag [OF rel] by (simp add: getppages_def)
  show "\<exists>p v'. getppages n v = Some (p, v')"
    unfolding eq by (rule coremap_alloc_run [OF rel, of n]) blast+
  show "getppages n v = Some (0, v') \<Longrightarrow> v' = v"
    unfolding eq by (rule coremap_alloc_run [OF rel, of n]) simp_all
  show "getppages n v = Some (p, v') \<Longrightarrow> p \<noteq> 0 \<Longrightarrow> A p = None \<and> cm_rel v' (A(p \<mapsto> n))"
    unfolding eq by (rule coremap_alloc_run [OF rel, of n]) auto
  show "A p = Some n \<Longrightarrow> \<exists>v'. coremap_dealloc p v = Some v' \<and> cm_rel v' (A(p := None))"
    by (metis coremap_dealloc_run [OF rel])
  show "A p = Some n \<Longrightarrow> 0 < n \<and> p \<noteq> 0 \<and> 4096 dvd unat p \<and> unat p + 4096 * n \<le> 2 ^ 32"
    using cm_rel_shape [OF rel, of p n] by auto
  show "A p = Some n \<Longrightarrow> A q = Some m \<Longrightarrow> p \<noteq> q \<Longrightarrow> page_run p n \<inter> page_run q m = {}"
    by (rule cm_rel_disjoint [OF rel])
qed

subsection \<open>Kernel virtual addresses\<close>

definition kp_rel :: "vm_state \<Rightarrow> (vaddr \<rightharpoonup> nat) \<Rightarrow> bool" where
  "kp_rel v K \<longleftrightarrow> cm_rel v (\<lambda>pa. K (PADDR_TO_KVADDR pa))"

lemma kvaddr_inverse [simp]:
  "KVADDR_TO_PADDR (PADDR_TO_KVADDR pa) = pa" "PADDR_TO_KVADDR (KVADDR_TO_PADDR va) = va"
  by (simp_all add: KVADDR_TO_PADDR_def PADDR_TO_KVADDR_def)

lemma PADDR_TO_KVADDR_eq [simp]: "PADDR_TO_KVADDR p = PADDR_TO_KVADDR q \<longleftrightarrow> p = q"
  by (simp add: PADDR_TO_KVADDR_def)

lemma unat_kvaddr:
  assumes "unat pa < 2 ^ 31"
  shows "unat (PADDR_TO_KVADDR pa) = unat pa + 2 ^ 31"
  using assms unat_add_lem [of pa "0x80000000"] by (simp add: PADDR_TO_KVADDR_def MIPS_KSEG0_def)

lemma kp_map_upd:
  "(\<lambda>pa. (K(va := x)) (PADDR_TO_KVADDR pa)) =
   (\<lambda>pa. K (PADDR_TO_KVADDR pa))(KVADDR_TO_PADDR va := x)"
  by (auto simp: fun_eq_iff)

lemma kp_rel_shape:
  assumes "kp_rel v K" and "K va = Some n"
  shows "0 < n \<and> va \<noteq> 0 \<and> 4096 dvd unat va \<and> 2 ^ 31 \<le> unat va \<and> unat va + 4096 * n \<le> 2 ^ 31 + 2 ^ 29"
proof -
  let ?pa = "KVADDR_TO_PADDR va"
  have pa: "0 < n \<and> ?pa \<noteq> 0 \<and> 4096 dvd unat ?pa \<and> unat ?pa + 4096 * n \<le> 2 ^ 29"
    by (rule cm_rel_shape [OF assms(1) [unfolded kp_rel_def]]) (simp add: assms(2))
  then have "unat va = unat ?pa + 2 ^ 31"
    using unat_kvaddr [of ?pa] by simp
  moreover have "4096 dvd (unat ?pa + 2 ^ 31)" using pa by (simp add: dvd_add)
  ultimately show ?thesis using pa by auto
qed

lemma alloc_kpages_fresh:
  assumes rel: "kp_rel v K" and alloc: "alloc_kpages n v = Some (va, v')" and "va \<noteq> 0"
  shows "K va = None \<and> kp_rel v' (K(va \<mapsto> n))"
proof -
  obtain pa where pa: "getppages n v = Some (pa, v')" "pa \<noteq> 0" "va = PADDR_TO_KVADDR pa"
    using alloc \<open>va \<noteq> 0\<close> by (auto simp: alloc_kpages_def bind_Some_iff split: if_splits)
  with cm.alloc_fresh [OF rel [unfolded kp_rel_def], of n pa v'] show ?thesis
    by (simp add: kp_rel_def kp_map_upd del: fun_upd_apply)
qed

lemma free_kpages_run:
  assumes rel: "kp_rel v K" and "K va = Some n"
  shows "\<exists>v'. free_kpages va v = Some v' \<and> kp_rel v' (K(va := None))"
  using cm.free_run [OF rel [unfolded kp_rel_def], of "KVADDR_TO_PADDR va" n] assms(2)
  by (simp add: free_kpages_def kp_rel_def kp_map_upd del: fun_upd_apply)

lemma getppages_kvaddr:
  assumes "cm_rel v A" and "getppages n v = Some (pa, v')" and "pa \<noteq> 0"
  shows "PADDR_TO_KVADDR pa \<noteq> 0"
proof -
  have "cm_rel v' (A(pa \<mapsto> n))" using cm.alloc_fresh [OF assms] by simp
  from cm_rel_shape [OF this, of pa n] have "unat pa < 2 ^ 31" by auto
  then show ?thesis using unat_kvaddr [of pa] by auto
qed

lemma alloc_kpages_fail:
  assumes rel: "kp_rel v K" and "alloc_kpages n v = Some (0, v')"
  shows "getppages n v = Some (0, v) \<and> v' = v"
proof -
  obtain pa where pa: "getppages n v = Some (pa, v')" "pa = 0 \<or> PADDR_TO_KVADDR pa = 0"
    using assms(2) by (auto simp: alloc_kpages_def bind_Some_iff split: if_splits)
  have "pa = 0" using pa getppages_kvaddr [OF rel [unfolded kp_rel_def]] by blast
  then show ?thesis using pa(1) cm.alloc_fail [OF rel [unfolded kp_rel_def], of n v'] by simp
qed

interpretation kp: page_allocator alloc_kpages free_kpages kp_rel
proof unfold_locales
  fix v K n p v' q m
  assume rel: "kp_rel v K"
  show "\<exists>p v'. alloc_kpages n v = Some (p, v')"
    using cm.alloc_total [OF rel [unfolded kp_rel_def], of n] by (auto simp: alloc_kpages_def)
  show "K p = Some n \<Longrightarrow> 0 < n \<and> p \<noteq> 0 \<and> 4096 dvd unat p \<and> unat p + 4096 * n \<le> 2 ^ 32"
    using kp_rel_shape [OF rel, of p n] by auto
  show "page_run p n \<inter> page_run q m = {}" if K: "K p = Some n" "K q = Some m" "p \<noteq> q"
  proof -
    have neq: "KVADDR_TO_PADDR p \<noteq> KVADDR_TO_PADDR q" using K(3) kvaddr_inverse(2) by metis
    have lt: "unat (KVADDR_TO_PADDR p) < 2 ^ 31" "unat (KVADDR_TO_PADDR q) < 2 ^ 31"
      using cm_rel_shape [OF rel [unfolded kp_rel_def], of "KVADDR_TO_PADDR p" n]
        cm_rel_shape [OF rel [unfolded kp_rel_def], of "KVADDR_TO_PADDR q" m] K by auto
    then show ?thesis
      using cm.run_disjoint [OF rel [unfolded kp_rel_def] _ _ neq, of n m] K
        unat_kvaddr [OF lt(1)] unat_kvaddr [OF lt(2)]
      by (auto simp: page_run_def disjoint_iff)
  qed
qed (use alloc_kpages_fail alloc_kpages_fresh free_kpages_run in \<open>simp_all del: fun_upd_apply\<close>)

text \<open>The number of free frames; a request for one frame is granted while there is any.\<close>

definition free_frame_set :: "vm_state \<Rightarrow> nat set" where
  "free_frame_set v = {j. num_of_coremap_pages v \<le> j \<and> j < num_of_pages v \<and> ce_used (coremap v ! j) = 0}"

definition avail :: "vm_state \<Rightarrow> nat" where
  "avail v = card (free_frame_set v)"

lemma getppages_avail:
  assumes rel: "cm_rel v A" and pos: "0 < avail v"
  obtains pa v' where "getppages 1 v = Some (pa, v')" and "pa \<noteq> 0" and "avail v' = avail v - 1"
  using rel
proof (cases rule: coremap_alloc_run [of v A 1])
  case 1
  obtain j where "j \<in> free_frame_set v" using pos by (metis avail_def card_gt_0_iff ex_in_conv)
  then have "num_of_coremap_pages v \<le> j" "free_run (coremap v) j 1"
    using rel by (auto simp: free_frame_set_def free_run_def cm_rel_def vm_wf_def le_less_Suc_eq)
  then show ?thesis using 1(2) by auto
next
  case (2 s cm)
  have len: "length (coremap v) = num_of_pages v" using rel by (simp add: cm_rel_def vm_wf_def)
  have s: "s \<in> free_frame_set v" using 2(6,7) len by (auto simp: free_frame_set_def free_run_def)
  have "free_frame_set (v\<lparr>coremap := cm\<rparr>) = free_frame_set v - {s}"
    unfolding 2(10) using len by (auto simp: free_frame_set_def cm_take_nth split: if_splits)
  then have "avail (v\<lparr>coremap := cm\<rparr>) = avail v - 1"
    unfolding avail_def using card_Diff_singleton [OF s] by simp
  then show ?thesis
    using that [of "frame_addr v s" "v\<lparr>coremap := cm\<rparr>"] 2(1,2) cm_rel_flag [OF rel] by (simp add: getppages_def)
qed

lemma alloc_kpages_avail:
  assumes rel: "kp_rel v K" and pos: "0 < avail v"
  obtains va v' where "alloc_kpages 1 v = Some (va, v')" and "va \<noteq> 0" and "avail v' = avail v - 1"
proof -
  obtain pa v' where pa: "getppages 1 v = Some (pa, v')" "pa \<noteq> 0" "avail v' = avail v - 1"
    by (rule getppages_avail [OF rel [unfolded kp_rel_def] pos])
  then show thesis using that getppages_kvaddr [OF rel [unfolded kp_rel_def] pa(1,2)] by (simp add: alloc_kpages_def)
qed

text \<open>A machine with 64 KiB of memory above the kernel image, used by the witnesses.\<close>

definition vm_sample :: vm_state where
  "vm_sample = vm_bootstrap \<lparr>firstpaddr = 0x30000, lastpaddr = 0x40000, vm_bootstrap_flag = False,
     num_of_coremap_pages = 0, num_of_pages = 0, firstaddr = 0, lastaddr = 0, coremap = []\<rparr>"

lemma vm_sample_eq:
  "firstaddr vm_sample = 0x30000" "num_of_pages vm_sample = 16" "num_of_coremap_pages vm_sample = 1"
  "vm_bootstrap_flag vm_sample" "length (coremap vm_sample) = 16"
  by (simp_all add: vm_sample_def vm_bootstrap_def ram_getsize_def ROUNDUP_def DIVROUNDUP_def)

lemma vm_sample_rel: "cm_rel vm_sample Map.empty" "kp_rel vm_sample Map.empty"
proof -
  have "vm_wf vm_sample" by (simp add: vm_wf_def vm_sample_eq)
  moreover have "ce_used (coremap vm_sample ! j) = 0" if "j < 16" "1 \<le> j" for j
    using that by (simp add: vm_sample_def vm_bootstrap_def ram_getsize_def ROUNDUP_def DIVROUNDUP_def)
  ultimately show "cm_rel vm_sample Map.empty"
    by (auto simp: cm_rel_def cm_inv_def frame_runs_def vm_sample_eq)
  then show "kp_rel vm_sample Map.empty" by (simp add: kp_rel_def)
qed

subsection \<open>Properties\<close>

lemma ROUNDUP_pages: "ROUNDUP x 4096 div 4096 = DIVROUNDUP x 4096"
  by (simp add: ROUNDUP_def)

text \<open>
  C2.  Boot of the coremap.  When RAM starts at a page boundary and holds at least a page,
  \<open>vm_bootstrap\<close> leaves a coremap with no allocated run, the array of entries fits in the
  pages that are reserved for it, those pages lie in RAM, and every frame it manages lies
  between the first free address and the end of RAM, so above every page that
  \<open>ram_stealmem\<close> handed out before.
\<close>

theorem vm_bootstrap_ok:
  assumes "4096 dvd unat (firstpaddr v)" and "unat (firstpaddr v) + 4096 \<le> unat (lastpaddr v)"
    and "unat (lastpaddr v) \<le> 508 * 1024 * 1024"
  defines "v' \<equiv> vm_bootstrap v"
  shows "cm_rel v' Map.empty \<and> 8 * num_of_pages v' \<le> 4096 * num_of_coremap_pages v' \<and>
    num_of_coremap_pages v' \<le> num_of_pages v' \<and> firstaddr v' = firstpaddr v \<and>
    unat (firstaddr v') + 4096 * num_of_pages v' \<le> unat (lastpaddr v)"
proof -
  let ?n = "unat (lastpaddr v - firstpaddr v) div 4096"
  have "unat (lastpaddr v - firstpaddr v) = unat (lastpaddr v) - unat (firstpaddr v)"
    using assms(2) by (intro unat_sub) (simp add: word_le_nat_alt)
  then have n: "0 < ?n" "unat (firstpaddr v) + 4096 * ?n \<le> unat (lastpaddr v)"
    using assms(2) by simp_all
  have c: "8 * ?n \<le> DIVROUNDUP (?n * 8) 4096 * 4096" "DIVROUNDUP (?n * 8) 4096 \<le> ?n"
    using DIVROUNDUP_bounds(1) [of 4096 "?n * 8"] DIVROUNDUP_least [of 4096 "?n * 8" ?n] by simp_all
  have simps: "num_of_pages v' = ?n" "num_of_coremap_pages v' = DIVROUNDUP (?n * 8) 4096"
      "firstaddr v' = firstpaddr v" "length (coremap v') = ?n" "vm_bootstrap_flag v'"
    by (simp_all add: v'_def vm_bootstrap_def ram_getsize_def Let_def ROUNDUP_pages)
  have free: "ce_used (coremap v' ! j) = 0" if "j < ?n" "DIVROUNDUP (?n * 8) 4096 \<le> j" for j
    using that by (simp add: v'_def vm_bootstrap_def ram_getsize_def Let_def ROUNDUP_pages)
  have "vm_wf v'"
    using simps c(1) n assms(1,3) by (simp add: vm_wf_def)
  moreover have "cm_inv (num_of_coremap_pages v') (coremap v') (frame_runs v' Map.empty)"
    using simps free by (auto simp: cm_inv_def frame_runs_def)
  ultimately show ?thesis using simps c n by (simp add: cm_rel_def mult.commute)
qed

theorem vm_bootstrap_ok_witness:
  "cm_rel (vm_bootstrap \<lparr>firstpaddr = 0x30000, lastpaddr = 0x40000, vm_bootstrap_flag = False,
     num_of_coremap_pages = 0, num_of_pages = 0, firstaddr = 0, lastaddr = 0, coremap = []\<rparr>) Map.empty"
  using vm_bootstrap_ok [of "\<lparr>firstpaddr = 0x30000, lastpaddr = 0x40000, vm_bootstrap_flag = False,
     num_of_coremap_pages = 0, num_of_pages = 0, firstaddr = 0, lastaddr = 0, coremap = []\<rparr>"]
  by simp

text \<open>
  C1.  The frame allocator is first fit and never hands out a frame twice.  A request fails,
  changing nothing, only if there is no run of that many free frames; otherwise the run it
  returns is the lowest free one, it is recorded as allocated, and it is disjoint from every
  run allocated before.
\<close>

theorem getppages_first_fit:
  assumes rel: "cm_rel v A"
  shows "(getppages n v = Some (0, v) \<and>
      (n = 0 \<or> (\<forall>s \<ge> num_of_coremap_pages v. \<not> free_run (coremap v) s n))) \<or>
    (\<exists>s v'. getppages n v = Some (frame_addr v s, v') \<and> cm_rel v' (A(frame_addr v s \<mapsto> n)) \<and>
      num_of_coremap_pages v \<le> s \<and> free_run (coremap v) s n \<and>
      (\<forall>t. num_of_coremap_pages v \<le> t \<and> t < s \<longrightarrow> \<not> free_run (coremap v) t n) \<and>
      (\<forall>q m. A q = Some m \<longrightarrow> page_run (frame_addr v s) n \<inter> page_run q m = {}))"
  using rel
proof (cases rule: coremap_alloc_run [of v A n])
  case (2 s cm)
  then have "getppages n v = Some (frame_addr v s, v\<lparr>coremap := cm\<rparr>)"
    using cm_rel_flag [OF rel] by (simp add: getppages_def)
  with 2 cm.alloc_disjoint [OF rel this 2(2)] show ?thesis by blast
qed (use cm_rel_flag [OF rel] in \<open>auto simp: getppages_def\<close>)

theorem getppages_first_fit_witness:
  "cm_rel vm_sample Map.empty \<and>
   ((getppages 2 vm_sample = Some (0, vm_sample) \<and>
      (\<forall>s \<ge> num_of_coremap_pages vm_sample. \<not> free_run (coremap vm_sample) s 2)) \<or>
    (\<exists>s v'. getppages 2 vm_sample = Some (frame_addr vm_sample s, v') \<and> num_of_coremap_pages vm_sample \<le> s))"
  using getppages_first_fit [OF vm_sample_rel(1), of 2] vm_sample_rel(1) by auto

text \<open>
  C3.  Freed pages are available again: freeing any run of kernel pages that is allocated
  succeeds, leaves the other runs as they were, and a following request for at most as many
  pages is granted.
\<close>

theorem free_kpages_reusable:
  assumes rel: "kp_rel v K" and run: "K p = Some n" and "0 < m" and "m \<le> n"
  shows "\<exists>v' q v''. free_kpages p v = Some v' \<and> kp_rel v' (K(p := None)) \<and>
    alloc_kpages m v' = Some (q, v'') \<and> q \<noteq> 0 \<and> kp_rel v'' (K(p := None, q \<mapsto> m))"
proof -
  let ?A = "\<lambda>pa. K (PADDR_TO_KVADDR pa)" and ?pa = "KVADDR_TO_PADDR p"
  have rel': "cm_rel v ?A" and run': "?A ?pa = Some n" using rel run by (simp_all add: kp_rel_def)
  obtain s where s: "s < num_of_pages v" "?pa = frame_addr v s"
    by (rule cm_rel_frame [OF rel' run'])
  note r = cm_rel_run [OF rel' run' s(2,1)]
  have wf: "vm_wf v" using rel' by (simp add: cm_rel_def)
  let ?v = "v\<lparr>coremap := cm_drop (coremap v) s n\<rparr>"
  have len: "length (coremap v) = num_of_pages v" "s + n < 2 ^ 32"
    using wf r(3) by (simp_all add: vm_wf_def)
  then have free: "free_kpages p v = Some ?v"
    using s r frame_index [OF wf s(1)] coremap_clear_eq [of "s + n" "coremap v" s]
    by (simp add: free_kpages_def coremap_dealloc_def Let_def cm_drop_def)
  then have rel'': "kp_rel ?v (K(p := None))" using free_kpages_run [OF rel run] by simp
  have "free_run (coremap ?v) s m"
    using assms(4) r(3) len by (auto simp: free_run_def cm_drop_nth)
  then have "getppages m ?v \<noteq> Some (0, ?v)"
    using coremap_alloc_run [OF rel'' [unfolded kp_rel_def], of m] r(1) \<open>0 < m\<close>
      cm_rel_flag [OF rel'] by (fastforce simp: getppages_def)
  then obtain q v'' where "alloc_kpages m ?v = Some (q, v'')" "q \<noteq> 0"
    using kp.alloc_total [OF rel'', of m] alloc_kpages_fail [OF rel'', of m] by metis
  with free rel'' alloc_kpages_fresh [OF rel'' this] show ?thesis by blast
qed

theorem free_kpages_reusable_witness:
  "\<exists>va v1 v2. alloc_kpages 3 vm_sample = Some (va, v1) \<and> free_kpages va v1 = Some v2"
proof -
  have "coremap_alloc_loop vm_sample 3 1 0 = Some (0x31000, vm_sample\<lparr>coremap := cm_take (coremap vm_sample) 1 3\<rparr>)"
    by (subst coremap_alloc_loop_found [where s = 1])
      (auto simp: vm_sample_eq free_run_def vm_sample_def vm_bootstrap_def ram_getsize_def ROUNDUP_def DIVROUNDUP_def)
  then have a: "alloc_kpages 3 vm_sample = Some (0x80031000, vm_sample\<lparr>coremap := cm_take (coremap vm_sample) 1 3\<rparr>)"
    by (simp add: alloc_kpages_def getppages_def coremap_alloc_def vm_sample_eq PADDR_TO_KVADDR_def MIPS_KSEG0_def)
  then have rel: "kp_rel (vm_sample\<lparr>coremap := cm_take (coremap vm_sample) 1 3\<rparr>) (Map.empty(0x80031000 \<mapsto> 3))"
    using alloc_kpages_fresh [OF vm_sample_rel(2) a] by simp
  show ?thesis using free_kpages_reusable [OF rel, of "0x80031000" 3 1] a by auto
qed

text \<open>
  C4.  A page stolen before \<open>vm_bootstrap\<close> cannot be freed.  \<open>free_kpages\<close> does not check that
  the page is one the coremap manages: for a page below the first managed frame the index
  wraps around and lies outside the coremap, so the kernel reads beyond the array.
\<close>

theorem free_kpages_stolen:
  assumes "vm_wf v" and "unat pa + 4096 \<le> unat (firstaddr v)"
  shows "free_kpages (PADDR_TO_KVADDR pa) v = None"
proof -
  have "unat (pa - firstaddr v) = unat pa + 2 ^ 32 - unat (firstaddr v)"
    using assms(2) by (simp add: unat_sub_if_size word_size)
  then have "unat (pa - firstaddr v) div 4096 \<ge> num_of_pages v"
    using assms by (auto simp: vm_wf_def less_eq_div_iff_mult_less_eq)
  then show ?thesis
    using assms(1) by (simp add: free_kpages_def coremap_dealloc_def aget_def vm_wf_def Let_def)
qed

theorem free_kpages_stolen_witness:
  "vm_wf vm_sample \<and> free_kpages (PADDR_TO_KVADDR 0x2f000) vm_sample = None"
  using free_kpages_stolen [of vm_sample "0x2f000"] vm_sample_rel(1) by (simp add: cm_rel_def vm_sample_eq)

end
