(* ===== verification/Kmalloc.thy ===== *)
theory Kmalloc
  imports Coremap
begin

text \<open>
  The kernel heap of src/kern/vm/kmalloc.c: the subpage allocator, which cuts pages into
  blocks of eight sizes, and the entry points \<open>kmalloc\<close> and \<open>kfree\<close>.  Pointers to the
  page records are indices into the static table \<open>pagerefs\<close>; the free lists inside the pages
  are chains of addresses in \<open>kword\<close>, the kernel memory by word address.  Every body that
  holds \<open>kmalloc_spinlock\<close> is executed as one piece; the lock is dropped only around the calls
  of the page allocator.
\<close>

subsection \<open>Model\<close>

record pageref =
  next_samesize :: "nat option"
  next_all :: "nat option"
  pageaddr_and_blocktype :: u32
  freelist_offset :: nat
  nfree :: nat

record kstate =
  kvm :: vm_state
  kword :: "u32 \<Rightarrow> u32"
  pagerefs :: "pageref list"
  pagerefs_inuse :: "u32 list"
  sizebases :: "nat option list"
  allbase :: "nat option"

definition sizes :: "nat list" where
  "sizes = [16, 32, 64, 128, 256, 512, 1024, 2048]"

definition INVALID_OFFSET :: nat where
  "INVALID_OFFSET = 0xffff"

definition PR_PAGEADDR :: "pageref \<Rightarrow> vaddr" where
  "PR_PAGEADDR pr = pageaddr_and_blocktype pr AND PAGE_FRAME"

definition PR_BLOCKTYPE :: "pageref \<Rightarrow> nat" where
  "PR_BLOCKTYPE pr = unat (pageaddr_and_blocktype pr AND NOT PAGE_FRAME)"

definition MKPAB :: "vaddr \<Rightarrow> nat \<Rightarrow> u32" where
  "MKPAB pa blk = (pa AND PAGE_FRAME) OR (of_nat blk AND NOT PAGE_FRAME)"

function fill_deadbeef_loop :: "(u32 \<Rightarrow> u32) \<Rightarrow> u32 \<Rightarrow> nat \<Rightarrow> nat \<Rightarrow> (u32 \<Rightarrow> u32)" where
  "fill_deadbeef_loop m ptr i n =
     (if i < n then fill_deadbeef_loop (m(ptr + of_nat (4 * i) := 0xdeadbeef)) ptr (Suc i) n else m)"
  by auto
termination
  by (relation "measure (\<lambda>(m, ptr, i, n). n - i)") auto

definition fill_deadbeef :: "(u32 \<Rightarrow> u32) \<Rightarrow> u32 \<Rightarrow> nat \<Rightarrow> (u32 \<Rightarrow> u32)" where
  "fill_deadbeef m vptr len = fill_deadbeef_loop m vptr 0 (len div 4)"

lemma shifted_one_nonzero: "push_bit j (1 :: u32) \<noteq> 0 \<Longrightarrow> j < 32"
  by (rule ccontr) (simp add: push_bit_of_1 exp_eq_zero_iff)

function allocpageref_word :: "u32 \<Rightarrow> nat \<Rightarrow> nat kres" where
  "allocpageref_word w j =
     (if push_bit j (1 :: u32) \<noteq> 0 then
        (if w AND push_bit j 1 = 0 then Some j else allocpageref_word w (Suc j))
      else None)"
  by auto
termination
  by (relation "measure (\<lambda>(w, j). 32 - j)") (auto dest: shifted_one_nonzero)

function allocpageref_loop :: "kstate \<Rightarrow> nat \<Rightarrow> (nat option \<times> kstate) kres" where
  "allocpageref_loop k i =
     (if i < 8 then do {
        w \<leftarrow> aget (pagerefs_inuse k) i;
        if w = 0xffffffff then allocpageref_loop k (Suc i)
        else do {
          j \<leftarrow> allocpageref_word w 0;
          u \<leftarrow> aput (pagerefs_inuse k) i (w OR push_bit j 1);
          Some (Some (i * 32 + j), k\<lparr>pagerefs_inuse := u\<rparr>)
        }
      } else Some (None, k))"
  by auto
termination
  by (relation "measure (\<lambda>(k, i). 8 - i)") auto

definition allocpageref :: "kstate \<Rightarrow> (nat option \<times> kstate) kres" where
  "allocpageref k = allocpageref_loop k 0"

definition freepageref :: "nat \<Rightarrow> kstate \<Rightarrow> kstate kres" where
  "freepageref j k = do {
     kassert (j < 256);
     w \<leftarrow> aget (pagerefs_inuse k) (j div 32);
     kassert (w AND push_bit (j mod 32) 1 \<noteq> 0);
     u \<leftarrow> aput (pagerefs_inuse k) (j div 32) (w AND NOT (push_bit (j mod 32) 1));
     Some (k\<lparr>pagerefs_inuse := u\<rparr>)
   }"

text \<open>
  \<open>remove_lists\<close> walks each list with a pointer to a pointer.  \<open>None\<close> is the address of the
  list head, \<open>Some j\<close> the address of the link field of record \<open>j\<close>.
\<close>

definition get_samesize :: "kstate \<Rightarrow> nat \<Rightarrow> nat option \<Rightarrow> nat option kres" where
  "get_samesize k blktype guy =
     (case guy of None \<Rightarrow> aget (sizebases k) blktype
      | Some j \<Rightarrow> map_option next_samesize (aget (pagerefs k) j))"

definition put_samesize :: "nat option \<Rightarrow> nat \<Rightarrow> nat option \<Rightarrow> kstate \<Rightarrow> kstate kres" where
  "put_samesize guy blktype x k =
     (case guy of
        None \<Rightarrow> do { b \<leftarrow> aput (sizebases k) blktype x; Some (k\<lparr>sizebases := b\<rparr>) }
      | Some j \<Rightarrow> do {
          r \<leftarrow> aget (pagerefs k) j;
          p \<leftarrow> aput (pagerefs k) j (r\<lparr>next_samesize := x\<rparr>);
          Some (k\<lparr>pagerefs := p\<rparr>)
        })"

definition get_all :: "kstate \<Rightarrow> nat option \<Rightarrow> nat option kres" where
  "get_all k guy =
     (case guy of None \<Rightarrow> Some (allbase k) | Some j \<Rightarrow> map_option next_all (aget (pagerefs k) j))"

definition put_all :: "nat option \<Rightarrow> nat option \<Rightarrow> kstate \<Rightarrow> kstate kres" where
  "put_all guy x k =
     (case guy of
        None \<Rightarrow> Some (k\<lparr>allbase := x\<rparr>)
      | Some j \<Rightarrow> do {
          r \<leftarrow> aget (pagerefs k) j;
          p \<leftarrow> aput (pagerefs k) j (r\<lparr>next_all := x\<rparr>);
          Some (k\<lparr>pagerefs := p\<rparr>)
        })"

partial_function (option) remove_samesize :: "nat \<Rightarrow> nat \<Rightarrow> nat option \<Rightarrow> kstate \<Rightarrow> kstate kres" where
  "remove_samesize pr blktype guy k = do {
     cur \<leftarrow> get_samesize k blktype guy;
     case cur of
       None \<Rightarrow> Some k
     | Some c \<Rightarrow>
         if c = pr then do {
           r \<leftarrow> aget (pagerefs k) pr;
           put_samesize guy blktype (next_samesize r) k
         } else remove_samesize pr blktype (Some c) k
   }"

partial_function (option) remove_all :: "nat \<Rightarrow> nat option \<Rightarrow> kstate \<Rightarrow> kstate kres" where
  "remove_all pr guy k = do {
     cur \<leftarrow> get_all k guy;
     case cur of
       None \<Rightarrow> Some k
     | Some c \<Rightarrow>
         if c = pr then do {
           r \<leftarrow> aget (pagerefs k) pr;
           put_all guy (next_all r) k
         } else remove_all pr (Some c) k
   }"

definition remove_lists :: "nat \<Rightarrow> nat \<Rightarrow> kstate \<Rightarrow> kstate kres" where
  "remove_lists pr blktype k = do {
     kassert (blktype < 8);
     k1 \<leftarrow> remove_samesize pr blktype None k;
     remove_all pr None k1
   }"

function blocktype_loop :: "nat \<Rightarrow> nat \<Rightarrow> nat kres" where
  "blocktype_loop sz i =
     (if i < 8 then if sz \<le> sizes ! i then Some i else blocktype_loop sz (Suc i) else None)"
  by auto
termination
  by (relation "measure (\<lambda>(sz, i). 8 - i)") auto

definition blocktype :: "nat \<Rightarrow> nat kres" where
  "blocktype sz = blocktype_loop sz 0"

text \<open>The search of \<open>subpage_kmalloc\<close> along the pages of one block size.\<close>

partial_function (option) subpage_find :: "kstate \<Rightarrow> nat \<Rightarrow> nat option \<Rightarrow> nat option kres" where
  "subpage_find k blktype pr =
     (case pr of
        None \<Rightarrow> Some None
      | Some i \<Rightarrow> do {
          r \<leftarrow> aget (pagerefs k) i;
          kassert (PR_BLOCKTYPE r = blktype);
          if nfree r > 0 then Some (Some i) else subpage_find k blktype (next_samesize r)
        })"

text \<open>The code after the label \<open>doalloc\<close>: take the first block of the page's free list.\<close>

definition subpage_doalloc :: "nat \<Rightarrow> kstate \<Rightarrow> (vaddr \<times> kstate) kres" where
  "subpage_doalloc i k = do {
     r \<leftarrow> aget (pagerefs k) i;
     kassert (freelist_offset r < 4096);
     let prpage = PR_PAGEADDR r;
     let fla = prpage + of_nat (freelist_offset r);
     let next = kword k fla;
     let n = (nfree r + 0xffff) mod 0x10000;
     r' \<leftarrow> (if next \<noteq> 0 then do {
              kassert (n > 0);
              kassert (unat (next - prpage) < 4096);
              Some (r\<lparr>nfree := n, freelist_offset := unat (next - prpage)\<rparr>)
            } else do {
              kassert (n = 0);
              Some (r\<lparr>nfree := n, freelist_offset := INVALID_OFFSET\<rparr>)
            });
     p \<leftarrow> aput (pagerefs k) i r';
     Some (fla, k\<lparr>pagerefs := p\<rparr>)
   }"

text \<open>The loop that chains the blocks of a fresh page; it returns the memory and the last \<open>fl\<close>.\<close>

function freelist_init ::
  "(u32 \<Rightarrow> u32) \<Rightarrow> vaddr \<Rightarrow> nat \<Rightarrow> nat \<Rightarrow> nat \<Rightarrow> u32 \<Rightarrow> ((u32 \<Rightarrow> u32) \<times> u32) kres" where
  "freelist_init m fla sz i n fl =
     (if i < n then
        (let fl' = fla + of_nat (i * sz); nxt = fla + of_nat ((i - 1) * sz); m' = m(fl' := nxt) in do {
           kassert (fl' \<noteq> m' fl');
           freelist_init m' fla sz (Suc i) n fl'
         })
      else Some (m, fl))"
  by auto
termination
  by (relation "measure (\<lambda>(m, fla, sz, i, n, fl). n - i)") auto

definition subpage_newpage :: "nat \<Rightarrow> kstate \<Rightarrow> (vaddr \<times> kstate) kres" where
  "subpage_newpage blktype k0 = do {
     (prpage, v) \<leftarrow> alloc_kpages 1 (kvm k0);
     let k1 = k0\<lparr>kvm := v\<rparr>;
     if prpage = 0 then Some (0, k1)
     else do {
       (pr, k2) \<leftarrow> allocpageref k1;
       case pr of
         None \<Rightarrow> do { v' \<leftarrow> free_kpages prpage (kvm k2); Some (0, k2\<lparr>kvm := v'\<rparr>) }
       | Some i \<Rightarrow> do {
           r \<leftarrow> aget (pagerefs k2) i;
           sz \<leftarrow> aget sizes blktype;
           let n = 4096 div sz;
           (m, fl) \<leftarrow> freelist_init ((kword k2)(prpage := 0)) prpage sz 1 n prpage;
           let off = unat (fl - prpage) mod 0x10000;
           kassert (off = (n - 1) * sz);
           base \<leftarrow> aget (sizebases k2) blktype;
           p \<leftarrow> aput (pagerefs k2) i
                  (r\<lparr>pageaddr_and_blocktype := MKPAB prpage blktype, nfree := n, freelist_offset := off,
                     next_samesize := base, next_all := allbase k2\<rparr>);
           b \<leftarrow> aput (sizebases k2) blktype (Some i);
           subpage_doalloc i (k2\<lparr>kword := m, pagerefs := p, sizebases := b, allbase := Some i\<rparr>)
         }
     }
   }"

definition subpage_kmalloc :: "nat \<Rightarrow> kstate \<Rightarrow> (vaddr \<times> kstate) kres" where
  "subpage_kmalloc sz k = do {
     blktype \<leftarrow> blocktype sz;
     base \<leftarrow> aget (sizebases k) blktype;
     found \<leftarrow> subpage_find k blktype base;
     case found of
       Some i \<Rightarrow> subpage_doalloc i k
     | None \<Rightarrow> subpage_newpage blktype k
   }"

text \<open>The search of \<open>subpage_kfree\<close> along all pages for the one that contains the pointer.\<close>

partial_function (option) subpage_locate :: "kstate \<Rightarrow> vaddr \<Rightarrow> nat option \<Rightarrow> nat option kres" where
  "subpage_locate k ptraddr pr =
     (case pr of
        None \<Rightarrow> Some None
      | Some i \<Rightarrow> do {
          r \<leftarrow> aget (pagerefs k) i;
          let prpage = PR_PAGEADDR r;
          kassert (PR_BLOCKTYPE r < 8);
          if ptraddr \<ge> prpage \<and> ptraddr < prpage + 4096 then Some (Some i)
          else subpage_locate k ptraddr (next_all r)
        })"

text \<open>The result \<open>True\<close> is the return value 0, \<open>False\<close> is -1: not a subpage allocation.\<close>

definition subpage_kfree :: "vaddr \<Rightarrow> kstate \<Rightarrow> (bool \<times> kstate) kres" where
  "subpage_kfree ptr k = do {
     pr \<leftarrow> subpage_locate k ptr (allbase k);
     case pr of
       None \<Rightarrow> Some (False, k)
     | Some i \<Rightarrow> do {
         r \<leftarrow> aget (pagerefs k) i;
         let prpage = PR_PAGEADDR r;
         let blktype = PR_BLOCKTYPE r;
         sz \<leftarrow> aget sizes blktype;
         let offset = unat (ptr - prpage);
         kassert (\<not> (offset \<ge> 4096 \<or> offset mod sz \<noteq> 0));
         let m = fill_deadbeef (kword k) ptr sz;
         let fla = prpage + of_nat offset;
         let m' = m(fla := (if freelist_offset r = INVALID_OFFSET then 0
                            else prpage + of_nat (freelist_offset r)));
         let n = (nfree r + 1) mod 0x10000;
         p \<leftarrow> aput (pagerefs k) i (r\<lparr>freelist_offset := offset mod 0x10000, nfree := n\<rparr>);
         let k1 = k\<lparr>kword := m', pagerefs := p\<rparr>;
         kassert (n \<le> 4096 div sz);
         if n = 4096 div sz then do {
           k2 \<leftarrow> remove_lists i blktype k1;
           k3 \<leftarrow> freepageref i k2;
           v \<leftarrow> free_kpages prpage (kvm k3);
           Some (True, k3\<lparr>kvm := v\<rparr>)
         } else Some (True, k1)
       }
   }"

definition kmalloc :: "nat \<Rightarrow> kstate \<Rightarrow> (vaddr \<times> kstate) kres" where
  "kmalloc sz k =
     (if sz \<ge> 2048 then do {
        let npages = (sz + 4096 - 1) mod 2 ^ 32 div 4096;
        (address, v) \<leftarrow> alloc_kpages npages (kvm k);
        Some (address, k\<lparr>kvm := v\<rparr>)
      } else subpage_kmalloc sz k)"

definition kfree :: "vaddr \<Rightarrow> kstate \<Rightarrow> kstate kres" where
  "kfree ptr k =
     (if ptr = 0 then Some k
      else do {
        (done, k1) \<leftarrow> subpage_kfree ptr k;
        if \<not> done then do {
          kassert (unat ptr mod 4096 = 0);
          v \<leftarrow> free_kpages ptr (kvm k1);
          Some (k1\<lparr>kvm := v\<rparr>)
        } else Some k1
      })"

declare fill_deadbeef_loop.simps [simp del] allocpageref_word.simps [simp del]
  allocpageref_loop.simps [simp del] blocktype_loop.simps [simp del] freelist_init.simps [simp del]

end
