(* ===== verification/Kmalloc_Inv.thy ===== *)
theory Kmalloc_Inv
  imports Kmalloc
begin

text \<open>
  The invariant of the kernel heap and the facts about its parts: block addresses inside a
  page, the chains of page records, the chains of free blocks, and the table of page records
  in use.
\<close>

subsection \<open>Block sizes and addresses\<close>

lemma length_sizes [simp]: "length sizes = 8"
  by (simp add: sizes_def)

lemma less_8_cases: "i < 8 \<Longrightarrow> i \<in> {0, 1, 2, 3, 4, 5, 6, 7 :: nat}"
  by auto

lemma sizes_props:
  assumes "t < 8"
  shows "4 dvd sizes ! t" and "16 \<le> sizes ! t" and "sizes ! t \<le> 2048"
    and "4096 div sizes ! t * sizes ! t = 4096" and "4096 div sizes ! t \<le> 256" and "1 < 4096 div sizes ! t"
  using less_8_cases [OF assms] by (auto simp: sizes_def)

lemma blocktype_loop_ok:
  assumes "i \<le> 8" and "sz \<le> 2048" and "i = 8 \<longrightarrow> False"
  obtains t where "blocktype_loop sz i = Some t" and "t < 8" and "sz \<le> sizes ! t"
  using assms
proof (induction sz i arbitrary: thesis rule: blocktype_loop.induct)
  case (1 sz i)
  show ?case
  proof (cases "sz \<le> sizes ! i")
    case True
    then show ?thesis using 1(2) [of i] 1(3-5) by (simp add: blocktype_loop.simps [of sz i])
  next
    case False
    then have "i \<noteq> 7" using 1(4) by (auto simp: sizes_def)
    then have i: "i < 8" "Suc i \<le> 8" "Suc i = 8 \<longrightarrow> False" using 1(3,5) by auto
    show ?thesis
      by (rule 1(1) [OF i(1) False _ i(2) 1(4) i(3)], rule 1(2))
        (use i False in \<open>simp_all add: blocktype_loop.simps [of sz i]\<close>)
  qed
qed

lemma blocktype_ok:
  assumes "sz \<le> 2048"
  obtains t where "blocktype sz = Some t" and "t < 8" and "sz \<le> sizes ! t"
  using blocktype_loop_ok [of 0 sz] assms unfolding blocktype_def by auto

lemma page_frame_mask: "(0xfffff000 :: u32) = NOT (mask 12)"
  by (simp add: mask_eq_exp_minus_1)

lemma bit_page_frame: "bit (0xfffff000 :: u32) n \<longleftrightarrow> 12 \<le> n \<and> n < 32"
  unfolding page_frame_mask by (auto simp: bit_simps)

lemma PR_PAGEADDR_aligned: "4096 dvd unat (PR_PAGEADDR r)"
proof -
  have "PR_PAGEADDR r AND mask 12 = 0"
    unfolding PR_PAGEADDR_def page_frame_mask by (rule bit_word_eqI) (auto simp: bit_simps)
  then have "take_bit 12 (PR_PAGEADDR r) = 0" by (simp add: take_bit_eq_mask)
  then have "unat (take_bit 12 (PR_PAGEADDR r)) = 0" by simp
  then have "unat (PR_PAGEADDR r) mod 4096 = 0" by (simp add: take_bit_eq_mod unat_mod_distrib)
  then show ?thesis by (simp add: dvd_eq_mod_eq_0)
qed

lemma aligned_bits: "4096 dvd unat (p :: u32) \<Longrightarrow> n < 12 \<Longrightarrow> \<not> bit p n"
proof -
  assume "4096 dvd unat p" "n < 12"
  then have "take_bit 12 (unat p) = 0" by (simp add: take_bit_eq_mod dvd_eq_mod_eq_0)
  then have "\<not> bit (take_bit 12 (unat p)) n" by simp
  then have "\<not> bit (unat p) n" using \<open>n < 12\<close> by (simp add: bit_take_bit_iff)
  then show ?thesis by (simp add: bit_unsigned_iff)
qed

lemma PR_PAGEADDR_MKPAB [simp]:
  assumes "4096 dvd unat p"
  shows "MKPAB p t AND PAGE_FRAME = p"
  unfolding MKPAB_def page_frame_mask
  by (rule bit_word_eqI)
    (use aligned_bits [OF assms] in \<open>auto simp: bit_simps simp flip: not_less\<close>)

lemma PR_BLOCKTYPE_MKPAB:
  assumes "4096 dvd unat p" and "t < 8"
  shows "unat (MKPAB p t AND NOT PAGE_FRAME) = t"
proof -
  have "unat (of_nat t :: u32) = t" using assms(2) by (simp add: unat_of_nat)
  moreover have "take_bit 12 (of_nat t :: u32) = of_nat t"
    using assms(2) take_bit_nat_eq_self [of t 12] by (simp flip: of_nat_take_bit)
  moreover have "MKPAB p t AND NOT PAGE_FRAME = take_bit 12 (of_nat t)"
    unfolding MKPAB_def page_frame_mask
    by (rule bit_word_eqI) (use aligned_bits [OF assms(1)] in \<open>auto simp: bit_simps not_less\<close>)
  ultimately show ?thesis by simp
qed

definition blocks :: "vaddr \<Rightarrow> nat \<Rightarrow> vaddr set" where
  "blocks P sz = (\<lambda>j. P + of_nat (j * sz)) ` {..<4096 div sz}"

definition kpage :: "vaddr \<Rightarrow> bool" where
  "kpage P \<longleftrightarrow> 4096 dvd unat P \<and> 2 ^ 31 \<le> unat P \<and> unat P + 4096 \<le> 2 ^ 31 + 2 ^ 29"

lemma unat_page_offset:
  assumes "kpage P" and "d < 4096"
  shows "unat (P + of_nat d) = unat P + d" and "P + of_nat d \<noteq> 0" and "unat (P + of_nat d - P) = d"
proof -
  have "unat (of_nat d :: u32) = d" using assms(2) by (intro unat_of_nat_u32) simp
  moreover have "unat P + d < 2 ^ 32" using assms by (simp add: kpage_def)
  ultimately show eq: "unat (P + of_nat d) = unat P + d"
    using unat_add_lem [of P "of_nat d"] by simp
  show "P + of_nat d \<noteq> 0" using eq assms(1) by (auto simp: kpage_def)
  show "unat (P + of_nat d - P) = d" using \<open>unat (of_nat d) = d\<close> by simp
qed

lemma page_word_at:
  assumes "kpage P" and "unat P \<le> unat a" and "unat a < unat P + 4096"
  obtains d where "d < 4096" and "a = P + of_nat d"
proof (rule that)
  show "unat a - unat P < 4096" using assms by simp
  show "a = P + of_nat (unat a - unat P)"
    by (rule word_unat_eq_iff [THEN iffD2]) (use assms in \<open>simp add: unat_page_offset(1)\<close>)
qed

lemma block_offset:
  assumes "t < 8" and "j < 4096 div sizes ! t"
  shows "j * sizes ! t + sizes ! t \<le> 4096"
proof -
  have "(j + 1) * sizes ! t \<le> 4096 div sizes ! t * sizes ! t"
    using assms(2) by (intro mult_le_mono1) simp
  then show ?thesis using sizes_props(4) [OF assms(1)] by simp
qed

lemma blocksE:
  assumes "b \<in> blocks P (sizes ! t)" and "t < 8" and "kpage P"
  obtains j where "j < 4096 div sizes ! t" and "b = P + of_nat (j * sizes ! t)"
    and "unat b = unat P + j * sizes ! t" and "j * sizes ! t + sizes ! t \<le> 4096"
proof -
  obtain j where j: "j < 4096 div sizes ! t" "b = P + of_nat (j * sizes ! t)"
    using assms(1) by (auto simp: blocks_def)
  note o = block_offset [OF assms(2) j(1)]
  have "j * sizes ! t < 4096" using o sizes_props(2) [OF assms(2)] by linarith
  then have "unat b = unat P + j * sizes ! t"
    unfolding j(2) by (rule unat_page_offset(1) [OF assms(3)])
  then show thesis by (rule that [OF j _ o])
qed

lemma finite_blocks [simp]: "finite (blocks P sz)"
  by (simp add: blocks_def)

lemma card_blocks:
  assumes "t < 8" and "kpage P"
  shows "card (blocks P (sizes ! t)) = 4096 div sizes ! t"
proof -
  have "inj_on (\<lambda>j. P + of_nat (j * sizes ! t)) {..<4096 div sizes ! t}"
  proof (rule inj_onI)
    fix i j
    assume ij: "i \<in> {..<4096 div sizes ! t}" "j \<in> {..<4096 div sizes ! t}"
      and eq: "P + of_nat (i * sizes ! t) = P + of_nat (j * sizes ! t)"
    then have "i * sizes ! t < 4096" "j * sizes ! t < 4096"
      using block_offset [OF assms(1)] sizes_props(2) [OF assms(1)] by (fastforce)+
    then have "i * sizes ! t = j * sizes ! t"
      using unat_page_offset(3) [OF assms(2)] eq by metis
    then show "i = j" using sizes_props(2) [OF assms(1)] by simp
  qed
  then show ?thesis unfolding blocks_def by (simp add: card_image)
qed

lemma blocks_disjoint:
  assumes "b \<in> blocks P (sizes ! t)" and "c \<in> blocks P (sizes ! t)" and "b \<noteq> c"
    and t: "t < 8" and P: "kpage P"
  shows "byte_run b (sizes ! t) \<inter> byte_run c (sizes ! t) = {}"
proof -
  obtain i where i: "b = P + of_nat (i * sizes ! t)" "unat b = unat P + i * sizes ! t"
    using blocksE [OF assms(1) t P] by blast
  obtain j where j: "c = P + of_nat (j * sizes ! t)" "unat c = unat P + j * sizes ! t"
    using blocksE [OF assms(2) t P] by blast
  have "i \<noteq> j" using i j assms(3) by auto
  then have "(i + 1) * sizes ! t \<le> j * sizes ! t \<or> (j + 1) * sizes ! t \<le> i * sizes ! t"
    using mult_le_mono1 [of "i + 1" j "sizes ! t"] mult_le_mono1 [of "j + 1" i "sizes ! t"] by linarith
  then show ?thesis using i j by (auto simp: byte_run_def)
qed

lemma kpages_disjoint:
  assumes "4096 dvd unat P" and "4096 dvd unat Q" and "P \<noteq> Q"
  shows "page_run P 1 \<inter> page_run Q 1 = {}"
proof -
  obtain a b where ab: "unat P = 4096 * a" "unat Q = 4096 * b" using assms by (auto elim!: dvdE)
  then have "a \<noteq> b" using assms(3) by (simp add: word_unat_eq_iff)
  then show ?thesis using ab by (auto simp: page_run_def)
qed

subsection \<open>Chains of page records\<close>

fun plist :: "(nat \<Rightarrow> nat option) \<Rightarrow> nat option \<Rightarrow> nat list \<Rightarrow> bool" where
  "plist nx p [] \<longleftrightarrow> p = None"
| "plist nx p (x # xs) \<longleftrightarrow> p = Some x \<and> plist nx (nx x) xs"

lemma plist_cong: "(\<And>x. x \<in> set xs \<Longrightarrow> nx x = nx' x) \<Longrightarrow> plist nx p xs = plist nx' p xs"
  by (induction xs arbitrary: p) auto

lemma plist_upd_notin: "x \<notin> set xs \<Longrightarrow> plist (nx(x := y)) p xs = plist nx p xs"
  by (rule plist_cong) auto

lemma plist_None [simp]: "plist nx None xs \<longleftrightarrow> xs = []"
  by (cases xs) auto

lemma plist_remove_head: "plist nx (Some x) (x # xs) \<Longrightarrow> plist nx (nx x) xs"
  by simp

lemma plist_remove_mid:
  assumes "plist nx p (xs @ y # z # ys)" and "distinct (xs @ y # z # ys)"
  shows "plist (nx(y := nx z)) p (xs @ y # ys)"
  using assms
proof (induction xs arbitrary: p)
  case Nil
  then show ?case by (simp add: plist_upd_notin fun_upd_same del: fun_upd_apply)
qed auto

subsection \<open>Chains of free blocks\<close>

fun flist :: "(u32 \<Rightarrow> u32) \<Rightarrow> u32 \<Rightarrow> u32 list \<Rightarrow> bool" where
  "flist m a [] \<longleftrightarrow> a = 0"
| "flist m a (b # bs) \<longleftrightarrow> a = b \<and> b \<noteq> 0 \<and> flist m (m b) bs"

lemma flist_cong: "(\<And>b. b \<in> set bs \<Longrightarrow> m b = m' b) \<Longrightarrow> flist m a bs = flist m' a bs"
  by (induction bs arbitrary: a) auto

lemma flist_0 [simp]: "flist m 0 bs \<longleftrightarrow> bs = []"
  by (cases bs) auto

subsection \<open>The invariant of one page\<close>

definition fhead :: "pageref \<Rightarrow> u32" where
  "fhead r = (if freelist_offset r = INVALID_OFFSET then 0 else PR_PAGEADDR r + of_nat (freelist_offset r))"

definition bsize :: "pageref \<Rightarrow> nat" where
  "bsize r = sizes ! PR_BLOCKTYPE r"

definition page_ok :: "(u32 \<Rightarrow> u32) \<Rightarrow> pageref \<Rightarrow> u32 list \<Rightarrow> bool" where
  "page_ok m r fl \<longleftrightarrow> PR_BLOCKTYPE r < 8 \<and> kpage (PR_PAGEADDR r) \<and> nfree r = length fl \<and>
     distinct fl \<and> set fl \<subseteq> blocks (PR_PAGEADDR r) (bsize r) \<and> flist m (fhead r) fl \<and>
     (freelist_offset r = INVALID_OFFSET \<or> freelist_offset r < 4096)"

lemma page_ok_links [simp]:
  "page_ok m (r\<lparr>next_samesize := x\<rparr>) fl = page_ok m r fl"
  "page_ok m (r\<lparr>next_all := x\<rparr>) fl = page_ok m r fl"
  by (simp_all add: page_ok_def PR_BLOCKTYPE_def PR_PAGEADDR_def fhead_def bsize_def)

lemma page_ok_cong:
  assumes "\<And>a. a \<in> blocks (PR_PAGEADDR r) (bsize r) \<Longrightarrow> m a = m' a"
  shows "page_ok m r fl = page_ok m' r fl"
proof (cases "set fl \<subseteq> blocks (PR_PAGEADDR r) (bsize r)")
  case True
  then show ?thesis using flist_cong [of fl m m' "fhead r"] assms by (auto simp: page_ok_def)
qed (simp add: page_ok_def)

lemma page_ok_length:
  assumes "page_ok m r fl"
  shows "length fl \<le> 4096 div bsize r" and "length fl \<le> 256"
proof -
  have "card (set fl) \<le> card (blocks (PR_PAGEADDR r) (bsize r))"
    using assms by (intro card_mono) (auto simp: page_ok_def)
  then show "length fl \<le> 4096 div bsize r"
    using assms card_blocks [of "PR_BLOCKTYPE r" "PR_PAGEADDR r"]
    by (simp add: page_ok_def distinct_card bsize_def)
  then show "length fl \<le> 256"
    using assms sizes_props(5) [of "PR_BLOCKTYPE r"] by (simp add: page_ok_def bsize_def)
qed

lemma page_block_addr:
  assumes "page_ok m r fl" and "b \<in> blocks (PR_PAGEADDR r) (bsize r)"
  shows "unat (PR_PAGEADDR r) \<le> unat b" and "unat b + bsize r \<le> unat (PR_PAGEADDR r) + 4096"
    and "b \<noteq> 0" and "(unat b - unat (PR_PAGEADDR r)) mod bsize r = 0" and "4 dvd unat b"
    and "b = PR_PAGEADDR r + of_nat (unat b - unat (PR_PAGEADDR r))"
proof -
  have t: "PR_BLOCKTYPE r < 8" and P: "kpage (PR_PAGEADDR r)" using assms(1) by (auto simp: page_ok_def)
  obtain j where j: "unat b = unat (PR_PAGEADDR r) + j * bsize r" "j * bsize r + bsize r \<le> 4096"
      "b = PR_PAGEADDR r + of_nat (j * bsize r)"
    using blocksE [OF assms(2) [unfolded bsize_def] t P] unfolding bsize_def by blast
  then show "unat (PR_PAGEADDR r) \<le> unat b" "unat b + bsize r \<le> unat (PR_PAGEADDR r) + 4096"
      "(unat b - unat (PR_PAGEADDR r)) mod bsize r = 0"
      "b = PR_PAGEADDR r + of_nat (unat b - unat (PR_PAGEADDR r))" by simp_all
  show "b \<noteq> 0" using j P by (auto simp: kpage_def)
  have "4 dvd bsize r" using sizes_props(1) [OF t] by (simp add: bsize_def)
  moreover have "4 dvd unat (PR_PAGEADDR r)"
    using PR_PAGEADDR_aligned [of r] by (rule dvd_trans [rotated]) simp
  ultimately show "4 dvd unat b" using j(1) by simp
qed

subsection \<open>Taking a block from a page and giving one back\<close>

lemma page_ok_head:
  assumes "page_ok m r (b # fl)"
  shows "freelist_offset r < 4096" and "PR_PAGEADDR r + of_nat (freelist_offset r) = b"
  using assms by (auto simp: page_ok_def fhead_def split: if_splits)

lemma subpage_doalloc_ok:
  assumes r: "i < length (pagerefs k)" "pagerefs k ! i = r" and ok: "page_ok (kword k) r (b # fl)"
  obtains o' where "subpage_doalloc i k =
      Some (b, k\<lparr>pagerefs := (pagerefs k)[i := r\<lparr>nfree := length fl, freelist_offset := o'\<rparr>]\<rparr>)"
    and "page_ok (kword k) (r\<lparr>nfree := length fl, freelist_offset := o'\<rparr>) fl"
proof -
  note hd = page_ok_head [OF ok]
  have n: "(nfree r + 0xffff) mod 0x10000 = length fl"
    using page_ok_length(2) [OF ok] ok by (simp add: page_ok_def)
  have chain: "flist (kword k) (kword k b) fl" using ok by (simp add: page_ok_def)
  show thesis
  proof (cases fl)
    case Nil
    then have "kword k b = 0" using chain by simp
    then show thesis
      using that [of INVALID_OFFSET] r hd n ok Nil
      by (simp add: subpage_doalloc_def Let_def page_ok_def fhead_def PR_BLOCKTYPE_def PR_PAGEADDR_def bsize_def)
  next
    case (Cons c cs)
    then have nxt: "kword k b = c" "c \<noteq> 0" using chain by auto
    have "c \<in> blocks (PR_PAGEADDR r) (bsize r)" using ok Cons by (auto simp: page_ok_def)
    note c = page_block_addr [OF ok this]
    let ?o = "unat c - unat (PR_PAGEADDR r)"
    have "0 < bsize r" using ok sizes_props(2) [of "PR_BLOCKTYPE r"] by (auto simp: page_ok_def bsize_def)
    then have o: "?o < 4096" using c(1,2) by linarith
    have sub: "unat (c - PR_PAGEADDR r) = ?o"
      using c(1) by (intro unat_sub) (simp add: word_le_nat_alt)
    have "page_ok (kword k) (r\<lparr>nfree := length fl, freelist_offset := ?o\<rparr>) fl"
      using ok o chain nxt c(6) Cons
      by (simp add: page_ok_def fhead_def PR_BLOCKTYPE_def PR_PAGEADDR_def bsize_def INVALID_OFFSET_def)
    moreover have "subpage_doalloc i k =
        Some (b, k\<lparr>pagerefs := (pagerefs k)[i := r\<lparr>nfree := length fl, freelist_offset := ?o\<rparr>]\<rparr>)"
      using r hd n nxt sub o Cons by (simp add: subpage_doalloc_def Let_def)
    ultimately show thesis using that by blast
  qed
qed

lemma fill_deadbeef_loop_other:
  "(\<forall>j. i \<le> j \<and> j < n \<longrightarrow> w \<noteq> p + of_nat (4 * j)) \<Longrightarrow> fill_deadbeef_loop m p i n w = m w"
proof (induction m p i n rule: fill_deadbeef_loop.induct)
  case (1 m p i n)
  show ?case
  proof (cases "i < n")
    case True
    then have "fill_deadbeef_loop (m(p + of_nat (4 * i) := 0xdeadbeef)) p (Suc i) n w =
        (m(p + of_nat (4 * i) := 0xdeadbeef)) w"
      using 1 by (intro 1(1)) auto
    moreover have "w \<noteq> p + of_nat (4 * i)" using 1(2) True by blast
    ultimately show ?thesis using True by (subst fill_deadbeef_loop.simps) (simp add: fun_upd_other)
  qed (subst fill_deadbeef_loop.simps, simp)
qed

lemma fill_deadbeef_other:
  assumes "unat b + len \<le> 2 ^ 32" and "unat w \<notin> byte_run b len"
  shows "fill_deadbeef m b len w = m w"
  unfolding fill_deadbeef_def
proof (rule fill_deadbeef_loop_other, intro allI impI notI)
  fix j
  assume j: "0 \<le> j \<and> j < len div 4" and w: "w = b + of_nat (4 * j)"
  have "4 * j < len" using j by simp
  moreover from this have "unat (of_nat (4 * j) :: u32) = 4 * j"
    using assms(1) by (intro unat_of_nat_u32) linarith
  ultimately have "unat w = unat b + 4 * j"
    using w assms(1) unat_add_lem [of b "of_nat (4 * j)"] by simp
  then show False using assms(2) \<open>4 * j < len\<close> by (simp add: byte_run_def)
qed

lemma page_ok_free_block:
  assumes ok: "page_ok m r fl" and b: "b \<in> blocks (PR_PAGEADDR r) (bsize r)" "b \<notin> set fl"
  defines "r' \<equiv> r\<lparr>freelist_offset := unat (b - PR_PAGEADDR r) mod 0x10000, nfree := (nfree r + 1) mod 0x10000\<rparr>"
  shows "page_ok ((fill_deadbeef m b (bsize r))(b := fhead r)) r' (b # fl)"
    and "nfree r' = Suc (length fl)" and "Suc (length fl) \<le> 4096 div bsize r"
    and "freelist_offset r' = unat (b - PR_PAGEADDR r)"
proof -
  have t: "PR_BLOCKTYPE r < 8" and P: "kpage (PR_PAGEADDR r)" using ok by (auto simp: page_ok_def)
  note addr = page_block_addr [OF ok b(1)]
  have sub: "unat (b - PR_PAGEADDR r) = unat b - unat (PR_PAGEADDR r)"
    using addr(1) by (intro unat_sub) (simp add: word_le_nat_alt)
  have "0 < bsize r" using sizes_props(2) [OF t] by (simp add: bsize_def)
  then have o: "unat b - unat (PR_PAGEADDR r) < 4096" using addr(1,2) by linarith
  show "nfree r' = Suc (length fl)"
    using page_ok_length(2) [OF ok] ok by (simp add: r'_def page_ok_def)
  show off: "freelist_offset r' = unat (b - PR_PAGEADDR r)"
    using sub o by (simp add: r'_def)
  let ?m = "(fill_deadbeef m b (bsize r))(b := fhead r)"
  have same: "?m c = m c" if "c \<in> set fl" for c
  proof -
    have c: "c \<in> blocks (PR_PAGEADDR r) (bsize r)" "c \<noteq> b" using that ok b by (auto simp: page_ok_def)
    have "unat c \<in> byte_run c (bsize r)" using \<open>0 < bsize r\<close> by (simp add: byte_run_def)
    then have "unat c \<notin> byte_run b (bsize r)"
      using blocks_disjoint [of c "PR_PAGEADDR r" "PR_BLOCKTYPE r" b] b(1) c t P unfolding bsize_def by blast
    moreover have "unat b + bsize r \<le> 2 ^ 32" using addr(2) P by (simp add: kpage_def)
    ultimately show ?thesis using c(2) fill_deadbeef_other [of b "bsize r" c m] by simp
  qed
  have "flist ?m (fhead r) fl" using flist_cong [of fl ?m m "fhead r"] same ok by (simp add: page_ok_def)
  moreover have "fhead r' = b"
    using off addr(6) o sub by (simp add: fhead_def INVALID_OFFSET_def) (simp add: r'_def PR_PAGEADDR_def)
  moreover have "PR_PAGEADDR r' = PR_PAGEADDR r" "bsize r' = bsize r" "PR_BLOCKTYPE r' = PR_BLOCKTYPE r"
    by (simp_all add: r'_def PR_PAGEADDR_def PR_BLOCKTYPE_def bsize_def)
  ultimately show page: "page_ok ?m r' (b # fl)"
    using ok b off o sub addr(3) \<open>nfree r' = _\<close> by (simp add: page_ok_def)
  show "Suc (length fl) \<le> 4096 div bsize r"
    using page_ok_length(1) [OF page] \<open>bsize r' = bsize r\<close> by simp
qed

lemma freelist_init_ok:
  assumes "kpage P" and "0 < sz" and "n * sz \<le> 4096" and "1 \<le> i" and "i \<le> n"
    and "flist m (P + of_nat ((i - 1) * sz)) (rev (map (\<lambda>j. P + of_nat (j * sz)) [0..<i]))"
  shows "\<exists>m'. freelist_init m P sz i n (P + of_nat ((i - 1) * sz)) = Some (m', P + of_nat ((n - 1) * sz)) \<and>
    flist m' (P + of_nat ((n - 1) * sz)) (rev (map (\<lambda>j. P + of_nat (j * sz)) [0..<n])) \<and>
    (\<forall>w. w \<notin> (\<lambda>j. P + of_nat (j * sz)) ` {..<n} \<longrightarrow> m' w = m w)"
  using assms(4-6)
proof (induction "n - i" arbitrary: i m)
  case 0
  then show ?case by (subst freelist_init.simps) auto
next
  case (Suc d)
  then have i: "i < n" by simp
  let ?a = "\<lambda>j. P + of_nat (j * sz)"
  have lt: "j * sz < 4096" if "j < n" for j
    using mult_le_mono1 [of "Suc j" n sz] that assms(2,3) by simp
  have inj: "?a j \<noteq> ?a i" if "j < i" for j
    using unat_page_offset(3) [OF assms(1) lt, of j] unat_page_offset(3) [OF assms(1) lt, of i] that i
      assms(2) by (metis less_trans mult_cancel2 nat_neq_iff not_gr_zero)
  let ?m = "m(?a i := ?a (i - 1))"
  have "flist ?m (?a (i - 1)) (rev (map ?a [0..<i]))"
    using Suc(5) inj by (subst flist_cong [of _ ?m m]) auto
  moreover have "?a i \<noteq> 0" by (rule unat_page_offset(2) [OF assms(1) lt [OF i]])
  ultimately have "flist ?m (?a (Suc i - 1)) (rev (map ?a [0..<Suc i]))" by simp
  moreover have "d = n - Suc i" "1 \<le> Suc i" "Suc i \<le> n" using Suc(2) i by simp_all
  ultimately obtain m' where m': "freelist_init ?m P sz (Suc i) n (?a (Suc i - 1)) = Some (m', ?a (n - 1))"
      "flist m' (?a (n - 1)) (rev (map ?a [0..<n]))" "\<forall>w. w \<notin> ?a ` {..<n} \<longrightarrow> m' w = ?m w"
    using Suc(1) [of "Suc i" ?m] by blast
  have "freelist_init m P sz i n (?a (i - 1)) = Some (m', ?a (n - 1))"
    using i m'(1) inj [of "i - 1"] Suc(3) by (subst freelist_init.simps) (simp add: Let_def)
  moreover have "\<forall>w. w \<notin> ?a ` {..<n} \<longrightarrow> m' w = m w" using m'(3) i by auto
  ultimately show ?case using m'(2) by blast
qed

subsection \<open>The table of page records\<close>

definition pr_used :: "kstate \<Rightarrow> nat \<Rightarrow> bool" where
  "pr_used k i \<longleftrightarrow> bit (pagerefs_inuse k ! (i div 32)) (i mod 32)"

lemma bit_test32 [simp]: "(w :: u32) AND push_bit n 1 = 0 \<longleftrightarrow> \<not> bit w n"
  by (simp add: push_bit_of_1 and_exp_eq_0_iff_not_bit)

lemma bit_test32_exp [simp]: "(w :: u32) AND 2 ^ n = 0 \<longleftrightarrow> \<not> bit w n"
  by (rule and_exp_eq_0_iff_not_bit)

lemma allocpageref_word_ok:
  assumes "\<exists>n. j \<le> n \<and> n < 32 \<and> \<not> bit w n"
  shows "\<exists>n. allocpageref_word w j = Some n \<and> j \<le> n \<and> n < 32 \<and> \<not> bit w n"
  using assms
proof (induction w j rule: allocpageref_word.induct)
  case (1 w j)
  then have j: "j < 32" by auto
  then have nz: "push_bit j (1 :: u32) \<noteq> 0" by (simp add: push_bit_of_1 exp_eq_zero_iff)
  show ?case
  proof (cases "bit w j")
    case True
    then have "\<exists>n. Suc j \<le> n \<and> n < 32 \<and> \<not> bit w n" using 1(2) by (metis Suc_leI le_neq_implies_less)
    then obtain n where "allocpageref_word w (Suc j) = Some n" "Suc j \<le> n" "n < 32" "\<not> bit w n"
      using 1(1) nz True by auto
    then show ?thesis using nz True by (intro exI [of _ n]) (subst allocpageref_word.simps, simp)
  next
    case False
    then show ?thesis using nz j by (intro exI [of _ j]) (subst allocpageref_word.simps, simp)
  qed
qed

lemma word_not_full: "w \<noteq> 0xffffffff \<Longrightarrow> \<exists>n < 32. \<not> bit (w :: u32) n"
proof (rule ccontr)
  assume "w \<noteq> 0xffffffff" and "\<not> (\<exists>n < 32. \<not> bit w n)"
  then have "w = mask 32" by (intro bit_word_eqI) (simp add: bit_mask_iff)
  then show False using \<open>w \<noteq> 0xffffffff\<close> by (simp add: mask_eq_exp_minus_1)
qed

lemma div_mod_32_eqD: "i div 32 = k div 32 \<Longrightarrow> i mod 32 = k mod 32 \<Longrightarrow> i = (k :: nat)"
  by (metis div_mult_mod_eq)

lemma allocpageref_loop_cases:
  assumes "length (pagerefs_inuse k) = 8"
  shows "(\<exists>p u. allocpageref_loop k i = Some (Some p, k\<lparr>pagerefs_inuse := u\<rparr>) \<and> p < 256 \<and> \<not> pr_used k p \<and>
      length u = 8 \<and> (\<forall>q. pr_used (k\<lparr>pagerefs_inuse := u\<rparr>) q \<longleftrightarrow> q = p \<or> pr_used k q)) \<or>
    allocpageref_loop k i = Some (None, k)"
  using assms
proof (induction k i rule: allocpageref_loop.induct)
  case (1 k i)
  let ?w = "pagerefs_inuse k ! i"
  consider "\<not> i < 8" | "i < 8" "?w = 0xffffffff" | "i < 8" "?w \<noteq> 0xffffffff" by blast
  then show ?case
  proof cases
    case 1
    then show ?thesis by (subst allocpageref_loop.simps) simp
  next
    case 2
    then show ?thesis using 1(1) [OF 2(1), of ?w] 1(2)
      by (subst (1 2) allocpageref_loop.simps) simp
  next
    case 3
    then obtain n where n: "allocpageref_word ?w 0 = Some n" "n < 32" "\<not> bit ?w n"
      using allocpageref_word_ok [of 0 ?w] word_not_full [of ?w] by auto
    have idx: "(i * 32 + n) div 32 = i" "(i * 32 + n) mod 32 = n" using n by simp_all
    let ?u = "(pagerefs_inuse k)[i := ?w OR push_bit n 1]"
    have "pr_used (k\<lparr>pagerefs_inuse := ?u\<rparr>) q \<longleftrightarrow> q = i * 32 + n \<or> pr_used k q" for q
    proof (cases "q = i * 32 + n")
      case True
      then show ?thesis using 3 1(2) idx n(2) by (simp add: pr_used_def bit_simps)
    next
      case False
      then show ?thesis using div_mod_32_eqD [of q "i * 32 + n"] 3 1(2) idx
        by (cases "q div 32 = i") (auto simp: pr_used_def bit_simps)
    qed
    moreover have "allocpageref_loop k i = Some (Some (i * 32 + n), k\<lparr>pagerefs_inuse := ?u\<rparr>)"
      using 3 1(2) n by (subst allocpageref_loop.simps) simp
    moreover have "\<not> pr_used k (i * 32 + n)" "i * 32 + n < 256" using idx n 3 by (simp_all add: pr_used_def)
    moreover have "length ?u = 8" using 1(2) by simp
    ultimately show ?thesis by blast
  qed
qed

lemma allocpageref_cases:
  assumes "length (pagerefs_inuse k) = 8"
  obtains "allocpageref k = Some (None, k)"
  | p u where "allocpageref k = Some (Some p, k\<lparr>pagerefs_inuse := u\<rparr>)" "p < 256" "\<not> pr_used k p"
      "length u = 8" "\<And>q. pr_used (k\<lparr>pagerefs_inuse := u\<rparr>) q \<longleftrightarrow> q = p \<or> pr_used k q"
  using allocpageref_loop_cases [OF assms, of 0] unfolding allocpageref_def by blast

lemma freepageref_ok:
  assumes "length (pagerefs_inuse k) = 8" and "j < 256" and "pr_used k j"
  obtains u where "freepageref j k = Some (k\<lparr>pagerefs_inuse := u\<rparr>)" and "length u = 8"
    and "\<forall>q. pr_used (k\<lparr>pagerefs_inuse := u\<rparr>) q \<longleftrightarrow> q \<noteq> j \<and> pr_used k q"
proof (rule that)
  let ?u = "(pagerefs_inuse k)[j div 32 := pagerefs_inuse k ! (j div 32) AND NOT (push_bit (j mod 32) 1)]"
  show "freepageref j k = Some (k\<lparr>pagerefs_inuse := ?u\<rparr>)"
    using assms by (simp add: freepageref_def pr_used_def)
  show "length ?u = 8" using assms(1) by simp
  show "\<forall>q. pr_used (k\<lparr>pagerefs_inuse := ?u\<rparr>) q \<longleftrightarrow> q \<noteq> j \<and> pr_used k q"
  proof
    fix q
    show "pr_used (k\<lparr>pagerefs_inuse := ?u\<rparr>) q \<longleftrightarrow> q \<noteq> j \<and> pr_used k q"
      using div_mod_32_eqD [of q j] assms
      by (cases "q div 32 = j div 32") (auto simp: pr_used_def bit_simps)
  qed
qed

definition nxs :: "kstate \<Rightarrow> nat \<Rightarrow> nat option" where
  "nxs k = (\<lambda>i. next_samesize (pagerefs k ! i))"

definition nxa :: "kstate \<Rightarrow> nat \<Rightarrow> nat option" where
  "nxa k = (\<lambda>i. next_all (pagerefs k ! i))"

definition btype :: "kstate \<Rightarrow> nat \<Rightarrow> nat" where
  "btype k i = PR_BLOCKTYPE (pagerefs k ! i)"

definition pg :: "kstate \<Rightarrow> nat \<Rightarrow> vaddr" where
  "pg k i = PR_PAGEADDR (pagerefs k ! i)"

text \<open>
  The records in use are exactly those on the list of all pages, and the list of each block
  size is the part of that list with the block size.
\<close>

definition prefs_ok :: "kstate \<Rightarrow> nat list \<Rightarrow> bool" where
  "prefs_ok k al \<longleftrightarrow> length (pagerefs k) = 256 \<and> length (pagerefs_inuse k) = 8 \<and> length (sizebases k) = 8 \<and>
     distinct al \<and> set al \<subseteq> {..<256} \<and> (\<forall>i < 256. pr_used k i \<longleftrightarrow> i \<in> set al) \<and>
     plist (nxa k) (allbase k) al \<and>
     (\<forall>t < 8. plist (nxs k) (sizebases k ! t) (filter (\<lambda>i. btype k i = t) al))"

lemma subpage_find_result:
  assumes "plist (nxs k) p xs" and "\<forall>x \<in> set xs. x < length (pagerefs k) \<and> btype k x = t"
  shows "(\<exists>i \<in> set xs. subpage_find k t p = Some (Some i) \<and> nfree (pagerefs k ! i) > 0) \<or>
    subpage_find k t p = Some None"
  using assms
proof (induction xs arbitrary: p)
  case Nil
  then show ?case by (simp add: subpage_find.simps)
next
  case (Cons x xs)
  then have p: "p = Some x" and x: "x < length (pagerefs k)" "PR_BLOCKTYPE (pagerefs k ! x) = t"
    by (simp_all add: btype_def)
  have "subpage_find k t p = (if nfree (pagerefs k ! x) > 0 then Some (Some x) else subpage_find k t (nxs k x))"
    using x unfolding p by (subst subpage_find.simps) (simp add: nxs_def)
  then show ?case using Cons(1) [of "nxs k x"] Cons(2,3) by auto
qed

lemma page_contains_iff:
  assumes "kpage P"
  shows "(a :: u32) \<ge> P \<and> a < P + 4096 \<longleftrightarrow> unat P \<le> unat a \<and> unat a < unat P + 4096"
proof -
  have "unat (P + 4096) = unat P + 4096"
    using assms unat_add_lem [of P 4096] by (simp add: kpage_def)
  then show ?thesis by (simp add: word_le_nat_alt word_less_nat_alt)
qed

lemma subpage_locate_result:
  assumes "plist (nxa k) p xs"
    and "\<forall>x \<in> set xs. x < length (pagerefs k) \<and> btype k x < 8 \<and> kpage (pg k x)"
  shows "(\<exists>i \<in> set xs. subpage_locate k a p = Some (Some i) \<and> unat a \<in> page_run (pg k i) 1) \<or>
    subpage_locate k a p = Some None \<and> (\<forall>i \<in> set xs. unat a \<notin> page_run (pg k i) 1)"
  using assms
proof (induction xs arbitrary: p)
  case Nil
  then show ?case by (simp add: subpage_locate.simps)
next
  case (Cons x xs)
  then have p: "p = Some x" and x: "x < length (pagerefs k)" "PR_BLOCKTYPE (pagerefs k ! x) < 8" "kpage (pg k x)"
    by (simp_all add: btype_def)
  have "subpage_locate k a p = (if unat a \<in> page_run (pg k x) 1 then Some (Some x) else subpage_locate k a (nxa k x))"
    using x(1,2) page_contains_iff [OF x(3), of a] unfolding p
    by (subst subpage_locate.simps) (simp add: nxa_def page_run_def pg_def Let_def)
  then show ?case using Cons(1) [of "nxa k x"] Cons(2,3) by auto
qed

lemma remove_samesize_walk:
  assumes "get_samesize k t guy = Some cur" and "plist (nxs k) cur (ys @ pr # zs)"
    and "\<forall>x \<in> set (ys @ pr # zs). x < length (pagerefs k)" and "pr \<notin> set ys"
  shows "remove_samesize pr t guy k = put_samesize (if ys = [] then guy else Some (last ys)) t (nxs k pr) k"
  using assms
proof (induction ys arbitrary: guy cur)
  case Nil
  then show ?case by (simp add: remove_samesize.simps [of pr t guy k] nxs_def)
next
  case (Cons y ys)
  then have "get_samesize k t (Some y) = Some (nxs k y)" by (simp add: get_samesize_def nxs_def)
  then have "remove_samesize pr t (Some y) k =
      put_samesize (if ys = [] then Some y else Some (last ys)) t (nxs k pr) k"
    using Cons(3-5) by (intro Cons(1)) auto
  then show ?case using Cons(2-5) by (simp add: remove_samesize.simps [of pr t guy k])
qed

lemma remove_all_walk:
  assumes "get_all k guy = Some cur" and "plist (nxa k) cur (ys @ pr # zs)"
    and "\<forall>x \<in> set (ys @ pr # zs). x < length (pagerefs k)" and "pr \<notin> set ys"
  shows "remove_all pr guy k = put_all (if ys = [] then guy else Some (last ys)) (nxa k pr) k"
  using assms
proof (induction ys arbitrary: guy cur)
  case Nil
  then show ?case by (simp add: remove_all.simps [of pr guy k] nxa_def)
next
  case (Cons y ys)
  then have "get_all k (Some y) = Some (nxa k y)" by (simp add: get_all_def nxa_def)
  then have "remove_all pr (Some y) k =
      put_all (if ys = [] then Some y else Some (last ys)) (nxa k pr) k"
    using Cons(3-5) by (intro Cons(1)) auto
  then show ?case using Cons(2-5) by (simp add: remove_all.simps [of pr guy k])
qed

text \<open>Two tables that differ in the link fields only.\<close>

definition same_core :: "pageref list \<Rightarrow> pageref list \<Rightarrow> bool" where
  "same_core pf pf' \<longleftrightarrow> length pf = length pf' \<and>
     (\<forall>i < length pf. pageaddr_and_blocktype (pf ! i) = pageaddr_and_blocktype (pf' ! i) \<and>
        freelist_offset (pf ! i) = freelist_offset (pf' ! i) \<and> nfree (pf ! i) = nfree (pf' ! i))"

lemma same_core_refl [simp]: "same_core pf pf"
  by (simp add: same_core_def)

lemma same_core_trans: "same_core a b \<Longrightarrow> same_core b c \<Longrightarrow> same_core a c"
  by (simp add: same_core_def)

lemma same_core_upd [simp]:
  "same_core pf (pf[j := (pf ! j)\<lparr>next_samesize := x\<rparr>])" "same_core pf (pf[j := (pf ! j)\<lparr>next_all := x\<rparr>])"
  by (cases "j < length pf"; auto simp: same_core_def nth_list_update list_update_beyond)+

lemma same_core_page:
  assumes "same_core (pagerefs k) (pagerefs k')" and "i < length (pagerefs k)"
  shows "btype k' i = btype k i" and "pg k' i = pg k i" and "bsize (pagerefs k' ! i) = bsize (pagerefs k ! i)"
    and "page_ok m (pagerefs k' ! i) fl = page_ok m (pagerefs k ! i) fl"
  using assms
  by (auto simp: same_core_def btype_def pg_def bsize_def page_ok_def fhead_def PR_BLOCKTYPE_def PR_PAGEADDR_def)

lemma remove_samesize_ok:
  assumes len: "length (sizebases k) = 8" "t < 8" and xs: "plist (nxs k) (sizebases k ! t) xs"
    "distinct xs" "\<forall>x \<in> set xs. x < length (pagerefs k)" "pr \<in> set xs"
  obtains pf sb where "remove_samesize pr t None k = Some (k\<lparr>pagerefs := pf, sizebases := sb\<rparr>)"
    and "same_core (pagerefs k) pf" and "length sb = 8" and "\<forall>i. next_all (pf ! i) = next_all (pagerefs k ! i)"
    and "\<forall>i. i \<notin> set xs \<longrightarrow> pf ! i = pagerefs k ! i" and "\<forall>u. u \<noteq> t \<longrightarrow> sb ! u = sizebases k ! u"
    and "plist (\<lambda>i. next_samesize (pf ! i)) (sb ! t) (remove1 pr xs)"
proof -
  obtain ys zs where split: "xs = ys @ pr # zs" "pr \<notin> set ys" using split_list_first [OF xs(4)] by blast
  then have rem: "remove1 pr xs = ys @ zs" by (simp add: remove1_append)
  have walk: "remove_samesize pr t None k = put_samesize (if ys = [] then None else Some (last ys)) t (nxs k pr) k"
    by (rule remove_samesize_walk [where cur = "sizebases k ! t" and zs = zs])
      (use len xs split in \<open>auto simp: get_samesize_def\<close>)
  show thesis
  proof (cases "ys = []")
    case True
    then show thesis
      using that [where pf = "pagerefs k" and sb = "(sizebases k)[t := nxs k pr]"] walk len xs(1) rem split
      by (cases k) (auto simp: put_samesize_def nxs_def nth_list_update)
  next
    case False
    then obtain ws y where ys: "ys = ws @ [y]" by (metis rev_exhaust)
    let ?pf = "(pagerefs k)[y := (pagerefs k ! y)\<lparr>next_samesize := nxs k pr\<rparr>]"
    have y: "y < length (pagerefs k)" using xs(3) split ys by simp
    have nx: "(\<lambda>i. next_samesize (?pf ! i)) = (nxs k)(y := nxs k pr)"
      using y by (auto simp: fun_eq_iff nxs_def nth_list_update)
    have "plist ((nxs k)(y := nxs k pr)) (sizebases k ! t) (ws @ y # zs)"
      using xs(1,2) split ys by (intro plist_remove_mid) auto
    then show thesis
      using that [where pf = ?pf and sb = "sizebases k"] walk len y ys split rem nx
      by (cases k) (auto simp: put_samesize_def nxs_def nth_list_update)
  qed
qed

lemma remove_all_ok:
  assumes xs: "plist (nxa k) (allbase k) xs" "distinct xs" "\<forall>x \<in> set xs. x < length (pagerefs k)" "pr \<in> set xs"
  obtains pf ab where "remove_all pr None k = Some (k\<lparr>pagerefs := pf, allbase := ab\<rparr>)"
    and "same_core (pagerefs k) pf" and "\<forall>i. next_samesize (pf ! i) = next_samesize (pagerefs k ! i)"
    and "plist (\<lambda>i. next_all (pf ! i)) ab (remove1 pr xs)"
proof -
  obtain ys zs where split: "xs = ys @ pr # zs" "pr \<notin> set ys" using split_list_first [OF xs(4)] by blast
  then have rem: "remove1 pr xs = ys @ zs" by (simp add: remove1_append)
  have walk: "remove_all pr None k = put_all (if ys = [] then None else Some (last ys)) (nxa k pr) k"
    by (rule remove_all_walk [where cur = "allbase k" and zs = zs])
      (use xs split in \<open>auto simp: get_all_def\<close>)
  show thesis
  proof (cases "ys = []")
    case True
    then show thesis
      using that [where pf = "pagerefs k" and ab = "nxa k pr"] walk xs(1) rem split
      by (cases k) (auto simp: put_all_def nxa_def)
  next
    case False
    then obtain ws y where ys: "ys = ws @ [y]" by (metis rev_exhaust)
    let ?pf = "(pagerefs k)[y := (pagerefs k ! y)\<lparr>next_all := nxa k pr\<rparr>]"
    have y: "y < length (pagerefs k)" using xs(3) split ys by simp
    have nx: "(\<lambda>i. next_all (?pf ! i)) = (nxa k)(y := nxa k pr)"
      using y by (auto simp: fun_eq_iff nxa_def nth_list_update)
    have "plist ((nxa k)(y := nxa k pr)) (allbase k) (ws @ y # zs)"
      using xs(1,2) split ys by (intro plist_remove_mid) auto
    then show thesis
      using that [where pf = ?pf and ab = "allbase k"] walk y ys split rem nx
      by (cases k) (auto simp: put_all_def nxa_def nth_list_update)
  qed
qed

end
