(* ===== verification/Kmalloc_Correct.thy ===== *)
theory Kmalloc_Correct
  imports Kmalloc_Inv
begin

text \<open>
  Correctness of the kernel heap.  \<open>heap_inv k L X\<close> says that in state \<open>k\<close> the live blocks of
  the heap include those of \<open>L\<close> (address to size) and that the page runs of \<open>X\<close> belong to other
  users of the page allocator.  \<open>kmalloc\<close> and \<open>kfree\<close> never fail an assertion in such a state,
  and they keep the relation; this discharges the contract \<open>kernel_heap\<close>.

  A page that was stolen from RAM before \<open>vm_bootstrap\<close> must never become entirely free,
  because it cannot be given back to the coremap; the invariant asks that such a page
  contains a block outside \<open>L\<close> that stays allocated.
\<close>

subsection \<open>Invariant\<close>

definition boot_pinned :: "kstate \<Rightarrow> (u32 \<rightharpoonup> nat) \<Rightarrow> nat \<Rightarrow> u32 list \<Rightarrow> bool" where
  "boot_pinned k L i f \<longleftrightarrow> unat (pg k i) + 4096 \<le> unat (firstaddr (kvm k)) + 2 ^ 31 \<and>
     (\<exists>b \<in> blocks (pg k i) (bsize (pagerefs k ! i)). b \<notin> set f \<and> b \<notin> dom L)"

definition live_small :: "kstate \<Rightarrow> nat list \<Rightarrow> (nat \<Rightarrow> u32 list) \<Rightarrow> u32 \<Rightarrow> nat \<Rightarrow> bool" where
  "live_small k al fl p n \<longleftrightarrow> (\<exists>i \<in> set al. p \<in> blocks (pg k i) (bsize (pagerefs k ! i)) \<and>
     p \<notin> set (fl i) \<and> n \<le> bsize (pagerefs k ! i))"

definition live_large :: "kstate \<Rightarrow> (u32 \<rightharpoonup> nat) \<Rightarrow> nat list \<Rightarrow> (u32 \<rightharpoonup> nat) \<Rightarrow> u32 \<Rightarrow> nat \<Rightarrow> bool" where
  "live_large k K al X p n \<longleftrightarrow> p \<notin> dom X \<and> p \<notin> pg k ` set al \<and> (\<exists>np. K p = Some np \<and> n \<le> 4096 * np)"

definition heap_ok :: "kstate \<Rightarrow> (u32 \<rightharpoonup> nat) \<Rightarrow> nat list \<Rightarrow> (nat \<Rightarrow> u32 list) \<Rightarrow>
    (u32 \<rightharpoonup> nat) \<Rightarrow> (u32 \<rightharpoonup> nat) \<Rightarrow> bool" where
  "heap_ok k K al fl L X \<longleftrightarrow> kp_rel (kvm k) K \<and> X \<subseteq>\<^sub>m K \<and> prefs_ok k al \<and> inj_on (pg k) (set al) \<and>
     (\<forall>i \<in> set al. page_ok (kword k) (pagerefs k ! i) (fl i) \<and> pg k i \<notin> dom X \<and>
        (K (pg k i) = Some 1 \<or> boot_pinned k L i (fl i))) \<and>
     (\<forall>p n. L p = Some n \<longrightarrow> live_small k al fl p n \<or> live_large k K al X p n)"

definition heap_inv :: "kstate \<Rightarrow> (u32 \<rightharpoonup> nat) \<Rightarrow> (u32 \<rightharpoonup> nat) \<Rightarrow> bool" where
  "heap_inv k L X \<longleftrightarrow> (\<exists>K al fl. heap_ok k K al fl L X)"

definition protected :: "(u32 \<rightharpoonup> nat) \<Rightarrow> (u32 \<rightharpoonup> nat) \<Rightarrow> u32 \<Rightarrow> bool" where
  "protected L X w \<longleftrightarrow> (\<exists>q b. L q = Some b \<and> unat w \<in> byte_run q b) \<or>
     (\<exists>q m. X q = Some m \<and> unat w \<in> page_run q m)"

lemma protected_block: "L q = Some b \<Longrightarrow> unat w \<in> byte_run q b \<Longrightarrow> protected L X w"
  by (auto simp: protected_def)

lemma protected_page: "X q = Some m \<Longrightarrow> unat w \<in> page_run q m \<Longrightarrow> protected L X w"
  by (auto simp: protected_def)

lemma kp_rel_lower:
  assumes "kp_rel v K" and "K va = Some n"
  shows "unat (firstaddr v) + 2 ^ 31 \<le> unat va"
proof -
  let ?A = "\<lambda>pa. K (PADDR_TO_KVADDR pa)"
  have rel: "cm_rel v ?A" and A: "?A (KVADDR_TO_PADDR va) = Some n"
    using assms by (simp_all add: kp_rel_def)
  obtain s where "s < num_of_pages v" "KVADDR_TO_PADDR va = frame_addr v s"
    by (rule cm_rel_frame [OF rel A])
  then have "unat (firstaddr v) \<le> unat (KVADDR_TO_PADDR va)"
    using unat_frame_addr [of v s] rel by (simp add: cm_rel_def)
  moreover have "unat va = unat (KVADDR_TO_PADDR va) + 2 ^ 31"
    using unat_kvaddr [of "KVADDR_TO_PADDR va"] cm_rel_shape [OF rel A] by simp
  ultimately show ?thesis by simp
qed

lemma heap_okD:
  assumes "heap_ok k K al fl L X"
  shows "kp_rel (kvm k) K" and "X \<subseteq>\<^sub>m K" and "prefs_ok k al" and "inj_on (pg k) (set al)"
    and "i \<in> set al \<Longrightarrow> page_ok (kword k) (pagerefs k ! i) (fl i)"
    and "i \<in> set al \<Longrightarrow> pg k i \<notin> dom X"
    and "i \<in> set al \<Longrightarrow> K (pg k i) = Some 1 \<or> boot_pinned k L i (fl i)"
    and "L p = Some n \<Longrightarrow> live_small k al fl p n \<or> live_large k K al X p n"
  using assms unfolding heap_ok_def by blast+

lemma heap_okI:
  assumes "kp_rel (kvm k) K" and "X \<subseteq>\<^sub>m K" and "prefs_ok k al" and "inj_on (pg k) (set al)"
    and "\<And>i. i \<in> set al \<Longrightarrow> page_ok (kword k) (pagerefs k ! i) (fl i)"
    and "\<And>i. i \<in> set al \<Longrightarrow> pg k i \<notin> dom X"
    and "\<And>i. i \<in> set al \<Longrightarrow> K (pg k i) = Some 1 \<or> boot_pinned k L i (fl i)"
    and "\<And>p n. L p = Some n \<Longrightarrow> live_small k al fl p n \<or> live_large k K al X p n"
  shows "heap_ok k K al fl L X"
  using assms unfolding heap_ok_def by blast

lemma heap_ok_live:
  assumes ok: "heap_ok k K al fl L X"
    and pin: "\<And>i. i \<in> set al \<Longrightarrow> boot_pinned k L i (fl i) \<Longrightarrow> boot_pinned k L' i (fl i)"
    and live: "\<And>p n. L' p = Some n \<Longrightarrow> live_small k al fl p n \<or> live_large k K al X p n"
  shows "heap_ok k K al fl L' X"
proof (intro heap_okI heap_okD(1-6) [OF ok] live)
  show "K (pg k i) = Some 1 \<or> boot_pinned k L' i (fl i)" if "i \<in> set al" for i
    using heap_okD(7) [OF ok that] pin [OF that] by blast
qed

lemma prefs_index: "prefs_ok k al \<Longrightarrow> i \<in> set al \<Longrightarrow> i < length (pagerefs k)"
  by (auto simp: prefs_ok_def)

lemma page_kpage: "page_ok m (pagerefs k ! i) f \<Longrightarrow> kpage (pg k i)"
  by (simp add: page_ok_def pg_def)

lemma page_apart:
  assumes ok: "heap_ok k K al fl L X" and i: "i \<in> set al" and j: "j \<in> set al" and "i \<noteq> j"
  shows "page_run (pg k i) 1 \<inter> page_run (pg k j) 1 = {}"
proof (rule kpages_disjoint)
  show "pg k i \<noteq> pg k j" using heap_okD(4) [OF ok] i j \<open>i \<noteq> j\<close> by (auto dest: inj_onD)
qed (simp_all add: pg_def PR_PAGEADDR_aligned)

lemma page_run_apart:
  assumes ok: "heap_ok k K al fl L X" and i: "i \<in> set al" and p: "K p = Some np" and "p \<noteq> pg k i"
  shows "page_run (pg k i) 1 \<inter> page_run p np = {}"
proof (cases "K (pg k i) = Some 1")
  case True
  then show ?thesis using kp.run_disjoint [OF heap_okD(1) [OF ok] True p] \<open>p \<noteq> pg k i\<close> by simp
next
  case False
  then have "unat (pg k i) + 4096 \<le> unat (firstaddr (kvm k)) + 2 ^ 31"
    using heap_okD(7) [OF ok i] by (auto simp: boot_pinned_def)
  then show ?thesis
    using kp_rel_lower [OF heap_okD(1) [OF ok] p] by (auto simp: page_run_def)
qed

lemma block_start:
  assumes "page_ok m (pagerefs k ! i) f" and "b \<in> blocks (pg k i) (bsize (pagerefs k ! i))"
  shows "unat b \<in> page_run (pg k i) 1"
proof -
  have "16 \<le> bsize (pagerefs k ! i)"
    using assms(1) sizes_props(2) by (simp add: page_ok_def bsize_def)
  then show ?thesis
    using page_block_addr(1,2) [OF assms(1) assms(2) [unfolded pg_def]]
    by (auto simp: page_run_def pg_def)
qed

lemma block_in_page:
  assumes "page_ok m (pagerefs k ! i) f" and "b \<in> blocks (pg k i) (bsize (pagerefs k ! i))"
    and "n \<le> bsize (pagerefs k ! i)"
  shows "byte_run b n \<subseteq> page_run (pg k i) 1"
  using page_block_addr(1,2) [OF assms(1) assms(2) [unfolded pg_def]] assms(3)
  by (auto simp: byte_run_def page_run_def pg_def)

lemma live_cases:
  assumes ok: "heap_ok k K al fl L X" and "L p = Some n"
  obtains i where "i \<in> set al" "p \<in> blocks (pg k i) (bsize (pagerefs k ! i))" "p \<notin> set (fl i)"
      "n \<le> bsize (pagerefs k ! i)" "byte_run p n \<subseteq> page_run (pg k i) 1" "unat p \<in> page_run (pg k i) 1"
  | np where "p \<notin> dom X" "p \<notin> pg k ` set al" "K p = Some np" "n \<le> 4096 * np"
      "byte_run p n \<subseteq> page_run p np" "unat p \<in> page_run p np"
  using heap_okD(8) [OF assms]
proof
  assume "live_small k al fl p n"
  then obtain i where "i \<in> set al" "p \<in> blocks (pg k i) (bsize (pagerefs k ! i))" "p \<notin> set (fl i)"
      "n \<le> bsize (pagerefs k ! i)" by (auto simp: live_small_def)
  then show thesis using that(1) block_in_page [OF heap_okD(5) [OF ok]] block_start [OF heap_okD(5) [OF ok]] by blast
next
  assume "live_large k K al X p n"
  then obtain np where np: "p \<notin> dom X" "p \<notin> pg k ` set al" "K p = Some np" "n \<le> 4096 * np"
    by (auto simp: live_large_def)
  moreover have "0 < np" using kp.run_shape [OF heap_okD(1) [OF ok] np(3)] by simp
  ultimately show thesis using that(2) by (auto simp: byte_run_def page_run_def)
qed

lemma bsize_pos: "page_ok m r f \<Longrightarrow> 0 < bsize r"
  using sizes_props(2) [of "PR_BLOCKTYPE r"] by (auto simp: page_ok_def bsize_def)

lemma free_block_unprotected:
  assumes ok: "heap_ok k K al fl L X" and i: "i \<in> set al" and b: "b \<in> set (fl i)" and w: "protected L X w"
  shows "unat w \<notin> byte_run b (bsize (pagerefs k ! i))"
proof
  assume wb: "unat w \<in> byte_run b (bsize (pagerefs k ! i))"
  note page = heap_okD(5) [OF ok i]
  have bl: "b \<in> blocks (pg k i) (bsize (pagerefs k ! i))" using page b by (auto simp: page_ok_def pg_def)
  have wp: "unat w \<in> page_run (pg k i) 1" using block_in_page [OF page bl order_refl] wb by blast
  from w consider q n where "L q = Some n" "unat w \<in> byte_run q n" | q m where "X q = Some m" "unat w \<in> page_run q m"
    by (auto simp: protected_def)
  then show False
  proof cases
    case (1 q n)
    show False using ok 1(1)
    proof (cases rule: live_cases)
      case l: (1 j)
      then have "j = i" using page_apart [OF ok l(1) i] wp 1(2) by blast
      then have "byte_run q (bsize (pagerefs k ! i)) \<inter> byte_run b (bsize (pagerefs k ! i)) = {}"
        using blocks_disjoint [of q "pg k i" "btype k i" b] l(2,3) bl b page
        by (auto simp: bsize_def btype_def pg_def page_ok_def)
      then show False using 1(2) wb l(4) \<open>j = i\<close> by (auto simp: byte_run_def)
    next
      case l: (2 np)
      then have "q \<noteq> pg k i" using i by blast
      then show False using page_run_apart [OF ok i l(3)] wp 1(2) l(5) by blast
    qed
  next
    case (2 q m)
    then have "K q = Some m" "q \<noteq> pg k i" using heap_okD(2,6) [OF ok] i by (auto simp: map_le_def dom_def)
    then show False using page_run_apart [OF ok i, of q m] wp 2(2) by blast
  qed
qed

lemma heap_block_shape:
  assumes ok: "heap_ok k K al fl L X" and p: "L p = Some n"
  shows "p \<noteq> 0 \<and> 4 dvd unat p \<and> unat p + n \<le> 2 ^ 32"
  using ok p
proof (cases rule: live_cases)
  case (1 i)
  note page = heap_okD(5) [OF ok 1(1)]
  note addr = page_block_addr [OF page 1(2) [unfolded pg_def]]
  then show ?thesis using 1(4) page_kpage [OF page] by (auto simp: kpage_def pg_def)
next
  case (2 np)
  have "4096 dvd unat p" "p \<noteq> 0" "unat p + 4096 * np \<le> 2 ^ 32"
    using kp.run_shape [OF heap_okD(1) [OF ok] 2(3)] by simp_all
  moreover have "4 dvd unat p" using calculation(1) by (rule dvd_trans [rotated]) simp
  ultimately show ?thesis using 2(4) by simp
qed

lemma heap_block_disjoint:
  assumes ok: "heap_ok k K al fl L X" and p: "L p = Some a" and q: "L q = Some b" and "p \<noteq> q"
  shows "byte_run p a \<inter> byte_run q b = {}"
  using ok p
proof (cases rule: live_cases)
  case P: (1 i)
  show ?thesis
    using ok q
  proof (cases rule: live_cases)
    case Q: (1 j)
    show ?thesis
    proof (cases "i = j")
      case True
      have t: "btype k i < 8" "kpage (pg k i)"
        using heap_okD(5) [OF ok P(1)] by (simp_all add: page_ok_def btype_def pg_def)
      have "byte_run p (bsize (pagerefs k ! i)) \<inter> byte_run q (bsize (pagerefs k ! i)) = {}"
        using blocks_disjoint [of p "pg k i" "btype k i" q] P(2) Q(2) True \<open>p \<noteq> q\<close> t
        by (simp add: bsize_def btype_def)
      then show ?thesis using P(4) Q(4) True by (auto simp: byte_run_def)
    next
      case False
      then show ?thesis using page_apart [OF ok P(1) Q(1) False] P(5) Q(5) by blast
    qed
  next
    case Q: (2 np)
    then have "q \<noteq> pg k i" using P(1) by blast
    then show ?thesis using page_run_apart [OF ok P(1) Q(3)] P(5) Q(5) by blast
  qed
next
  case P: (2 np)
  show ?thesis
    using ok q
  proof (cases rule: live_cases)
    case Q: (1 j)
    then have "p \<noteq> pg k j" using P(2) by blast
    then show ?thesis using page_run_apart [OF ok Q(1) P(3)] P(5) Q(5) by blast
  next
    case Q: (2 nq)
    then show ?thesis using kp.run_disjoint [OF heap_okD(1) [OF ok] P(3) Q(3) \<open>p \<noteq> q\<close>] P(5) Q(5) by blast
  qed
qed

subsection \<open>Changing the free list of one page\<close>

abbreviation (input) recount :: "kstate \<Rightarrow> nat \<Rightarrow> nat \<Rightarrow> nat \<Rightarrow> pageref list" where
  "recount k i x y \<equiv> (pagerefs k)[i := (pagerefs k ! i)\<lparr>nfree := x, freelist_offset := y\<rparr>]"

lemma recount_fields:
  assumes "i < length (pagerefs k)"
  shows "nxs (k\<lparr>kword := m, pagerefs := recount k i x y\<rparr>) = nxs k"
    and "nxa (k\<lparr>kword := m, pagerefs := recount k i x y\<rparr>) = nxa k"
    and "btype (k\<lparr>kword := m, pagerefs := recount k i x y\<rparr>) = btype k"
    and "pg (k\<lparr>kword := m, pagerefs := recount k i x y\<rparr>) = pg k"
    and "bsize (recount k i x y ! j) = bsize (pagerefs k ! j)"
    and "pr_used (k\<lparr>kword := m, pagerefs := recount k i x y\<rparr>) = pr_used k"
  using assms
  by (auto simp: fun_eq_iff nxs_def nxa_def btype_def pg_def bsize_def pr_used_def
      PR_BLOCKTYPE_def PR_PAGEADDR_def nth_list_update)

lemma prefs_ok_recount:
  assumes "prefs_ok k al" and "i \<in> set al"
  shows "prefs_ok (k\<lparr>kword := m, pagerefs := recount k i x y\<rparr>) al"
  using assms recount_fields [OF prefs_index [OF assms]] by (simp add: prefs_ok_def)

lemma heap_ok_recount:
  assumes ok: "heap_ok k K al fl L X" and i: "i \<in> set al"
    and page: "page_ok m ((pagerefs k ! i)\<lparr>nfree := x, freelist_offset := y\<rparr>) f"
    and mem: "\<And>j a. j \<in> set al \<Longrightarrow> j \<noteq> i \<Longrightarrow> a \<in> blocks (pg k j) (bsize (pagerefs k ! j)) \<Longrightarrow> m a = kword k a"
    and pin: "\<And>j. j \<in> set al \<Longrightarrow> boot_pinned k L j (fl j) \<Longrightarrow> boot_pinned k L' j ((fl(i := f)) j)"
    and live: "\<And>p n. L' p = Some n \<Longrightarrow> live_small k al (fl(i := f)) p n \<or> live_large k K al X p n"
  shows "heap_ok (k\<lparr>kword := m, pagerefs := recount k i x y\<rparr>) K al (fl(i := f)) L' X"
proof -
  note fields = recount_fields [OF prefs_index [OF heap_okD(3) [OF ok] i]]
  let ?k = "k\<lparr>kword := m, pagerefs := recount k i x y\<rparr>"
  have bs: "bsize (pagerefs ?k ! j) = bsize (pagerefs k ! j)" for j using fields(5) by simp
  have pgs: "page_ok m (pagerefs ?k ! j) ((fl(i := f)) j)" if "j \<in> set al" for j
  proof (cases "j = i")
    case True
    then show ?thesis using page prefs_index [OF heap_okD(3) [OF ok] i] by simp
  next
    case False
    have "page_ok m (pagerefs k ! j) (fl j) = page_ok (kword k) (pagerefs k ! j) (fl j)"
      by (rule page_ok_cong) (use mem [OF that False] in \<open>simp add: pg_def\<close>)
    then show ?thesis using False heap_okD(5) [OF ok that] by simp
  qed
  have pin': "boot_pinned ?k M j g = boot_pinned k M j g" for M j g
    by (simp add: boot_pinned_def fields(4,5))
  have live': "live_small ?k al g p n = live_small k al g p n" "live_large ?k K al X p n = live_large k K al X p n"
    for g p n by (simp_all add: live_small_def live_large_def fields(4,5))
  show ?thesis
    unfolding heap_ok_def
  proof (intro conjI ballI allI impI)
    show "prefs_ok ?k al" by (rule prefs_ok_recount [OF heap_okD(3) [OF ok] i])
    fix j assume j: "j \<in> set al"
    show "page_ok (kword ?k) (pagerefs ?k ! j) ((fl(i := f)) j)" using pgs [OF j] by simp
    show "K (pg ?k j) = Some 1 \<or> boot_pinned ?k L' j ((fl(i := f)) j)"
      using heap_okD(7) [OF ok j] pin [OF j] unfolding pin' fields(4) by blast
  next
    fix p n assume "L' p = Some n"
    then show "live_small ?k al (fl(i := f)) p n \<or> live_large ?k K al X p n" unfolding live' by (rule live)
  qed (use heap_okD(1,2,4,6) [OF ok] fields(4) in auto)
qed

lemma live_unique_page:
  assumes ok: "heap_ok k K al fl L X" and i: "i \<in> set al" and "L b = Some n" and "unat b \<in> page_run (pg k i) 1"
  shows "b \<in> blocks (pg k i) (bsize (pagerefs k ! i)) \<and> b \<notin> set (fl i) \<and> n \<le> bsize (pagerefs k ! i)"
  using ok assms(3)
proof (cases rule: live_cases)
  case (1 j)
  then have "j = i" using page_apart [OF ok 1(1) i] assms(4) by blast
  then show ?thesis using 1 by simp
next
  case (2 np)
  then have "b \<noteq> pg k i" using i by blast
  then show ?thesis using page_run_apart [OF ok i 2(3)] 2(6) assms(4) by blast
qed

lemma heap_doalloc:
  assumes ok: "heap_ok k K al fl L X" and i: "i \<in> set al" and f: "fl i = b # f"
    and sz: "sz \<le> bsize (pagerefs k ! i)"
  obtains k' where "subpage_doalloc i k = Some (b, k')" and "b \<noteq> 0" and "L b = None"
    and "heap_ok k' K al (fl(i := f)) (L(b \<mapsto> sz)) X" and "kword k' = kword k"
proof -
  note page = heap_okD(5) [OF ok i]
  have idx: "i < length (pagerefs k)" by (rule prefs_index [OF heap_okD(3) [OF ok] i])
  have b: "b \<in> blocks (pg k i) (bsize (pagerefs k ! i))" "b \<notin> set f" "b \<noteq> 0"
    using page f by (auto simp: page_ok_def pg_def)
  obtain o' where step: "subpage_doalloc i k = Some (b, k\<lparr>pagerefs := recount k i (length f) o'\<rparr>)"
      and page': "page_ok (kword k) ((pagerefs k ! i)\<lparr>nfree := length f, freelist_offset := o'\<rparr>) f"
    using subpage_doalloc_ok [OF idx refl] page f by metis
  have fresh: "L b = None"
    using live_unique_page [OF ok i _ block_start [OF page b(1)]] f by (cases "L b") auto
  have "heap_ok (k\<lparr>kword := kword k, pagerefs := recount k i (length f) o'\<rparr>) K al (fl(i := f)) (L(b \<mapsto> sz)) X"
  proof (rule heap_ok_recount [OF ok i page'])
    show "boot_pinned k (L(b \<mapsto> sz)) j ((fl(i := f)) j)" if j: "j \<in> set al" "boot_pinned k L j (fl j)" for j
    proof -
      obtain c where c: "c \<in> blocks (pg k j) (bsize (pagerefs k ! j))" "c \<notin> set (fl j)" "c \<notin> dom L"
        using j(2) by (auto simp: boot_pinned_def)
      have "c \<noteq> b"
      proof
        assume "c = b"
        then have "i = j"
          using page_apart [OF ok i j(1)] block_start [OF page b(1)]
            block_start [OF heap_okD(5) [OF ok j(1)] c(1)] by blast
        then show False using c(2) f \<open>c = b\<close> by simp
      qed
      then show ?thesis using c j(2) f by (auto simp: boot_pinned_def)
    qed
    show "live_small k al (fl(i := f)) p n \<or> live_large k K al X p n" if "(L(b \<mapsto> sz)) p = Some n" for p n
    proof (cases "p = b")
      case True
      then show ?thesis using that b sz i by (auto simp: live_small_def)
    next
      case False
      then show ?thesis using heap_okD(8) [OF ok, of p n] that f by (auto simp: live_small_def)
    qed
  qed simp
  then show thesis using that [OF _ b(3) fresh] step by simp
qed

subsection \<open>A fresh page\<close>

lemma alloc_kpages_coremap:
  assumes "kp_rel v K" and "alloc_kpages n v = Some (va, v')"
  shows "firstaddr v' = firstaddr v"
proof -
  have rel: "cm_rel v (\<lambda>pa. K (PADDR_TO_KVADDR pa))" using assms(1) by (simp add: kp_rel_def)
  obtain pa where "coremap_alloc n v = Some (pa, v')"
    using assms(2) cm_rel_flag [OF rel] by (auto simp: alloc_kpages_def getppages_def bind_Some_iff)
  then show ?thesis by - (rule coremap_alloc_run [OF rel, of n]; auto)
qed

lemma free_kpages_coremap:
  assumes "kp_rel v K" and "K va = Some n" and "free_kpages va v = Some v'"
  shows "firstaddr v' = firstaddr v"
proof -
  have rel: "cm_rel v (\<lambda>pa. K (PADDR_TO_KVADDR pa))" using assms(1) by (simp add: kp_rel_def)
  show ?thesis
    using assms(2,3) coremap_dealloc_run [OF rel, of "KVADDR_TO_PADDR va" n]
    by (fastforce simp: free_kpages_def)
qed

lemma heap_ok_kvm:
  assumes ok: "heap_ok k K al fl L X" and rel: "kp_rel v K'" and "firstaddr v = firstaddr (kvm k)"
    and sub: "X' \<subseteq>\<^sub>m K'" and pages: "\<And>i. i \<in> set al \<Longrightarrow> pg k i \<notin> dom X' \<and> K' (pg k i) = K (pg k i)"
    and live: "\<And>p n. live_large k K al X p n \<Longrightarrow> L p = Some n \<Longrightarrow> live_large k K' al X' p n"
  shows "heap_ok (k\<lparr>kvm := v\<rparr>) K' al fl L X'"
proof -
  have eqs: "nxs (k\<lparr>kvm := v\<rparr>) = nxs k" "nxa (k\<lparr>kvm := v\<rparr>) = nxa k" "btype (k\<lparr>kvm := v\<rparr>) = btype k"
      "pg (k\<lparr>kvm := v\<rparr>) = pg k" "pr_used (k\<lparr>kvm := v\<rparr>) = pr_used k"
    by (auto simp: nxs_def nxa_def btype_def pg_def pr_used_def fun_eq_iff)
  have prefs: "prefs_ok (k\<lparr>kvm := v\<rparr>) al" using heap_okD(3) [OF ok] by (simp add: prefs_ok_def eqs)
  have pin: "boot_pinned (k\<lparr>kvm := v\<rparr>) L i f = boot_pinned k L i f" for i f
    using assms(3) by (simp add: boot_pinned_def eqs)
  have lives: "live_small (k\<lparr>kvm := v\<rparr>) al fl p n = live_small k al fl p n"
      "live_large (k\<lparr>kvm := v\<rparr>) K' al X' p n = live_large k K' al X' p n" for p n
    by (simp_all add: live_small_def live_large_def eqs)
  show ?thesis
    using heap_okD(4,5,7,8) [OF ok] rel sub pages live prefs
    unfolding heap_ok_def pin lives eqs by (fastforce simp: pin lives)
qed

lemma rev_blocks: "set (rev (map (\<lambda>j. P + of_nat (j * sz)) [0..<4096 div sz])) = blocks P sz"
  by (auto simp: blocks_def)

lemma fresh_page_ok:
  assumes P: "kpage P" and t: "t < 8" and m: "m P = 0"
  obtains m' where "freelist_init m P (sizes ! t) 1 (4096 div sizes ! t) P =
      Some (m', P + of_nat ((4096 div sizes ! t - 1) * sizes ! t))"
    and "unat (P + of_nat ((4096 div sizes ! t - 1) * sizes ! t) - P) mod 0x10000 =
      (4096 div sizes ! t - 1) * sizes ! t"
    and "\<And>w. w \<notin> blocks P (sizes ! t) \<Longrightarrow> m' w = m w"
    and "page_ok m' (r\<lparr>pageaddr_and_blocktype := MKPAB P t, nfree := 4096 div sizes ! t,
           freelist_offset := (4096 div sizes ! t - 1) * sizes ! t, next_samesize := x, next_all := y\<rparr>)
         (rev (map (\<lambda>j. P + of_nat (j * sizes ! t)) [0..<4096 div sizes ! t]))"
proof -
  let ?sz = "sizes ! t" and ?n = "4096 div sizes ! t"
  note sz = sizes_props [OF t]
  have al: "4096 dvd unat P" using P by (simp add: kpage_def)
  have "flist m (P + of_nat ((1 - 1) * ?sz)) (rev (map (\<lambda>j. P + of_nat (j * ?sz)) [0..<1]))"
    using m P by (auto simp: kpage_def)
  then obtain m' where m': "freelist_init m P ?sz 1 ?n P = Some (m', P + of_nat ((?n - 1) * ?sz))"
      "flist m' (P + of_nat ((?n - 1) * ?sz)) (rev (map (\<lambda>j. P + of_nat (j * ?sz)) [0..<?n]))"
      "\<forall>w. w \<notin> (\<lambda>j. P + of_nat (j * ?sz)) ` {..<?n} \<longrightarrow> m' w = m w"
    using freelist_init_ok [OF P, of ?sz ?n 1 m] sz by auto
  have lt: "(?n - 1) * ?sz < 4096" using block_offset [OF t, of "?n - 1"] sz by simp
  have dist: "distinct (rev (map (\<lambda>j. P + of_nat (j * ?sz)) [0..<?n]))"
    by (intro card_distinct)
      (simp only: rev_blocks card_blocks [OF t P] length_rev length_map length_upt diff_zero)
  show thesis
  proof (rule that [OF m'(1)])
    show "unat (P + of_nat ((?n - 1) * ?sz) - P) mod 0x10000 = (?n - 1) * ?sz"
      using unat_page_offset(3) [OF P lt] lt by simp
    show "w \<notin> blocks P ?sz \<Longrightarrow> m' w = m w" for w using m'(3) by (simp add: blocks_def)
  qed (use m'(2) dist lt P t PR_PAGEADDR_MKPAB [OF al, of t] PR_BLOCKTYPE_MKPAB [OF al t] rev_blocks [of P ?sz]
      in \<open>simp add: page_ok_def fhead_def PR_PAGEADDR_def PR_BLOCKTYPE_def bsize_def INVALID_OFFSET_def\<close>)
qed

text \<open>The state in which a record for a fresh page has been linked into both lists.\<close>

definition link_page :: "kstate \<Rightarrow> vm_state \<Rightarrow> u32 list \<Rightarrow> (u32 \<Rightarrow> u32) \<Rightarrow> nat \<Rightarrow> pageref \<Rightarrow> nat \<Rightarrow> kstate" where
  "link_page k v u m i r t = k\<lparr>kvm := v, pagerefs_inuse := u, kword := m, pagerefs := (pagerefs k)[i := r],
     sizebases := (sizebases k)[t := Some i], allbase := Some i\<rparr>"

lemma link_page_simps [simp]:
  "kvm (link_page k v u m i r t) = v" "kword (link_page k v u m i r t) = m"
  "pagerefs (link_page k v u m i r t) = (pagerefs k)[i := r]"
  "pagerefs_inuse (link_page k v u m i r t) = u"
  "sizebases (link_page k v u m i r t) = (sizebases k)[t := Some i]"
  "allbase (link_page k v u m i r t) = Some i"
  by (simp_all add: link_page_def)

lemma link_page_fields:
  assumes "j \<noteq> i"
  shows "nxs (link_page k v u m i r t) j = nxs k j" and "nxa (link_page k v u m i r t) j = nxa k j"
    and "btype (link_page k v u m i r t) j = btype k j" and "pg (link_page k v u m i r t) j = pg k j"
  using assms by (simp_all add: nxs_def nxa_def btype_def pg_def)

lemma prefs_ok_link:
  assumes ok: "prefs_ok k al" and i: "i < 256" "i \<notin> set al" and t: "t < 8" "PR_BLOCKTYPE r = t"
    and r: "next_samesize r = sizebases k ! t" "next_all r = allbase k" and u: "length u = 8"
    and used: "\<And>q. pr_used (k\<lparr>pagerefs_inuse := u\<rparr>) q \<longleftrightarrow> q = i \<or> pr_used k q"
  shows "prefs_ok (link_page k v u m i r t) (i # al)"
proof -
  let ?k = "link_page k v u m i r t"
  have len: "length (pagerefs k) = 256" "length (sizebases k) = 8" using ok by (simp_all add: prefs_ok_def)
  have neq: "j \<noteq> i" if "j \<in> set al" for j using that i(2) by blast
  have at_i: "nxs ?k i = sizebases k ! t" "nxa ?k i = allbase k" "btype ?k i = t"
    using i(1) len r t by (simp_all add: nxs_def nxa_def btype_def)
  have all: "plist (nxa ?k) (allbase k) al"
    using ok plist_cong [of al "nxa ?k" "nxa k" "allbase k"] link_page_fields(2) neq
    by (simp add: prefs_ok_def)
  have filt: "filter (\<lambda>j. btype ?k j = s) al = filter (\<lambda>j. btype k j = s) al" for s
    by (rule filter_cong) (use link_page_fields(3) neq in auto)
  have same: "plist (nxs ?k) (sizebases k ! s) (filter (\<lambda>j. btype ?k j = s) al)" if "s < 8" for s
  proof -
    have "plist (nxs ?k) (sizebases k ! s) (filter (\<lambda>j. btype k j = s) al) =
        plist (nxs k) (sizebases k ! s) (filter (\<lambda>j. btype k j = s) al)"
      by (rule plist_cong) (use link_page_fields(1) neq in auto)
    then show ?thesis using ok that unfolding filt by (simp add: prefs_ok_def)
  qed
  have "pr_used ?k q \<longleftrightarrow> q = i \<or> pr_used k q" for q
    using used [of q] by (simp add: pr_used_def)
  moreover have "plist (nxs ?k) ((sizebases k)[t := Some i] ! s) (filter (\<lambda>j. btype ?k j = s) (i # al))"
    if "s < 8" for s
    using same [OF that] at_i len t(1) by (cases "s = t") auto
  ultimately show ?thesis
    using ok i all at_i len u t unfolding prefs_ok_def by (auto simp: nth_list_update)
qed

lemma heap_ok_link:
  assumes ok: "heap_ok k K al fl L X" and P: "K P = None" "kpage P" and rel: "kp_rel v (K(P \<mapsto> 1))"
    and fa: "firstaddr v = firstaddr (kvm k)" and i: "i < 256" "i \<notin> set al"
    and prefs: "prefs_ok (link_page k v u m i r t) (i # al)" and page: "page_ok m r f" and r: "PR_PAGEADDR r = P"
    and mem: "\<And>w. w \<notin> blocks P (bsize r) \<Longrightarrow> m w = kword k w"
  shows "heap_ok (link_page k v u m i r t) (K(P \<mapsto> 1)) (i # al) (fl(i := f)) L X"
proof -
  let ?k = "link_page k v u m i r t"
  have i': "i < length (pagerefs k)" using i heap_okD(3) [OF ok] by (simp add: prefs_ok_def)
  have at_i: "pagerefs ?k ! i = r" "pg ?k i = P" using i' r by (simp_all add: pg_def)
  have neq: "j \<noteq> i" if "j \<in> set al" for j using that i(2) by blast
  have at_j: "pagerefs ?k ! j = pagerefs k ! j" "pg ?k j = pg k j" if "j \<in> set al" for j
    using neq [OF that] by (simp_all add: pg_def)
  have pg_P: "pg k j \<noteq> P" if "j \<in> set al" for j
  proof (cases "K (pg k j) = Some 1")
    case False
    then have "unat (pg k j) + 4096 \<le> unat (firstaddr v) + 2 ^ 31"
      using heap_okD(7) [OF ok that] fa by (auto simp: boot_pinned_def)
    then show ?thesis using kp_rel_lower [OF rel, of P 1] by auto
  qed (use P(1) in auto)
  have page_j: "page_ok m (pagerefs k ! j) (fl j)" if j: "j \<in> set al" for j
  proof -
    have "m a = kword k a" if "a \<in> blocks (PR_PAGEADDR (pagerefs k ! j)) (bsize (pagerefs k ! j))" for a
    proof (rule mem)
      have "unat a \<in> page_run (pg k j) 1"
        using block_start [OF heap_okD(5) [OF ok j]] that by (simp add: pg_def)
      moreover have "page_run (pg k j) 1 \<inter> page_run P 1 = {}"
        by (rule kpages_disjoint) (use pg_P [OF j] P(2) in \<open>simp_all add: pg_def PR_PAGEADDR_aligned kpage_def\<close>)
      moreover have "unat a \<in> page_run P 1" if "a \<in> blocks P (bsize r)"
        using block_start [of m ?k i f a] page at_i that by simp
      ultimately show "a \<notin> blocks P (bsize r)" by blast
    qed
    then show ?thesis using page_ok_cong [of "pagerefs k ! j" m "kword k"] heap_okD(5) [OF ok j] by simp
  qed
  have pin: "boot_pinned ?k L j ((fl(i := f)) j)" if "j \<in> set al" "boot_pinned k L j (fl j)" for j
    using that neq [OF that(1)] at_j [OF that(1)] fa by (simp add: boot_pinned_def)
  have small: "live_small ?k (i # al) (fl(i := f)) p n" if "live_small k al fl p n" for p n
    using that at_j neq by (fastforce simp: live_small_def)
  have large: "live_large ?k (K(P \<mapsto> 1)) (i # al) X p n" if "live_large k K al X p n" for p n
    using that at_i at_j P(1) by (fastforce simp: live_large_def)
  show ?thesis
  proof (rule heap_okI [OF _ _ prefs])
    show "kp_rel (kvm ?k) (K(P \<mapsto> 1))" using rel by simp
    show "X \<subseteq>\<^sub>m K(P \<mapsto> 1)"
      using heap_okD(2) [OF ok] P(1) by (auto simp: map_le_def dom_def)
    show "inj_on (pg ?k) (set (i # al))"
      using heap_okD(4) [OF ok] at_i at_j pg_P i(2) by (auto simp: inj_on_def) metis+
    fix j assume "j \<in> set (i # al)"
    then consider "j = i" | "j \<in> set al" by auto
    note j = this
    show "page_ok (kword ?k) (pagerefs ?k ! j) ((fl(i := f)) j)"
      using j by cases (use page at_i at_j page_j neq in auto)
    show "pg ?k j \<notin> dom X"
      using j by cases (use at_i at_j heap_okD(2,6) [OF ok] P(1) in \<open>auto simp: map_le_def\<close>, force)
    show "(K(P \<mapsto> 1)) (pg ?k j) = Some 1 \<or> boot_pinned ?k L j ((fl(i := f)) j)"
      using j
    proof cases
      case 2
      then show ?thesis
        using heap_okD(7) [OF ok 2] pin [OF 2] at_j(2) [OF 2] pg_P [OF 2] by (metis fun_upd_other)
    qed (simp add: at_i)
  qed (use heap_okD(8) [OF ok] small large in blast)
qed

lemma kpage_of_run: "kp_rel v K \<Longrightarrow> K P = Some n \<Longrightarrow> kpage P"
  using kp_rel_shape [of v K P n] by (auto simp: kpage_def)

lemma subpage_newpage_cases:
  assumes ok: "heap_ok k K al fl L X" and t: "t < 8" and sz: "sz \<le> sizes ! t"
  obtains k' where "subpage_newpage t k = Some (0, k')" and "heap_ok k' K al fl L X" and "kword k' = kword k"
  | p k' K' al' fl' where "subpage_newpage t k = Some (p, k')" and "p \<noteq> 0" and "L p = None"
      and "heap_ok k' K' al' fl' (L(p \<mapsto> sz)) X" and "\<forall>w. protected L X w \<longrightarrow> kword k' w = kword k w"
proof -
  note rel = heap_okD(1) [OF ok] and prefs = heap_okD(3) [OF ok]
  have len: "length (pagerefs k) = 256" "length (sizebases k) = 8" "length (pagerefs_inuse k) = 8"
    using prefs by (simp_all add: prefs_ok_def)
  show thesis
    using rel
  proof (cases rule: kp.alloc_cases [of _ _ 1])
    case 1
    then show thesis using that(1) [of k] ok by (simp add: subpage_newpage_def)
  next
    case (2 P v)
    note rel' = 2(4) and P = kpage_of_run [OF 2(4), of P 1, simplified]
    have fa: "firstaddr v = firstaddr (kvm k)" by (rule alloc_kpages_coremap [OF rel 2(1)])
    let ?k1 = "k\<lparr>kvm := v\<rparr>"
    have len1: "length (pagerefs_inuse ?k1) = 8" using len by simp
    show thesis
      using len1
    proof (cases rule: allocpageref_cases)
      case a: 1
      obtain v' where v': "free_kpages P v = Some v'" "kp_rel v' K"
        using free_kpages_run [OF rel', of P 1] 2(3) by (auto simp: fun_upd_idem)
      have "firstaddr v' = firstaddr (kvm k)"
        using free_kpages_coremap [OF rel' _ v'(1), of 1] fa by simp
      then have "heap_ok (k\<lparr>kvm := v'\<rparr>) K al fl L X"
        using heap_ok_kvm [OF ok v'(2)] heap_okD(2,6) [OF ok] by blast
      then show thesis using that(1) [of "k\<lparr>kvm := v'\<rparr>"] 2 a v' by (simp add: subpage_newpage_def)
    next
      case a: (2 i u)
      have i: "i < 256" "i \<notin> set al" using a(2,3) prefs by (auto simp: prefs_ok_def pr_used_def)
      let ?m = "(kword k)(P := 0)" and ?n = "4096 div sizes ! t"
      let ?r = "\<lambda>x y. (pagerefs k ! i)\<lparr>pageaddr_and_blocktype := MKPAB P t, nfree := ?n,
           freelist_offset := (?n - 1) * sizes ! t, next_samesize := x, next_all := y\<rparr>"
      let ?f = "rev (map (\<lambda>j. P + of_nat (j * sizes ! t)) [0..<?n])"
      obtain m' where m': "freelist_init ?m P (sizes ! t) 1 ?n P = Some (m', P + of_nat ((?n - 1) * sizes ! t))"
          "unat (P + of_nat ((?n - 1) * sizes ! t) - P) mod 0x10000 = (?n - 1) * sizes ! t"
          "\<And>w. w \<notin> blocks P (sizes ! t) \<Longrightarrow> m' w = ?m w"
          "page_ok m' (?r (sizebases k ! t) (allbase k)) ?f"
        using fresh_page_ok [OF P t, of ?m, where r = "pagerefs k ! i" and x = "sizebases k ! t" and y = "allbase k"] by auto
      let ?rr = "?r (sizebases k ! t) (allbase k)" and ?k2 = "link_page k v u m' i (?r (sizebases k ! t) (allbase k)) t"
      have al: "4096 dvd unat P" using P by (simp add: kpage_def)
      have rr: "PR_PAGEADDR ?rr = P" "PR_BLOCKTYPE ?rr = t" "bsize ?rr = sizes ! t"
        using PR_PAGEADDR_MKPAB [OF al, of t] PR_BLOCKTYPE_MKPAB [OF al t]
        by (simp_all add: PR_PAGEADDR_def PR_BLOCKTYPE_def bsize_def)
      have "pr_used (k\<lparr>pagerefs_inuse := u\<rparr>) q \<longleftrightarrow> q = i \<or> pr_used k q" for q
        using a(5) [of q] by (simp add: pr_used_def)
      then have prefs2: "prefs_ok ?k2 (i # al)"
        using prefs_ok_link [OF prefs i t rr(2)] a(4) by simp
      have "P \<in> blocks P (sizes ! t)"
        unfolding blocks_def using sizes_props(6) [OF t] by (intro image_eqI [of _ _ 0]) auto
      then have mem: "m' w = kword k w" if "w \<notin> blocks P (sizes ! t)" for w
        using m'(3) [OF that] that by auto
      have ok2: "heap_ok ?k2 (K(P \<mapsto> 1)) (i # al) (fl(i := ?f)) L X"
        by (rule heap_ok_link [OF ok 2(3) P rel' fa i prefs2 m'(4) rr(1)]) (use mem rr(3) in simp)
      obtain b f where f: "?f = b # f" using sizes_props(6) [OF t] by (cases ?f) auto
      obtain k' where k': "subpage_doalloc i ?k2 = Some (b, k')" "b \<noteq> 0" "L b = None"
          "heap_ok k' (K(P \<mapsto> 1)) (i # al) (fl(i := f)) (L(b \<mapsto> sz)) X" "kword k' = m'"
        using heap_doalloc [OF ok2, of i b f sz] f rr(3) sz i len by auto
      have "subpage_newpage t k = Some (b, k')"
        using 2(1,2) a(1) i len t m'(1,2) k'(1)
        by (simp add: subpage_newpage_def Let_def link_page_def)
      moreover have "kword k' w = kword k w" if w: "protected L X w" for w
      proof -
        have "0 < bsize (pagerefs ?k2 ! i)" by (rule bsize_pos [OF heap_okD(5) [OF ok2]]) simp
        then have "w \<notin> set ((fl(i := ?f)) i)"
          using free_block_unprotected [OF ok2 _ _ w, of i w] by (auto simp: byte_run_def)
        then have "w \<notin> set ?f" by simp
        then show ?thesis using mem [of w] rev_blocks [of P "sizes ! t"] k'(5) by blast
      qed
      ultimately show thesis using that(2) k' by blast
    qed
  qed
qed

subsection \<open>kmalloc\<close>

lemma subpage_kmalloc_cases:
  assumes ok: "heap_ok k K al fl L X" and sz: "sz \<le> 2048"
  obtains k' where "subpage_kmalloc sz k = Some (0, k')" and "heap_inv k' L X" and "kword k' = kword k"
  | p k' where "subpage_kmalloc sz k = Some (p, k')" and "p \<noteq> 0" and "L p = None"
      and "heap_inv k' (L(p \<mapsto> sz)) X" and "\<forall>w. protected L X w \<longrightarrow> kword k' w = kword k w"
proof -
  note prefs = heap_okD(3) [OF ok]
  obtain t where t: "blocktype sz = Some t" "t < 8" "sz \<le> sizes ! t" by (rule blocktype_ok [OF sz])
  have base: "aget (sizebases k) t = Some (sizebases k ! t)" using prefs t(2) by (simp add: prefs_ok_def)
  let ?xs = "filter (\<lambda>i. btype k i = t) al"
  have "plist (nxs k) (sizebases k ! t) ?xs" using prefs t(2) by (simp add: prefs_ok_def)
  moreover have "\<forall>x \<in> set ?xs. x < length (pagerefs k) \<and> btype k x = t" using prefs_index [OF prefs] by simp
  ultimately consider i where "i \<in> set ?xs" "subpage_find k t (sizebases k ! t) = Some (Some i)" "nfree (pagerefs k ! i) > 0"
    | "subpage_find k t (sizebases k ! t) = Some None"
    using subpage_find_result by blast
  then show thesis
  proof cases
    case (1 i)
    then have i: "i \<in> set al" "btype k i = t" by auto
    obtain b f where f: "fl i = b # f"
      using heap_okD(5) [OF ok i(1)] 1(3) by (cases "fl i") (auto simp: page_ok_def)
    have bs: "sz \<le> bsize (pagerefs k ! i)" using t(3) i(2) by (simp add: bsize_def btype_def)
    obtain k' where k': "subpage_doalloc i k = Some (b, k')" "b \<noteq> 0" "L b = None"
        "heap_ok k' K al (fl(i := f)) (L(b \<mapsto> sz)) X" "kword k' = kword k"
      by (rule heap_doalloc [OF ok i(1) f bs])
    then show thesis using that(2) [of b k'] t base 1 by (auto simp: subpage_kmalloc_def heap_inv_def)
  next
    case 2
    then have eq: "subpage_kmalloc sz k = subpage_newpage t k"
      using t base by (simp add: subpage_kmalloc_def)
    show thesis
      using ok t(2,3)
    proof (cases rule: subpage_newpage_cases)
      case (1 k')
      then show thesis using that(1) [of k'] eq by (auto simp: heap_inv_def)
    next
      case (2 p k' K' al' fl')
      then show thesis using that(2) [of p k'] eq by (auto simp: heap_inv_def)
    qed
  qed
qed

lemma heap_alloc_pages:
  assumes ok: "heap_ok k K al fl L X" and alloc: "alloc_kpages n (kvm k) = Some (p, v)" and "p \<noteq> 0"
  shows "K p = None" and "X p = None" and "L p = None" and "p \<notin> pg k ` set al"
    and "kp_rel v (K(p \<mapsto> n))" and "firstaddr v = firstaddr (kvm k)"
proof -
  note rel = heap_okD(1) [OF ok]
  show K: "K p = None" and rel': "kp_rel v (K(p \<mapsto> n))" using kp.alloc_fresh [OF rel alloc \<open>p \<noteq> 0\<close>] by simp_all
  then show "X p = None" using heap_okD(2) [OF ok] by (force simp: map_le_def)
  show fa: "firstaddr v = firstaddr (kvm k)" by (rule alloc_kpages_coremap [OF rel alloc])
  show pgs: "p \<notin> pg k ` set al"
  proof
    assume "p \<in> pg k ` set al"
    then obtain i where i: "i \<in> set al" "p = pg k i" by auto
    then have "unat p + 4096 \<le> unat (firstaddr v) + 2 ^ 31"
      using heap_okD(7) [OF ok i(1)] K fa by (auto simp: boot_pinned_def)
    then show False using kp_rel_lower [OF rel', of p n] by simp
  qed
  have run: "page_run p n \<inter> page_run (pg k i) 1 = {}" if i: "i \<in> set al" for i
  proof (cases "K (pg k i) = Some 1")
    case True
    then show ?thesis using kp.alloc_disjoint [OF rel alloc \<open>p \<noteq> 0\<close>] by blast
  next
    case False
    then have "unat (pg k i) + 4096 \<le> unat (firstaddr v) + 2 ^ 31"
      using heap_okD(7) [OF ok i] fa by (auto simp: boot_pinned_def)
    then show ?thesis using kp_rel_lower [OF rel', of p n] by (auto simp: page_run_def)
  qed
  have "unat p \<in> page_run p n" using kp.run_shape [OF rel', of p n] by (simp add: page_run_def)
  then show "L p = None"
    using live_cases [OF ok, of p] run K by (cases "L p") (auto, blast+)
qed

lemma heap_ok_large:
  assumes ok: "heap_ok k K al fl L X" and alloc: "alloc_kpages n (kvm k) = Some (p, v)" and "p \<noteq> 0"
    and sz: "sz \<le> 4096 * n"
  shows "heap_ok (k\<lparr>kvm := v\<rparr>) (K(p \<mapsto> n)) al fl (L(p \<mapsto> sz)) X"
proof -
  note new = heap_alloc_pages [OF ok alloc \<open>p \<noteq> 0\<close>]
  have ok': "heap_ok (k\<lparr>kvm := v\<rparr>) (K(p \<mapsto> n)) al fl L X"
  proof (rule heap_ok_kvm [OF ok new(5,6)])
    show "X \<subseteq>\<^sub>m K(p \<mapsto> n)" using heap_okD(2) [OF ok] new(2) by (auto simp: map_le_def dom_def)
  qed (use heap_okD(6) [OF ok] new in \<open>auto simp: live_large_def\<close>)
  have "boot_pinned (k\<lparr>kvm := v\<rparr>) (L(p \<mapsto> sz)) i (fl i)"
    if i: "i \<in> set al" "boot_pinned (k\<lparr>kvm := v\<rparr>) L i (fl i)" for i
  proof -
    obtain b where b: "b \<in> blocks (pg (k\<lparr>kvm := v\<rparr>) i) (bsize (pagerefs (k\<lparr>kvm := v\<rparr>) ! i))"
        "b \<notin> set (fl i)" "b \<notin> dom L" using i(2) by (auto simp: boot_pinned_def)
    have "p \<noteq> pg (k\<lparr>kvm := v\<rparr>) i" using new(4) i(1) by (auto simp: pg_def)
    then have "page_run (pg (k\<lparr>kvm := v\<rparr>) i) 1 \<inter> page_run p n = {}"
      using page_run_apart [OF ok' i(1), of p n] by simp
    moreover have "unat b \<in> page_run (pg (k\<lparr>kvm := v\<rparr>) i) 1"
      by (rule block_start [OF heap_okD(5) [OF ok' i(1)] b(1)])
    moreover have "unat p \<in> page_run p n" using kp.run_shape [OF new(5), of p n] by (simp add: page_run_def)
    ultimately have "b \<noteq> p" by blast
    then show ?thesis using b i(2) by (auto simp: boot_pinned_def)
  qed
  moreover have "live_large (k\<lparr>kvm := v\<rparr>) (K(p \<mapsto> n)) al X p sz"
    using new sz by (auto simp: live_large_def pg_def)
  ultimately show ?thesis
    by (intro heap_ok_live [OF ok']) (use heap_okD(8) [OF ok'] in \<open>auto split: if_splits\<close>)
qed

lemma kmalloc_result:
  assumes inv: "heap_inv k L X" and sz: "sz < 2 ^ 31"
  obtains k' where "kmalloc sz k = Some (0, k')" and "heap_inv k' L X" and "kword k' = kword k"
  | p k' where "kmalloc sz k = Some (p, k')" and "p \<noteq> 0" and "L p = None"
      and "heap_inv k' (L(p \<mapsto> sz)) X" and "\<forall>w. protected L X w \<longrightarrow> kword k' w = kword k w"
proof -
  obtain K al fl where ok: "heap_ok k K al fl L X" using inv by (auto simp: heap_inv_def)
  show thesis
  proof (cases "sz < 2048")
    case True
    then have eq: "kmalloc sz k = subpage_kmalloc sz k" and le: "sz \<le> 2048" by (simp_all add: kmalloc_def)
    show thesis
      using ok le by (cases rule: subpage_kmalloc_cases) (use that eq in auto)
  next
    case False
    let ?n = "(sz + 4095) div 4096"
    have n: "(sz + 4096 - 1) mod 2 ^ 32 div 4096 = ?n" "sz \<le> 4096 * ?n" using sz by simp_all
    obtain p v where alloc: "alloc_kpages ?n (kvm k) = Some (p, v)"
      using kp.alloc_total [OF heap_okD(1) [OF ok]] by blast
    then have eq: "kmalloc sz k = Some (p, k\<lparr>kvm := v\<rparr>)" using False n(1) by (simp add: kmalloc_def)
    show thesis
    proof (cases "p = 0")
      case True
      then have "v = kvm k" using kp.alloc_fail [OF heap_okD(1) [OF ok]] alloc by simp
      then show thesis using that(1) [of k] eq True inv by simp
    next
      case False
      then have "heap_inv (k\<lparr>kvm := v\<rparr>) (L(p \<mapsto> sz)) X" "L p = None"
        using heap_ok_large [OF ok alloc False n(2)] heap_alloc_pages(3) [OF ok alloc False]
        by (auto simp: heap_inv_def)
      then show thesis using that(2) [OF eq False] by simp
    qed
  qed
qed

subsection \<open>kfree\<close>

lemma subpage_locate_live:
  assumes ok: "heap_ok k K al fl L X" and i: "i \<in> set al" and p: "unat p \<in> page_run (pg k i) 1"
  shows "subpage_locate k p (allbase k) = Some (Some i)"
proof -
  have "\<forall>x \<in> set al. x < length (pagerefs k) \<and> btype k x < 8 \<and> kpage (pg k x)"
    using heap_okD(3,5) [OF ok] prefs_index by (force simp: page_ok_def btype_def pg_def)
  moreover have "plist (nxa k) (allbase k) al" using heap_okD(3) [OF ok] by (simp add: prefs_ok_def)
  ultimately obtain j where "j \<in> set al" "subpage_locate k p (allbase k) = Some (Some j)" "unat p \<in> page_run (pg k j) 1"
    using subpage_locate_result [of k "allbase k" al p] i p by blast
  moreover have "j = i" using page_apart [OF ok _ i, of j] calculation p by blast
  ultimately show ?thesis by simp
qed

lemma subpage_locate_large:
  assumes ok: "heap_ok k K al fl L X" and p: "K p = Some np" "p \<notin> pg k ` set al" and a: "unat a \<in> page_run p np"
  shows "subpage_locate k a (allbase k) = Some None"
proof -
  have "\<forall>x \<in> set al. x < length (pagerefs k) \<and> btype k x < 8 \<and> kpage (pg k x)"
    using heap_okD(3,5) [OF ok] prefs_index by (force simp: page_ok_def btype_def pg_def)
  moreover have "plist (nxa k) (allbase k) al" using heap_okD(3) [OF ok] by (simp add: prefs_ok_def)
  moreover have "unat a \<notin> page_run (pg k i) 1" if i: "i \<in> set al" for i
  proof -
    have "p \<noteq> pg k i" using p(2) i by blast
    then show ?thesis using page_run_apart [OF ok i p(1)] a by blast
  qed
  ultimately show ?thesis using subpage_locate_result [of k "allbase k" al a] by blast
qed

lemma kfree_large:
  assumes ok: "heap_ok k K al fl L X" and L: "L p = Some n" and p: "K p = Some np" "p \<notin> pg k ` set al" "p \<notin> dom X"
  obtains v where "kfree p k = Some (k\<lparr>kvm := v\<rparr>)" and "heap_ok (k\<lparr>kvm := v\<rparr>) (K(p := None)) al fl (L(p := None)) X"
proof -
  note rel = heap_okD(1) [OF ok]
  note shape = kp.run_shape [OF rel p(1)]
  obtain v where v: "free_kpages p (kvm k) = Some v" "kp_rel v (K(p := None))"
    using kp.free_run [OF rel p(1)] by blast
  have fa: "firstaddr v = firstaddr (kvm k)" by (rule free_kpages_coremap [OF rel p(1) v(1)])
  have ok1: "heap_ok k K al fl (L(p := None)) X"
    by (rule heap_ok_live [OF ok]) (use heap_okD(8) [OF ok] in \<open>auto simp: boot_pinned_def split: if_splits\<close>)
  have "heap_ok (k\<lparr>kvm := v\<rparr>) (K(p := None)) al fl (L(p := None)) X"
  proof (rule heap_ok_kvm [OF ok1 v(2) fa])
    show "X \<subseteq>\<^sub>m K(p := None)" using heap_okD(2) [OF ok] p(3) by (auto simp: map_le_def)
  qed (use heap_okD(6) [OF ok] p(2) in \<open>auto simp: live_large_def split: if_splits\<close>)
  moreover have "kfree p k = Some (k\<lparr>kvm := v\<rparr>)"
    using subpage_locate_large [OF ok p(1,2), of p] shape v(1)
    by (simp add: kfree_def subpage_kfree_def dvd_eq_mod_eq_0 page_run_def)
  ultimately show thesis by (rule that [rotated])
qed

lemma pageref_upd_swap: "r\<lparr>freelist_offset := a, nfree := b\<rparr> = r\<lparr>nfree := b, freelist_offset := a\<rparr>"
  by (cases r) simp

lemma heap_ok_give_back:
  assumes ok: "heap_ok k K al fl L X" and i: "i \<in> set al"
    and p: "p \<in> blocks (pg k i) (bsize (pagerefs k ! i))" "p \<notin> set (fl i)" and L: "p \<in> dom L"
  defines "m \<equiv> (fill_deadbeef (kword k) p (bsize (pagerefs k ! i)))(p := fhead (pagerefs k ! i))"
    and "off \<equiv> unat (p - pg k i)"
  shows "heap_ok (k\<lparr>kword := m, pagerefs := recount k i (Suc (length (fl i))) off\<rparr>) K al
    (fl(i := p # fl i)) (L(p := None)) X"
proof (rule heap_ok_recount [OF ok i])
  note page = heap_okD(5) [OF ok i]
  note free = page_ok_free_block [OF page p(1) [unfolded pg_def] p(2)]
  show "page_ok m ((pagerefs k ! i)\<lparr>nfree := Suc (length (fl i)), freelist_offset := off\<rparr>) (p # fl i)"
    using free(1,2,4) unfolding m_def off_def pg_def pageref_upd_swap by simp
  show "m a = kword k a" if "j \<in> set al" "j \<noteq> i" and a: "a \<in> blocks (pg k j) (bsize (pagerefs k ! j))" for j a
  proof -
    have "unat a \<in> page_run (pg k j) 1" by (rule block_start [OF heap_okD(5) [OF ok that(1)] a])
    then have "unat a \<notin> page_run (pg k i) 1" using page_apart [OF ok that(1) i that(2)] by blast
    then have "unat a \<notin> byte_run p (bsize (pagerefs k ! i))" "a \<noteq> p"
      using block_in_page [OF page p(1) order_refl] block_start [OF page p(1)] by auto
    moreover have "unat p + bsize (pagerefs k ! i) \<le> 2 ^ 32"
      using page_block_addr(2) [OF page p(1) [unfolded pg_def]] page by (simp add: page_ok_def kpage_def)
    ultimately show ?thesis unfolding m_def by (simp add: fill_deadbeef_other)
  qed
  show "boot_pinned k (L(p := None)) j ((fl(i := p # fl i)) j)" if "boot_pinned k L j (fl j)" for j
    using that L by (auto simp: boot_pinned_def)
  show "live_small k al (fl(i := p # fl i)) q n \<or> live_large k K al X q n" if "(L(p := None)) q = Some n" for q n
    using heap_okD(8) [OF ok, of q n] that by (auto simp: live_small_def split: if_splits)
qed

lemma prefs_ok_unlink:
  assumes prefs: "prefs_ok k al" and i: "i \<in> set al" "btype k i = t" "t < 8"
  obtains pf sb ab where "remove_lists i t k = Some (k\<lparr>pagerefs := pf, sizebases := sb, allbase := ab\<rparr>)"
    and "same_core (pagerefs k) pf"
    and "\<forall>u v. length u = 8 \<and> (\<forall>q. pr_used (k\<lparr>pagerefs_inuse := u\<rparr>) q \<longleftrightarrow> q \<noteq> i \<and> pr_used k q) \<longrightarrow>
      prefs_ok (k\<lparr>pagerefs := pf, sizebases := sb, allbase := ab, pagerefs_inuse := u, kvm := v\<rparr>) (remove1 i al)"
proof -
  let ?xs = "\<lambda>s. filter (\<lambda>i. btype k i = s) al"
  have facts: "length (sizebases k) = 8" "length (pagerefs k) = 256" "distinct al"
      "\<forall>x \<in> set al. x < length (pagerefs k)" "plist (nxa k) (allbase k) al"
    and sames: "\<And>s. s < 8 \<Longrightarrow> plist (nxs k) (sizebases k ! s) (?xs s)"
    using prefs by (auto simp: prefs_ok_def)
  have xs: "distinct (?xs t)" "\<forall>x \<in> set (?xs t). x < length (pagerefs k)" "i \<in> set (?xs t)"
    using facts i by auto
  obtain pf sb where rs: "remove_samesize i t None k = Some (k\<lparr>pagerefs := pf, sizebases := sb\<rparr>)"
      "same_core (pagerefs k) pf" "length sb = 8" "\<forall>j. next_all (pf ! j) = next_all (pagerefs k ! j)"
      "\<forall>j. j \<notin> set (?xs t) \<longrightarrow> pf ! j = pagerefs k ! j" "\<forall>u. u \<noteq> t \<longrightarrow> sb ! u = sizebases k ! u"
      "plist (\<lambda>j. next_samesize (pf ! j)) (sb ! t) (remove1 i (?xs t))"
    by (rule remove_samesize_ok [OF facts(1) i(3) sames [OF i(3)] xs]) (rule that)
  let ?k1 = "k\<lparr>pagerefs := pf, sizebases := sb\<rparr>"
  have nxa1: "nxa ?k1 = nxa k" using rs(4) by (simp add: nxa_def)
  have len1: "length pf = length (pagerefs k)" using rs(2) by (simp add: same_core_def)
  have all1: "plist (nxa ?k1) (allbase ?k1) al" "distinct al" "\<forall>x \<in> set al. x < length (pagerefs ?k1)" "i \<in> set al"
    using facts i nxa1 len1 by simp_all
  obtain pf' ab where ra: "remove_all i None ?k1 = Some (?k1\<lparr>pagerefs := pf', allbase := ab\<rparr>)"
      "same_core pf pf'" "\<forall>j. next_samesize (pf' ! j) = next_samesize (pf ! j)"
      "plist (\<lambda>j. next_all (pf' ! j)) ab (remove1 i al)"
    by (rule remove_all_ok [OF all1]) (use that in simp)
  have core: "same_core (pagerefs k) pf'" by (rule same_core_trans [OF rs(2) ra(2)])
  show thesis
  proof (rule that [OF _ core], safe)
    show "remove_lists i t k = Some (k\<lparr>pagerefs := pf', sizebases := sb, allbase := ab\<rparr>)"
      using rs(1) ra(1) i(3) by (simp add: remove_lists_def)
    fix u v
    assume u: "length u = 8" "\<forall>q. pr_used (k\<lparr>pagerefs_inuse := u\<rparr>) q \<longleftrightarrow> q \<noteq> i \<and> pr_used k q"
    let ?k = "k\<lparr>pagerefs := pf', sizebases := sb, allbase := ab, pagerefs_inuse := u, kvm := v\<rparr>"
    have bt: "btype ?k j = btype k j" if "j \<in> set al" for j
      using same_core_page(1) [of k ?k j] core that facts(4) by simp
    have filt: "filter (\<lambda>j. btype ?k j = s) (remove1 i al) = remove1 i (?xs s)" for s
    proof -
      have "filter (\<lambda>j. btype ?k j = s) al = ?xs s" by (rule filter_cong) (use bt in auto)
      then show ?thesis by (simp add: filter_remove1)
    qed
    have nx: "nxs ?k = (\<lambda>j. next_samesize (pf ! j))" using ra(3) by (simp add: nxs_def)
    have lists: "plist (nxs ?k) (sb ! s) (filter (\<lambda>j. btype ?k j = s) (remove1 i al))" if s: "s < 8" for s
    proof (cases "s = t")
      case True
      then show ?thesis using rs(7) unfolding filt nx by simp
    next
      case False
      have "remove1 i (?xs s) = ?xs s" using i(2) False by (intro remove1_idem) auto
      moreover have "plist (nxs ?k) (sizebases k ! s) (?xs s) = plist (nxs k) (sizebases k ! s) (?xs s)"
        by (rule plist_cong) (use rs(5) ra(3) False in \<open>auto simp: nxs_def\<close>)
      ultimately show ?thesis using sames [OF s] rs(6) False unfolding filt by simp
    qed
    have "pr_used ?k q \<longleftrightarrow> q \<noteq> i \<and> pr_used k q" for q using u(2) by (simp add: pr_used_def)
    moreover have "plist (nxa ?k) ab (remove1 i al)" using ra(4) by (simp add: nxa_def)
    moreover have "length pf' = 256" using core facts(2) by (simp add: same_core_def)
    ultimately show "prefs_ok ?k (remove1 i al)"
      using prefs u(1) rs(3) lists by (auto simp: prefs_ok_def)
  qed
qed

lemma heap_free_page:
  assumes ok: "heap_ok k K al fl L X" and i: "i \<in> set al" and full: "length (fl i) = 4096 div bsize (pagerefs k ! i)"
  obtains k2 k3 v where "remove_lists i (btype k i) k = Some k2" and "freepageref i k2 = Some k3"
    and "free_kpages (pg k i) (kvm k3) = Some v"
    and "heap_ok (k3\<lparr>kvm := v\<rparr>) (K(pg k i := None)) (remove1 i al) fl L X" and "kword k3 = kword k"
proof -
  note page = heap_okD(5) [OF ok i] and rel = heap_okD(1) [OF ok] and prefs = heap_okD(3) [OF ok]
  have t: "btype k i < 8" using page by (simp add: page_ok_def btype_def)
  have all: "set (fl i) = blocks (pg k i) (bsize (pagerefs k ! i))"
  proof (rule card_subset_eq)
    show "card (set (fl i)) = card (blocks (pg k i) (bsize (pagerefs k ! i)))"
      using full page card_blocks [of "btype k i" "pg k i"]
      by (simp add: page_ok_def distinct_card bsize_def btype_def pg_def)
  qed (use page in \<open>auto simp: page_ok_def pg_def\<close>)
  then have K: "K (pg k i) = Some 1" using heap_okD(7) [OF ok i] by (auto simp: boot_pinned_def)
  obtain pf sb ab where un: "remove_lists i (btype k i) k = Some (k\<lparr>pagerefs := pf, sizebases := sb, allbase := ab\<rparr>)"
      "same_core (pagerefs k) pf"
      "\<forall>u v. length u = 8 \<and> (\<forall>q. pr_used (k\<lparr>pagerefs_inuse := u\<rparr>) q \<longleftrightarrow> q \<noteq> i \<and> pr_used k q) \<longrightarrow>
        prefs_ok (k\<lparr>pagerefs := pf, sizebases := sb, allbase := ab, pagerefs_inuse := u, kvm := v\<rparr>) (remove1 i al)"
    by (rule prefs_ok_unlink [OF prefs i refl t])
  let ?k2 = "k\<lparr>pagerefs := pf, sizebases := sb, allbase := ab\<rparr>"
  have "length (pagerefs_inuse ?k2) = 8" "i < 256" "pr_used ?k2 i"
    using prefs i by (auto simp: prefs_ok_def pr_used_def)
  then obtain u where u: "freepageref i ?k2 = Some (?k2\<lparr>pagerefs_inuse := u\<rparr>)" "length u = 8"
      "\<forall>q. pr_used (?k2\<lparr>pagerefs_inuse := u\<rparr>) q \<longleftrightarrow> q \<noteq> i \<and> pr_used ?k2 q"
    by (rule freepageref_ok)
  obtain v where v: "free_kpages (pg k i) (kvm k) = Some v" "kp_rel v (K(pg k i := None))"
    using kp.free_run [OF rel K] by blast
  have fa: "firstaddr v = firstaddr (kvm k)" by (rule free_kpages_coremap [OF rel K v(1)])
  let ?k = "k\<lparr>pagerefs := pf, sizebases := sb, allbase := ab, pagerefs_inuse := u, kvm := v\<rparr>"
  have prefs': "prefs_ok ?k (remove1 i al)"
    by (rule un(3) [rule_format]) (use u(2,3) in \<open>simp add: pr_used_def\<close>)
  have al': "set (remove1 i al) = set al - {i}" using prefs by (simp add: prefs_ok_def)
  have core: "pg ?k j = pg k j" "bsize (pf ! j) = bsize (pagerefs k ! j)"
      "page_ok m (pf ! j) f = page_ok m (pagerefs k ! j) f" if "j \<in> set al" for j m f
    using same_core_page(2-4) [of k ?k j] un(2) prefs_index [OF prefs that] by simp_all
  have neq: "pg k j \<noteq> pg k i" if "j \<in> set al" "j \<noteq> i" for j
    using heap_okD(4) [OF ok] that i by (auto dest: inj_onD)
  have "heap_ok ?k (K(pg k i := None)) (remove1 i al) fl L X"
  proof (rule heap_okI [OF _ _ prefs'])
    show "X \<subseteq>\<^sub>m K(pg k i := None)" using heap_okD(2,6) [OF ok] i by (auto simp: map_le_def)
    show "inj_on (pg ?k) (set (remove1 i al))"
      using heap_okD(4) [OF ok] core(1) unfolding al' by (auto simp: inj_on_def)
    fix j assume "j \<in> set (remove1 i al)"
    then have j: "j \<in> set al" "j \<noteq> i" using al' by auto
    show "page_ok (kword ?k) (pagerefs ?k ! j) (fl j)" using heap_okD(5) [OF ok j(1)] core(3) [OF j(1)] by simp
    show "pg ?k j \<notin> dom X" using heap_okD(6) [OF ok j(1)] core(1) [OF j(1)] by simp
    show "(K(pg k i := None)) (pg ?k j) = Some 1 \<or> boot_pinned ?k L j (fl j)"
      using heap_okD(7) [OF ok j(1)] core [OF j(1)] neq [OF j] fa by (simp add: boot_pinned_def)
  next
    fix q n assume q: "L q = Some n"
    show "live_small ?k (remove1 i al) fl q n \<or> live_large ?k (K(pg k i := None)) (remove1 i al) X q n"
      using ok q
    proof (cases rule: live_cases)
      case (1 j)
      then have "j \<noteq> i" using all by blast
      then have "j \<in> set (remove1 i al)" using 1(1) al' by simp
      then have "live_small ?k (remove1 i al) fl q n"
        unfolding live_small_def using 1 core [OF 1(1)] by (intro bexI [of _ j]) simp_all
      then show ?thesis ..
    next
      case (2 np)
      moreover have "q \<noteq> pg k i" using 2(2) i by blast
      moreover have "q \<notin> pg ?k ` set (remove1 i al)" using 2(2) core(1) al' by auto
      ultimately show ?thesis by (auto simp: live_large_def)
    qed
  qed (use v in simp)
  then show thesis using that [OF un(1) u(1), of v] v(1) by simp
qed

lemma kfree_small:
  assumes ok: "heap_ok k K al fl L X" and i: "i \<in> set al"
    and p: "p \<in> blocks (pg k i) (bsize (pagerefs k ! i))" "p \<notin> set (fl i)" and L: "p \<in> dom L"
  obtains k' where "kfree p k = Some k'" and "heap_inv k' (L(p := None)) X"
    and "\<forall>w. protected (L(p := None)) X w \<longrightarrow> kword k' w = kword k w"
proof -
  note page = heap_okD(5) [OF ok i]
  note free = page_ok_free_block [OF page p(1) [unfolded pg_def] p(2)]
  note addr = page_block_addr [OF page p(1) [unfolded pg_def]]
  let ?r = "pagerefs k ! i"
  let ?bs = "bsize ?r" and ?off = "unat (p - PR_PAGEADDR ?r)"
  let ?m = "(fill_deadbeef (kword k) p ?bs)(p := fhead ?r)"
  let ?k1 = "k\<lparr>kword := ?m, pagerefs := recount k i (Suc (length (fl i))) ?off\<rparr>"
  have idx: "i < length (pagerefs k)" by (rule prefs_index [OF heap_okD(3) [OF ok] i])
  have ok1: "heap_ok ?k1 K al (fl(i := p # fl i)) (L(p := None)) X"
    using heap_ok_give_back [OF ok i p L] by (simp add: pg_def)
  have sub: "?off = unat p - unat (PR_PAGEADDR ?r)"
    using addr(1) by (intro unat_sub) (simp add: word_le_nat_alt)
  have off: "?off < 4096" "?off mod ?bs = 0" "PR_PAGEADDR ?r + of_nat ?off = p"
    using addr sub bsize_pos [OF page] by auto
  have loc: "subpage_locate k p (allbase k) = Some (Some i)"
    by (rule subpage_locate_live [OF ok i block_start [OF page p(1)]])
  have n: "(nfree ?r + 1) mod 0x10000 = Suc (length (fl i))" "Suc (length (fl i)) \<le> 4096 div ?bs"
    using free(2,3) by simp_all
  have t: "PR_BLOCKTYPE ?r < 8" using page by (simp add: page_ok_def)
  have step: "subpage_kfree p k = (if Suc (length (fl i)) = 4096 div ?bs then do {
       k2 \<leftarrow> remove_lists i (PR_BLOCKTYPE ?r) ?k1; k3 \<leftarrow> freepageref i k2;
       v \<leftarrow> free_kpages (PR_PAGEADDR ?r) (kvm k3); Some (True, k3\<lparr>kvm := v\<rparr>) } else Some (True, ?k1))"
    using loc idx off n t
    by (simp add: subpage_kfree_def Let_def bsize_def fhead_def pageref_upd_swap)
  have frame: "?m w = kword k w" if w: "protected (L(p := None)) X w" for w
  proof -
    have "unat w \<notin> byte_run p (bsize (pagerefs ?k1 ! i))"
      using free_block_unprotected [OF ok1 i, of p w] w by simp
    then have "unat w \<notin> byte_run p ?bs" using recount_fields(5) [OF idx] by simp
    moreover from this have "w \<noteq> p" using bsize_pos [OF page] by (auto simp: byte_run_def)
    moreover have "unat p + ?bs \<le> 2 ^ 32" using addr(2) page by (simp add: page_ok_def kpage_def)
    ultimately show ?thesis by (simp add: fill_deadbeef_other)
  qed
  show thesis
  proof (cases "Suc (length (fl i)) = 4096 div ?bs")
    case False
    then have "kfree p k = Some ?k1" using step addr(3) by (simp add: kfree_def)
    then show thesis using that [of ?k1] ok1 frame by (auto simp: heap_inv_def)
  next
    case True
    note f1 = recount_fields [OF idx]
    have full: "length ((fl(i := p # fl i)) i) = 4096 div bsize (pagerefs ?k1 ! i)"
      using True f1(5) by simp
    obtain k2 k3 v where k: "remove_lists i (btype ?k1 i) ?k1 = Some k2" "freepageref i k2 = Some k3"
        "free_kpages (pg ?k1 i) (kvm k3) = Some v"
        "heap_ok (k3\<lparr>kvm := v\<rparr>) (K(pg ?k1 i := None)) (remove1 i al) (fl(i := p # fl i)) (L(p := None)) X"
        "kword k3 = kword ?k1"
      by (rule heap_free_page [OF ok1 i full])
    then have "kfree p k = Some (k3\<lparr>kvm := v\<rparr>)"
      using step addr(3) True f1(3,4) by (simp add: kfree_def btype_def pg_def)
    then show thesis using that [of "k3\<lparr>kvm := v\<rparr>"] k(4,5) frame by (auto simp: heap_inv_def)
  qed
qed

lemma kfree_result:
  assumes inv: "heap_inv k L X" and L: "L p = Some n"
  obtains k' where "kfree p k = Some k'" and "heap_inv k' (L(p := None)) X"
    and "\<forall>w. protected (L(p := None)) X w \<longrightarrow> kword k' w = kword k w"
proof -
  obtain K al fl where ok: "heap_ok k K al fl L X" using inv by (auto simp: heap_inv_def)
  show thesis
    using ok L
  proof (cases rule: live_cases)
    case (1 i)
    show thesis by (rule kfree_small [OF ok 1(1-3)]) (use L that in auto)
  next
    case (2 np)
    show thesis
      by (rule kfree_large [OF ok L 2(3,2,1)]) (use that in \<open>auto simp: heap_inv_def\<close>)
  qed
qed

lemma heap_inv_block_shape: "heap_inv k L X \<Longrightarrow> L p = Some n \<Longrightarrow> p \<noteq> 0 \<and> 4 dvd unat p \<and> unat p + n \<le> 2 ^ 32"
  unfolding heap_inv_def using heap_block_shape by blast

lemma heap_inv_block_disjoint:
  "heap_inv k L X \<Longrightarrow> L p = Some a \<Longrightarrow> L q = Some b \<Longrightarrow> p \<noteq> q \<Longrightarrow> byte_run p a \<inter> byte_run q b = {}"
  unfolding heap_inv_def using heap_block_disjoint by blast

interpretation kh: kernel_heap kmalloc kfree "\<lambda>k L. heap_inv k L X" kword for X
proof unfold_locales
  fix k L sz p k' q n a b w
  assume inv: "heap_inv k L X"
  show "\<exists>p k'. kmalloc sz k = Some (p, k')" if "sz < 2 ^ 31"
    by (rule kmalloc_result [OF inv that]) blast+
  show "heap_inv k' L X" if "sz < 2 ^ 31" "kmalloc sz k = Some (0, k')"
    by (rule kmalloc_result [OF inv that(1)]) (use that in auto)
  show "L p = None \<and> heap_inv k' (L(p \<mapsto> sz)) X" if "sz < 2 ^ 31" "kmalloc sz k = Some (p, k')" "p \<noteq> 0"
    by (rule kmalloc_result [OF inv that(1)]) (use that in auto)
  show "kfree 0 k = Some k" by (simp add: kfree_def)
  show "\<exists>k'. kfree p k = Some k' \<and> heap_inv k' (L(p := None)) X" if "L p = Some sz"
    by (rule kfree_result [OF inv that]) blast
  show "p \<noteq> 0 \<and> 4 dvd unat p \<and> unat p + sz \<le> 2 ^ 32" if "L p = Some sz"
    by (rule heap_inv_block_shape [OF inv that])
  show "byte_run p a \<inter> byte_run q b = {}" if "L p = Some a" "L q = Some b" "p \<noteq> q"
    by (rule heap_inv_block_disjoint [OF inv that])
  show "kword k' w = kword k w"
    if "sz < 2 ^ 31" "kmalloc sz k = Some (p, k')" "L q = Some b" "unat w \<in> byte_run q b" "4 dvd unat w"
    by (rule kmalloc_result [OF inv that(1)]) (use that protected_block [of L q b w X] in auto)
  show "kword k' w = kword k w"
    if "L p = Some a" "kfree p k = Some k'" "L q = Some b" "p \<noteq> q" "unat w \<in> byte_run q b" "4 dvd unat w"
    by (rule kfree_result [OF inv that(1)]) (use that protected_block [of "L(p := None)" q b w X] in auto)
qed

subsection \<open>Page runs and memory of other users\<close>

lemma heap_inv_alloc_pages:
  assumes inv: "heap_inv k L X" and alloc: "alloc_kpages n (kvm k) = Some (p, v)"
  shows "p = 0 \<Longrightarrow> v = kvm k" and "p \<noteq> 0 \<Longrightarrow> X p = None"
    and "p \<noteq> 0 \<Longrightarrow> heap_inv (k\<lparr>kvm := v\<rparr>) L (X(p \<mapsto> n))"
proof -
  obtain K al fl where ok: "heap_ok k K al fl L X" using inv by (auto simp: heap_inv_def)
  show "p = 0 \<Longrightarrow> v = kvm k" using kp.alloc_fail [OF heap_okD(1) [OF ok]] alloc by simp
  assume "p \<noteq> 0"
  note new = heap_alloc_pages [OF ok alloc this]
  show "X p = None" by (rule new(2))
  have "heap_ok (k\<lparr>kvm := v\<rparr>) (K(p \<mapsto> n)) al fl L (X(p \<mapsto> n))"
  proof (rule heap_ok_kvm [OF ok new(5,6)])
    show "X(p \<mapsto> n) \<subseteq>\<^sub>m K(p \<mapsto> n)" using heap_okD(2) [OF ok] by (simp add: map_le_upd)
    show "live_large k (K(p \<mapsto> n)) al (X(p \<mapsto> n)) q m" if "live_large k K al X q m" "L q = Some m" for q m
      using that new(3) by (auto simp: live_large_def)
  qed (use heap_okD(6) [OF ok] new in auto)
  then show "heap_inv (k\<lparr>kvm := v\<rparr>) L (X(p \<mapsto> n))" by (auto simp: heap_inv_def)
qed

lemma heap_inv_free_pages:
  assumes inv: "heap_inv k L X" and X: "X p = Some n"
  obtains v where "free_kpages p (kvm k) = Some v" and "heap_inv (k\<lparr>kvm := v\<rparr>) L (X(p := None))"
proof -
  obtain K al fl where ok: "heap_ok k K al fl L X" using inv by (auto simp: heap_inv_def)
  note rel = heap_okD(1) [OF ok]
  have K: "K p = Some n" using heap_okD(2) [OF ok] X by (force simp: map_le_def)
  obtain v where v: "free_kpages p (kvm k) = Some v" "kp_rel v (K(p := None))"
    using kp.free_run [OF rel K] by blast
  have "heap_ok (k\<lparr>kvm := v\<rparr>) (K(p := None)) al fl L (X(p := None))"
  proof (rule heap_ok_kvm [OF ok v(2) free_kpages_coremap [OF rel K v(1)]])
    show "X(p := None) \<subseteq>\<^sub>m K(p := None)" using heap_okD(2) [OF ok] by (auto simp: map_le_def)
    show "pg k i \<notin> dom (X(p := None)) \<and> (K(p := None)) (pg k i) = K (pg k i)" if "i \<in> set al" for i
      using heap_okD(6) [OF ok that] X by auto
    show "live_large k (K(p := None)) al (X(p := None)) q m" if "live_large k K al X q m" for q m
      using that X by (auto simp: live_large_def)
  qed
  then show thesis using that [OF v(1)] by (auto simp: heap_inv_def)
qed

lemma heap_inv_run_shape:
  assumes "heap_inv k L X" and "X p = Some n"
  shows "0 < n \<and> p \<noteq> 0 \<and> 4096 dvd unat p \<and> 2 ^ 31 \<le> unat p \<and> unat p + 4096 * n \<le> 2 ^ 31 + 2 ^ 29"
proof -
  obtain K al fl where ok: "heap_ok k K al fl L X" using assms(1) by (auto simp: heap_inv_def)
  have "K p = Some n" using heap_okD(2) [OF ok] assms(2) by (force simp: map_le_def)
  then show ?thesis by (rule kp_rel_shape [OF heap_okD(1) [OF ok]])
qed

lemma heap_inv_run_disjoint:
  assumes "heap_inv k L X" and "X p = Some n" and "X q = Some m" and "p \<noteq> q"
  shows "page_run p n \<inter> page_run q m = {}"
proof -
  obtain K al fl where ok: "heap_ok k K al fl L X" using assms(1) by (auto simp: heap_inv_def)
  have "K p = Some n" "K q = Some m" using heap_okD(2) [OF ok] assms(2,3) by (force simp: map_le_def)+
  then show ?thesis using kp.run_disjoint [OF heap_okD(1) [OF ok]] assms(4) by blast
qed

lemma heap_inv_block_run_disjoint:
  assumes "heap_inv k L X" and p: "L p = Some n" and q: "X q = Some m"
  shows "byte_run p n \<inter> page_run q m = {}"
proof -
  obtain K al fl where ok: "heap_ok k K al fl L X" using assms(1) by (auto simp: heap_inv_def)
  have K: "K q = Some m" using heap_okD(2) [OF ok] q by (force simp: map_le_def)
  show ?thesis
    using ok p
  proof (cases rule: live_cases)
    case (1 i)
    then have "q \<noteq> pg k i" using heap_okD(6) [OF ok 1(1)] q by auto
    then show ?thesis using page_run_apart [OF ok 1(1) K] 1(5) by blast
  next
    case (2 np)
    then have "p \<noteq> q" using q by auto
    then show ?thesis using kp.run_disjoint [OF heap_okD(1) [OF ok] 2(3) K] 2(5) by blast
  qed
qed

text \<open>Writing to live blocks and to page runs of other users does not disturb the heap.\<close>

lemma heap_inv_write:
  assumes inv: "heap_inv k L X" and mem: "\<And>w. m w \<noteq> kword k w \<Longrightarrow> protected L X w"
  shows "heap_inv (k\<lparr>kword := m\<rparr>) L X"
proof -
  obtain K al fl where ok: "heap_ok k K al fl L X" using inv by (auto simp: heap_inv_def)
  let ?k = "k\<lparr>kword := m\<rparr>"
  have eqs: "nxs ?k = nxs k" "nxa ?k = nxa k" "btype ?k = btype k" "pg ?k = pg k" "pr_used ?k = pr_used k"
    by (auto simp: nxs_def nxa_def btype_def pg_def pr_used_def fun_eq_iff)
  have page: "page_ok m (pagerefs k ! i) (fl i)" if i: "i \<in> set al" for i
  proof -
    note page = heap_okD(5) [OF ok i]
    have "m b = kword k b" if "b \<in> set (fl i)" for b
    proof (rule ccontr)
      assume "m b \<noteq> kword k b"
      then have "unat b \<notin> byte_run b (bsize (pagerefs k ! i))"
        by (rule free_block_unprotected [OF ok i that mem])
      then show False using bsize_pos [OF page] by (simp add: byte_run_def)
    qed
    then show ?thesis
      using page flist_cong [of "fl i" m "kword k" "fhead (pagerefs k ! i)"] by (simp add: page_ok_def)
  qed
  have prefs: "prefs_ok ?k al" using heap_okD(3) [OF ok] by (simp add: prefs_ok_def eqs)
  have "heap_ok ?k K al fl L X"
    using heap_okD(1,2,4,6,7,8) [OF ok] page prefs
    by (auto simp: heap_ok_def eqs boot_pinned_def live_small_def live_large_def)
  then show ?thesis by (auto simp: heap_inv_def)
qed

subsection \<open>The heap at boot\<close>

text \<open>The file-level variables of kmalloc.c are zero when the kernel starts.\<close>

definition kheap_init :: "vm_state \<Rightarrow> (u32 \<Rightarrow> u32) \<Rightarrow> kstate" where
  "kheap_init v m = \<lparr>kvm = v, kword = m,
     pagerefs = replicate 256 \<lparr>next_samesize = None, next_all = None, pageaddr_and_blocktype = 0,
       freelist_offset = 0, nfree = 0\<rparr>,
     pagerefs_inuse = replicate 8 0, sizebases = replicate 8 None, allbase = None\<rparr>"

lemma heap_inv_init:
  assumes "kp_rel v K"
  shows "heap_inv (kheap_init v m) Map.empty K"
proof -
  have "pr_used (kheap_init v m) i = False" if "i < 256" for i
    using that by (simp add: pr_used_def kheap_init_def)
  then have "prefs_ok (kheap_init v m) []"
    by (simp add: prefs_ok_def kheap_init_def)
  then have "heap_ok (kheap_init v m) K [] (\<lambda>_. []) Map.empty K"
    using assms by (simp add: heap_ok_def kheap_init_def)
  then show ?thesis unfolding heap_inv_def by blast
qed

lemma kheap_sample: "heap_inv (kheap_init vm_sample (\<lambda>_. 0)) Map.empty Map.empty"
  by (rule heap_inv_init [OF vm_sample_rel(2)])

lemma vm_sample_alloc:
  "alloc_kpages 1 vm_sample = Some (0x80031000, vm_sample\<lparr>coremap := cm_take (coremap vm_sample) 1 1\<rparr>)"
proof -
  have "coremap_alloc_loop vm_sample 1 1 0 = Some (0x31000, vm_sample\<lparr>coremap := cm_take (coremap vm_sample) 1 1\<rparr>)"
    by (subst coremap_alloc_loop_found [where s = 1])
      (auto simp: vm_sample_eq free_run_def vm_sample_def vm_bootstrap_def ram_getsize_def ROUNDUP_def DIVROUNDUP_def)
  then show ?thesis
    by (simp add: alloc_kpages_def getppages_def coremap_alloc_def vm_sample_eq PADDR_TO_KVADDR_def MIPS_KSEG0_def)
qed

lemma blocktype_2000: "blocktype 2000 = Some 7"
  by (simp add: blocktype_def blocktype_loop.simps sizes_def)

lemma kheap_sample_alloc: "\<exists>k'. kmalloc 2000 (kheap_init vm_sample (\<lambda>_. 0)) = Some (0x80031800, k')"
proof -
  have "allocpageref ((kheap_init vm_sample (\<lambda>_. 0))\<lparr>kvm := v\<rparr>) = Some (Some 0, (kheap_init vm_sample (\<lambda>_. 0))\<lparr>kvm := v, pagerefs_inuse := (replicate 8 0)[0 := 1]\<rparr>)" for v
    by (simp add: allocpageref_def allocpageref_loop.simps allocpageref_word.simps kheap_init_def)
  then show ?thesis
  using vm_sample_alloc
  by (simp add: kmalloc_def subpage_kmalloc_def blocktype_2000 kheap_init_def subpage_find.simps subpage_newpage_def
    sizes_def freelist_init.simps subpage_doalloc_def PR_PAGEADDR_def MKPAB_def Let_def)
qed

lemma kheap_sample_block:
  obtains k' where "kmalloc 2000 (kheap_init vm_sample (\<lambda>_. 0)) = Some (0x80031800, k')"
    and "heap_inv k' [0x80031800 \<mapsto> 2000] Map.empty"
proof -
  obtain k' where k': "kmalloc 2000 (kheap_init vm_sample (\<lambda>_. 0)) = Some (0x80031800, k')"
    using kheap_sample_alloc by blast
  then show thesis using kh.kmalloc_fresh [OF kheap_sample _ k'] that by auto
qed

subsection \<open>Properties\<close>

text \<open>
  C9.  \<open>kmalloc\<close> never panics on a consistent heap.  It returns NULL, leaving the live blocks
  and the whole of memory as they were, or a new block that is word aligned, does not overlap
  any live block nor any page run that belongs to someone else, and is recorded as live; no
  word of a live block or of such a page run is changed.
\<close>

theorem kmalloc_correct:
  assumes inv: "heap_inv k L X" and sz: "sz < 2 ^ 31"
  shows "\<exists>p k'. kmalloc sz k = Some (p, k') \<and> (\<forall>w. protected L X w \<longrightarrow> kword k' w = kword k w) \<and>
    (if p = 0 then heap_inv k' L X \<and> kword k' = kword k
     else heap_inv k' (L(p \<mapsto> sz)) X \<and> 4 dvd unat p \<and>
       (\<forall>q b. L q = Some b \<longrightarrow> q \<noteq> p \<and> byte_run p sz \<inter> byte_run q b = {}) \<and>
       (\<forall>q m. X q = Some m \<longrightarrow> byte_run p sz \<inter> page_run q m = {}))"
  using inv sz
proof (cases rule: kmalloc_result)
  case (2 p k')
  have "4 dvd unat p" using heap_inv_block_shape [OF 2(4), of p sz] by simp
  moreover have "byte_run p sz \<inter> page_run q m = {}" if "X q = Some m" for q m
    using heap_inv_block_run_disjoint [OF 2(4), of p sz] that by simp
  ultimately show ?thesis
    using 2 kh.kmalloc_disjoint [OF inv sz 2(1,2)] by auto
qed auto

theorem kmalloc_correct_witness:
  "heap_inv (kheap_init vm_sample (\<lambda>_. 0)) Map.empty Map.empty \<and>
   (\<exists>p k'. kmalloc 2000 (kheap_init vm_sample (\<lambda>_. 0)) = Some (p, k') \<and> heap_inv k' [p \<mapsto> 2000] Map.empty)"
  using kmalloc_correct [OF kheap_sample, of 2000] kheap_sample kheap_sample_alloc by auto



lemma kfree_inside_page:
  assumes ok: "heap_ok k K al fl L X" and i: "i \<in> set al" and p: "unat p \<in> page_run (pg k i) 1" "p \<noteq> 0"
    and mis: "(unat p - unat (pg k i)) mod bsize (pagerefs k ! i) \<noteq> 0"
  shows "kfree p k = None"
proof -
  have loc: "subpage_locate k p (allbase k) = Some (Some i)" by (rule subpage_locate_live [OF ok i p(1)])
  have idx: "i < length (pagerefs k)" by (rule prefs_index [OF heap_okD(3) [OF ok] i])
  have t: "PR_BLOCKTYPE (pagerefs k ! i) < 8" using heap_okD(5) [OF ok i] by (simp add: page_ok_def)
  have "unat (p - PR_PAGEADDR (pagerefs k ! i)) = unat p - unat (pg k i)"
    using p(1) by (simp add: pg_def unat_sub word_le_nat_alt page_run_def)
  then have "subpage_kfree p k = None"
    using loc idx t mis by (simp add: subpage_kfree_def Let_def bsize_def)
  then show ?thesis using p(2) by (simp add: kfree_def)
qed



end
