(* ===== verification/Arrays.thy ===== *)
theory Arrays
  imports Memory_Interface
begin

text \<open>
  The resizable pointer arrays of src/kern/lib/array.c and src/kern/include/array.h, on which
  the typed arrays of processes, threads, CPUs and devices are built.  The kernel is compiled
  with \<open>ARRAYS_CHECKED\<close>, so the index checks are assertions.  The contents of the block at
  \<open>a->v\<close> are in the field \<open>ar_v\<close>; \<open>None\<close> is a slot that was never written, and reading one has no
  defined outcome.  The allocator is an argument.
\<close>

subsection \<open>Model\<close>

record 'a arr =
  ar_self :: u32
  ar_vp :: u32
  ar_num :: nat
  ar_max :: nat
  ar_v :: "'a option list"

definition amemcpy :: "'a list \<Rightarrow> 'a list \<Rightarrow> nat \<Rightarrow> 'a list kres" where
  "amemcpy dst src n = (if n \<le> length src \<and> n \<le> length dst then Some (take n src @ drop n dst) else None)"

definition amemmove :: "'a list \<Rightarrow> nat \<Rightarrow> nat \<Rightarrow> nat \<Rightarrow> 'a list kres" where
  "amemmove v d s n =
     (if d + n \<le> length v \<and> s + n \<le> length v
      then Some (take d v @ take n (drop s v) @ drop (d + n) v) else None)"

definition array_init :: "u32 \<Rightarrow> 'a arr" where
  "array_init self = \<lparr>ar_self = self, ar_vp = 0, ar_num = 0, ar_max = 0, ar_v = []\<rparr>"

definition array_create ::
  "(nat \<Rightarrow> 'h \<Rightarrow> (u32 \<times> 'h) kres) \<Rightarrow> 'h \<Rightarrow> ('a arr option \<times> 'h) kres" where
  "array_create kmalloc h = do {
     (p, h1) \<leftarrow> kmalloc 12 h;
     Some (if p \<noteq> 0 then Some (array_init p) else None, h1)
   }"

definition array_cleanup :: "(u32 \<Rightarrow> 'h \<Rightarrow> 'h kres) \<Rightarrow> 'a arr \<Rightarrow> 'h \<Rightarrow> ('a arr \<times> 'h) kres" where
  "array_cleanup kfree a h = do {
     kassert (ar_num a = 0);
     h1 \<leftarrow> kfree (ar_vp a) h;
     Some (a\<lparr>ar_vp := 0, ar_v := []\<rparr>, h1)
   }"

definition array_destroy :: "(u32 \<Rightarrow> 'h \<Rightarrow> 'h kres) \<Rightarrow> 'a arr \<Rightarrow> 'h \<Rightarrow> 'h kres" where
  "array_destroy kfree a h = do {
     (a1, h1) \<leftarrow> array_cleanup kfree a h;
     kfree (ar_self a1) h1
   }"

definition array_num :: "'a arr \<Rightarrow> nat" where
  "array_num a = ar_num a"

definition array_get :: "'a arr \<Rightarrow> nat \<Rightarrow> 'a kres" where
  "array_get a index = do {
     kassert (index < ar_num a);
     x \<leftarrow> aget (ar_v a) index;
     x
   }"

definition array_set :: "'a arr \<Rightarrow> nat \<Rightarrow> 'a \<Rightarrow> 'a arr kres" where
  "array_set a index val = do {
     kassert (index < ar_num a);
     v \<leftarrow> aput (ar_v a) index (Some val);
     Some (a\<lparr>ar_v := v\<rparr>)
   }"

text \<open>The doubling loop of \<open>array_setsize\<close>; the arithmetic is on 32-bit unsigned numbers.\<close>

partial_function (option) array_grow :: "nat \<Rightarrow> nat \<Rightarrow> nat kres" where
  "array_grow num newmax =
     (if num > newmax then array_grow num (if newmax \<noteq> 0 then newmax * 2 mod 2 ^ 32 else 4)
      else Some newmax)"

definition array_setsize ::
  "(nat \<Rightarrow> 'h \<Rightarrow> (u32 \<times> 'h) kres) \<Rightarrow> (u32 \<Rightarrow> 'h \<Rightarrow> 'h kres) \<Rightarrow>
   'a arr \<Rightarrow> nat \<Rightarrow> 'h \<Rightarrow> ('a arr \<times> (errno + unit) \<times> 'h) kres" where
  "array_setsize kmalloc kfree a num h =
     (if num > ar_max a then do {
        newmax \<leftarrow> array_grow num (ar_max a);
        let bytes = newmax * 4 mod 2 ^ 32;
        (newptr, h1) \<leftarrow> kmalloc bytes h;
        if newptr = 0 then Some (a, Inl ENOMEM, h1)
        else do {
          v \<leftarrow> amemcpy (replicate (bytes div 4) None) (ar_v a) (ar_num a);
          h2 \<leftarrow> kfree (ar_vp a) h1;
          Some (a\<lparr>ar_vp := newptr, ar_v := v, ar_max := newmax, ar_num := num\<rparr>, Inr (), h2)
        }
      } else Some (a\<lparr>ar_num := num\<rparr>, Inr (), h))"

definition array_add ::
  "(nat \<Rightarrow> 'h \<Rightarrow> (u32 \<times> 'h) kres) \<Rightarrow> (u32 \<Rightarrow> 'h \<Rightarrow> 'h kres) \<Rightarrow>
   'a arr \<Rightarrow> 'a \<Rightarrow> 'h \<Rightarrow> ('a arr \<times> (errno + nat) \<times> 'h) kres" where
  "array_add kmalloc kfree a val h = do {
     let index = ar_num a;
     (a1, ret, h1) \<leftarrow> array_setsize kmalloc kfree a ((index + 1) mod 2 ^ 32) h;
     case ret of
       Inl e \<Rightarrow> Some (a1, Inl e, h1)
     | Inr _ \<Rightarrow> do {
         v \<leftarrow> aput (ar_v a1) index (Some val);
         Some (a1\<lparr>ar_v := v\<rparr>, Inr index, h1)
       }
   }"

definition array_remove :: "'a arr \<Rightarrow> nat \<Rightarrow> 'a arr kres" where
  "array_remove a index = do {
     kassert (ar_num a \<le> ar_max a);
     kassert (index < ar_num a);
     let num_to_move = ar_num a - (index + 1);
     v \<leftarrow> amemmove (ar_v a) index (index + 1) num_to_move;
     Some (a\<lparr>ar_v := v, ar_num := ar_num a - 1\<rparr>)
   }"

subsection \<open>Growth\<close>

definition grow_size :: "nat \<Rightarrow> bool" where
  "grow_size m \<longleftrightarrow> m = 0 \<or> (\<exists>e. 2 \<le> e \<and> e \<le> 31 \<and> m = 2 ^ e)"

text \<open>The least capacity of the doubling sequence that holds the requested number.\<close>

lemma array_grow_returns:
  assumes "grow_size m" and "num \<le> 2 ^ 31"
  shows "\<exists>m'. array_grow num m = Some m' \<and> grow_size m' \<and> num \<le> m' \<and> m \<le> m' \<and> (m < m' \<longrightarrow> m' < 2 * num \<or> m' = 4)"
  using assms
proof (induction "2 ^ 31 - m" arbitrary: m rule: less_induct)
  case less
  show ?case
  proof (cases "num > m")
    case False
    then show ?thesis using less(2) by (intro exI [of _ m]) (subst array_grow.simps, simp)
  next
    case True
    let ?m = "if m \<noteq> 0 then m * 2 mod 2 ^ 32 else 4"
    have next_m: "grow_size ?m \<and> m < ?m \<and> (?m = 4 \<or> ?m = 2 * m) \<and> ?m \<le> 2 ^ 31"
    proof (cases "m = 0")
      case True
      have "grow_size 4" unfolding grow_size_def by (intro disjI2 exI [of _ 2]) simp
      then show ?thesis using True by simp
    next
      case m: False
      then obtain e where e: "2 \<le> e" "m = 2 ^ e" using less(2) by (auto simp: grow_size_def)
      have "(2 :: nat) ^ e < 2 ^ 31" using True less(3) e(2) by linarith
      then have lt: "e < 31" by (rule power_less_imp_less_exp [rotated]) simp
      then have "(2 :: nat) ^ Suc e \<le> 2 ^ 31" by (intro power_increasing) simp_all
      then have "?m = 2 ^ Suc e" using m e(2) by simp
      moreover have "grow_size (2 ^ Suc e)" unfolding grow_size_def using e(1) lt by (intro disjI2 exI [of _ "Suc e"]) simp
      ultimately show ?thesis using e(2) \<open>(2 :: nat) ^ Suc e \<le> 2 ^ 31\<close> by (simp add: mult.commute)
    qed
    have eq: "array_grow num m = array_grow num ?m" using True by (subst array_grow.simps) simp
    have "2 ^ 31 - ?m < 2 ^ 31 - m" using next_m by (intro diff_less_mono2) linarith+
    then obtain m' where "array_grow num ?m = Some m'" "grow_size m'" "num \<le> m'" "?m \<le> m'"
        "?m < m' \<longrightarrow> m' < 2 * num \<or> m' = 4"
      using less(1) [of ?m] next_m less(3) by blast
    moreover have "m' < 2 * num \<or> m' = 4" using calculation next_m True by (cases "?m < m'") auto
    ultimately show ?thesis using eq next_m by auto
  qed
qed

lemma array_grow_result:
  assumes "array_grow num m = Some m'"
  shows "grow_size m \<longrightarrow> num \<le> m' \<and> m' \<le> 2 ^ 31"
  using assms
proof (rule array_grow.raw_induct [rotated], intro impI)
  fix grow num m m'
  assume IH: "\<And>num m m'. grow num m = Some m' \<Longrightarrow> grow_size m \<longrightarrow> num \<le> m' \<and> m' \<le> 2 ^ 31"
    and step: "(if num > m then grow num (if m \<noteq> 0 then m * 2 mod 2 ^ 32 else 4) else Some m) = Some m'"
    and size: "grow_size m"
  have next_m: "grow_size (if m \<noteq> 0 then m * 2 mod 2 ^ 32 else 4)"
  proof (cases "m = 0")
    case True
    have "grow_size 4" unfolding grow_size_def by (intro disjI2 exI [of _ 2]) simp
    then show ?thesis using True by simp
  next
    case False
    then obtain e where e: "2 \<le> e" "e \<le> 31" "m = 2 ^ e" using size by (auto simp: grow_size_def)
    show ?thesis
    proof (cases "e = 31")
      case True
      then show ?thesis using e(3) by (simp add: grow_size_def)
    next
      case ne: False
      then have "(2 :: nat) ^ Suc e \<le> 2 ^ 31" using e(2) by (intro power_increasing) simp_all
      moreover have "grow_size (2 ^ Suc e)" unfolding grow_size_def using e ne by (intro disjI2 exI [of _ "Suc e"]) simp
      ultimately show ?thesis using e(3) False by (simp add: mult.commute)
    qed
  qed
  show "num \<le> m' \<and> m' \<le> 2 ^ 31"
  proof (cases "num > m")
    case True
    then show ?thesis using IH next_m step by simp
  next
    case False
    then have "m' = m" using step by simp
    moreover have "m \<le> 2 ^ 31"
    proof (cases "m = 0")
      case nz: False
      then obtain e where "e \<le> 31" "m = 2 ^ e" using size by (auto simp: grow_size_def)
      then show ?thesis using power_increasing [of e 31 "2 :: nat"] by simp
    qed simp
    ultimately show ?thesis using False by simp
  qed
qed

subsection \<open>Refinement to lists\<close>

definition arr_wf :: "'a arr \<Rightarrow> bool" where
  "arr_wf a \<longleftrightarrow> ar_num a \<le> ar_max a \<and> length (ar_v a) = ar_max a \<and> grow_size (ar_max a) \<and>
     ar_max a \<le> 2 ^ 28 \<and> (ar_max a = 0 \<longleftrightarrow> ar_vp a = 0)"

definition arr_list :: "'a arr \<Rightarrow> 'a option list" where
  "arr_list a = take (ar_num a) (ar_v a)"

lemma arr_wf_init [simp]: "arr_wf (array_init p)" and arr_list_init [simp]: "arr_list (array_init p) = []"
  by (simp_all add: arr_wf_def arr_list_def array_init_def grow_size_def)

lemma length_arr_list [simp]: "arr_wf a \<Longrightarrow> length (arr_list a) = ar_num a"
  by (simp add: arr_list_def arr_wf_def)

lemma array_get_list: "arr_wf a \<Longrightarrow> i < ar_num a \<Longrightarrow> array_get a i = arr_list a ! i"
  by (simp add: array_get_def arr_wf_def arr_list_def)

lemma array_get_range: "\<not> i < ar_num a \<Longrightarrow> array_get a i = None"
  by (simp add: array_get_def)

lemma array_set_list:
  assumes "arr_wf a" and "i < ar_num a"
  obtains a' where "array_set a i x = Some a'" and "arr_wf a'" and "arr_list a' = (arr_list a)[i := Some x]"
    and "ar_vp a' = ar_vp a" and "ar_max a' = ar_max a" and "ar_self a' = ar_self a"
  using assms that [of "a\<lparr>ar_v := (ar_v a)[i := Some x]\<rparr>"]
  by (auto simp: array_set_def arr_wf_def arr_list_def take_update_swap)

lemma array_remove_list:
  assumes wf: "arr_wf a" and i: "i < ar_num a"
  obtains a' where "array_remove a i = Some a'" and "arr_wf a'"
    and "arr_list a' = take i (arr_list a) @ drop (Suc i) (arr_list a)"
    and "ar_vp a' = ar_vp a" and "ar_max a' = ar_max a" and "ar_self a' = ar_self a"
proof -
  let ?v = "take i (ar_v a) @ take (ar_num a - Suc i) (drop (Suc i) (ar_v a)) @ drop (ar_num a - 1) (ar_v a)"
  let ?a = "a\<lparr>ar_v := ?v, ar_num := ar_num a - 1\<rparr>"
  have len: "ar_num a \<le> length (ar_v a)" using wf by (simp add: arr_wf_def)
  have idx: "i + (ar_num a - Suc i) = ar_num a - 1" using i by simp
  show thesis
  proof (rule that [of ?a])
    show "array_remove a i = Some ?a"
      using wf i len idx by (auto simp: array_remove_def amemmove_def arr_wf_def Let_def)
    show "arr_wf ?a" using wf i len by (auto simp: arr_wf_def)
    show "arr_list ?a = take i (arr_list a) @ drop (Suc i) (arr_list a)"
      using i len idx by (simp add: arr_list_def drop_take min_absorb2)
  qed simp_all
qed

subsection \<open>Arrays on a kernel heap\<close>

definition arr_owned :: "'a arr \<Rightarrow> (u32 \<rightharpoonup> nat) \<Rightarrow> bool" where
  "arr_owned a L \<longleftrightarrow> (ar_max a \<noteq> 0 \<longrightarrow> L (ar_vp a) = Some (4 * ar_max a))"

context kernel_heap
begin

lemma kfree_owned:
  assumes "hrel h L" and "arr_wf a" and "arr_owned a L"
  shows "\<exists>h'. kfree (ar_vp a) h = Some h' \<and> hrel h' (L(ar_vp a := None))"
proof (cases "ar_vp a = 0")
  case True
  have "L 0 = None" using block_shape [OF assms(1), of 0] by (cases "L 0") auto
  then show ?thesis using kfree_null [OF assms(1)] assms(1) True by (simp add: fun_upd_idem)
next
  case False
  then show ?thesis
    using kfree_live [OF assms(1)] assms(2,3) by (auto simp: arr_wf_def arr_owned_def)
qed

lemma array_setsize_cases:
  assumes rel: "hrel h L" and wf: "arr_wf a" and own: "arr_owned a L" and num: "num \<le> 2 ^ 27"
  obtains h' where "array_setsize kmalloc kfree a num h = Some (a, Inl ENOMEM, h')" and "hrel h' L" and "ar_max a < num"
  | a' h' L' where "array_setsize kmalloc kfree a num h = Some (a', Inr (), h')" and "hrel h' L'"
      and "arr_wf a'" and "arr_owned a' L'" and "ar_num a' = num" and "ar_self a' = ar_self a"
      and "take (min num (ar_num a)) (ar_v a') = take (min num (ar_num a)) (ar_v a)"
      and "\<And>q. q \<noteq> ar_vp a \<Longrightarrow> q \<noteq> ar_vp a' \<Longrightarrow> L' q = L q" and "L (ar_vp a') = None \<or> ar_vp a' = ar_vp a"
proof (cases "num > ar_max a")
  case False
  then show thesis
    using that(2) [of "a\<lparr>ar_num := num\<rparr>" h L] rel wf own
    by (auto simp: array_setsize_def arr_wf_def arr_owned_def)
next
  case True
  have "num \<le> 2 ^ 31" using num by simp
  then obtain m where m: "array_grow num (ar_max a) = Some m" "grow_size m" "num \<le> m" "ar_max a \<le> m"
      "ar_max a < m \<longrightarrow> m < 2 * num \<or> m = 4"
    using array_grow_returns [of "ar_max a" num] wf by (auto simp: arr_wf_def)
  have lt: "m \<le> 2 ^ 28" using m True num by auto
  then have bytes: "m * 4 mod 2 ^ 32 = 4 * m" "4 * m < 2 ^ 31" by simp_all
  show thesis
    using rel bytes(2)
  proof (cases rule: kmalloc_cases)
    case (1 h')
    then show thesis using that(1) [of h'] True m(1) bytes by (simp add: array_setsize_def)
  next
    case (2 p h1)
    let ?v = "take (ar_num a) (ar_v a) @ replicate (m - ar_num a) None"
    have own1: "arr_owned a (L(p \<mapsto> 4 * m))" using own 2(3) by (auto simp: arr_owned_def)
    obtain h2 where h2: "kfree (ar_vp a) h1 = Some h2" "hrel h2 (L(p \<mapsto> 4 * m, ar_vp a := None))"
      using kfree_owned [OF 2(4) wf own1] by blast
    have "ar_vp a \<noteq> p"
      using wf own 2(2,3) by (auto simp: arr_wf_def arr_owned_def)
    have copy: "amemcpy (replicate (4 * m div 4) None) (ar_v a) (ar_num a) = Some ?v"
      using wf m(4) by (simp add: amemcpy_def arr_wf_def)
    let ?a = "a\<lparr>ar_vp := p, ar_v := ?v, ar_max := m, ar_num := num\<rparr>"
    show thesis
    proof (rule that(2) [of ?a h2 "L(p \<mapsto> 4 * m, ar_vp a := None)"])
      show "array_setsize kmalloc kfree a num h = Some (?a, Inr (), h2)"
        using True m(1) bytes(1) 2(1,2) copy h2(1) by (simp add: array_setsize_def)
      show "arr_wf ?a" using wf m lt True 2(2) by (auto simp: arr_wf_def)
      show "arr_owned ?a (L(p \<mapsto> 4 * m, ar_vp a := None))"
        using \<open>ar_vp a \<noteq> p\<close> by (simp add: arr_owned_def)
    qed (use h2(2) 2(3) wf True in \<open>auto simp: arr_wf_def\<close>)
  qed
qed

lemma array_add_cases:
  assumes rel: "hrel h L" and wf: "arr_wf a" and own: "arr_owned a L" and num: "ar_num a < 2 ^ 27"
  obtains h' where "array_add kmalloc kfree a x h = Some (a, Inl ENOMEM, h')" and "hrel h' L"
      and "ar_num a = ar_max a"
  | a' h' L' where "array_add kmalloc kfree a x h = Some (a', Inr (ar_num a), h')" and "hrel h' L'"
      and "arr_wf a'" and "arr_owned a' L'" and "arr_list a' = arr_list a @ [Some x]" and "ar_self a' = ar_self a"
      and "\<And>q. q \<noteq> ar_vp a \<Longrightarrow> q \<noteq> ar_vp a' \<Longrightarrow> L' q = L q" and "L (ar_vp a') = None \<or> ar_vp a' = ar_vp a"
proof -
  have num': "ar_num a + 1 \<le> 2 ^ 27" "(ar_num a + 1) mod 2 ^ 32 = ar_num a + 1" using num by simp_all
  show thesis
    using rel wf own num'(1)
  proof (cases rule: array_setsize_cases)
    case (1 h')
    moreover have "ar_num a = ar_max a" using 1(3) wf by (simp add: arr_wf_def)
    ultimately show thesis using that(1) [of h'] num'(2) by (simp add: array_add_def Let_def)
  next
    case (2 a1 h' L')
    let ?a = "a1\<lparr>ar_v := (ar_v a1)[ar_num a := Some x]\<rparr>"
    have len: "ar_num a < length (ar_v a1)" using 2(3,5) by (simp add: arr_wf_def)
    have list: "arr_list ?a = arr_list a @ [Some x]"
      using 2(5,7) len by (simp add: arr_list_def take_Suc_conv_app_nth)
    show thesis
      by (rule that(2) [of ?a h' L'])
        (use 2 len num'(2) list in \<open>auto simp: array_add_def arr_wf_def arr_owned_def Let_def\<close>)
  qed
qed

end

subsection \<open>Properties\<close>

text \<open>
  C22.  When the doubling loop of \<open>array_setsize\<close> ends.  Starting from an empty array, the loop
  finds a capacity exactly for requests of at most \<open>2 ^ 31\<close> elements; for a larger request the
  32-bit capacity wraps to zero and the kernel loops for ever.
\<close>

theorem array_grow_terminates_iff:
  "(\<exists>m. array_grow num 0 = Some m) \<longleftrightarrow> num \<le> 2 ^ 31"
proof
  have size: "grow_size 0" by (simp add: grow_size_def)
  assume "\<exists>m. array_grow num 0 = Some m"
  then show "num \<le> 2 ^ 31" using array_grow_result size by (meson order_trans)
next
  have size: "grow_size 0" by (simp add: grow_size_def)
  assume "num \<le> 2 ^ 31"
  then show "\<exists>m. array_grow num 0 = Some m" using array_grow_returns [OF size] by blast
qed

end
