(* ===== verification/Ring_Queue.thy ===== *)
theory Ring_Queue
  imports Memory_Interface
begin

text \<open>
  The queue of pointers of src/kern/lib/queue.c, a ring buffer that doubles when it is full.
  \<open>q_grow\<close> re-inserts the old elements with \<open>q_addtail\<close>, which itself may call \<open>q_grow\<close>; the
  argument \<open>d\<close> of the model is the number of calls of \<open>q_addtail\<close> that may be active at the same
  time, and two are shown to be enough.  The slots of the buffer are in \<open>q_data\<close>; \<open>None\<close> is a slot
  that was never written.
\<close>

subsection \<open>Model\<close>

record 'a queue =
  q_self :: u32
  q_dp :: u32
  q_size :: int
  q_nextwrite :: int
  q_nextread :: int
  q_data :: "'a option list"

definition int32 :: "int \<Rightarrow> int" where
  "int32 x = sint (word_of_int x :: u32)"

text \<open>The number of pointers that fit in the block obtained for \<open>n * sizeof(void *)\<close> bytes.\<close>

definition q_bytes :: "int \<Rightarrow> nat" where
  "q_bytes n = unat (word_of_int n * 4 :: u32)"

partial_function (option) q_double :: "int \<Rightarrow> int \<Rightarrow> int kres" where
  "q_double nsize targetsize =
     (if nsize < targetsize then do {
        let n = int32 (nsize * 2);
        kassert (n > 0);
        q_double n targetsize
      } else Some nsize)"

definition q_slot :: "'a list \<Rightarrow> int \<Rightarrow> 'a kres" where
  "q_slot xs i = (if i < 0 then None else aget xs (nat i))"

definition q_store :: "'a queue \<Rightarrow> int \<Rightarrow> 'a \<Rightarrow> 'a queue kres" where
  "q_store q i x = (if i < 0 then None else do {
     dat \<leftarrow> aput (q_data q) (nat i) (Some x);
     Some (q\<lparr>q_data := dat\<rparr>)
   })"

text \<open>The loop of \<open>q_grow\<close> over the old elements; \<open>add\<close> is the call of \<open>q_addtail\<close>.\<close>

partial_function (option) q_refill ::
  "('a queue \<Rightarrow> 'a \<Rightarrow> 'h \<Rightarrow> ('a queue \<times> (errno + unit) \<times> 'h) kres) \<Rightarrow>
   'a option list \<Rightarrow> int \<Rightarrow> int \<Rightarrow> int \<Rightarrow> 'a queue \<Rightarrow> 'h \<Rightarrow> ('a queue \<times> 'h) kres" where
  "q_refill add olddata osize onw i q h =
     (if i \<noteq> onw then do {
        slot \<leftarrow> q_slot olddata i;
        x \<leftarrow> slot;
        (q1, result, h1) \<leftarrow> add q x h;
        kassert (result = Inr ());
        q_refill add olddata osize onw ((i + 1) mod osize) q1 h1
      } else Some (q, h))"

definition q_grow ::
  "(nat \<Rightarrow> 'h \<Rightarrow> (u32 \<times> 'h) kres) \<Rightarrow> (u32 \<Rightarrow> 'h \<Rightarrow> 'h kres) \<Rightarrow>
   ('a queue \<Rightarrow> 'a \<Rightarrow> 'h \<Rightarrow> ('a queue \<times> (errno + unit) \<times> 'h) kres) \<Rightarrow>
   'a queue \<Rightarrow> int \<Rightarrow> 'h \<Rightarrow> ('a queue \<times> (errno + unit) \<times> 'h) kres" where
  "q_grow kmalloc kfree add q targetsize h = do {
     nsize \<leftarrow> q_double (q_size q) targetsize;
     (ndata, h1) \<leftarrow> kmalloc (q_bytes nsize) h;
     if ndata = 0 then Some (q, Inl ENOMEM, h1)
     else do {
       let q1 = q\<lparr>q_size := nsize, q_dp := ndata, q_data := replicate (q_bytes nsize div 4) None,
                 q_nextread := 0, q_nextwrite := 0\<rparr>;
       (q2, h2) \<leftarrow> q_refill add (q_data q) (q_size q) (q_nextwrite q) (q_nextread q) q1 h1;
       h3 \<leftarrow> kfree (q_dp q) h2;
       Some (q2, Inr (), h3)
     }
   }"

fun q_addtail ::
  "(nat \<Rightarrow> 'h \<Rightarrow> (u32 \<times> 'h) kres) \<Rightarrow> (u32 \<Rightarrow> 'h \<Rightarrow> 'h kres) \<Rightarrow>
   nat \<Rightarrow> 'a queue \<Rightarrow> 'a \<Rightarrow> 'h \<Rightarrow> ('a queue \<times> (errno + unit) \<times> 'h) kres" where
  "q_addtail kmalloc kfree 0 q ptr h = None"
| "q_addtail kmalloc kfree (Suc d) q ptr h = do {
     kassert (q_size q > 0);
     let nextnext = (q_nextwrite q + 1) mod q_size q;
     if nextnext = q_nextread q then do {
       (q1, result, h1) \<leftarrow> q_grow kmalloc kfree (q_addtail kmalloc kfree d) q (int32 (q_size q + 1)) h;
       if result \<noteq> Inr () then Some (q1, result, h1)
       else do {
         let nextnext1 = (q_nextwrite q1 + 1) mod q_size q1;
         q2 \<leftarrow> q_store q1 (q_nextwrite q1) ptr;
         Some (q2\<lparr>q_nextwrite := nextnext1\<rparr>, Inr (), h1)
       }
     } else do {
       q2 \<leftarrow> q_store q (q_nextwrite q) ptr;
       Some (q2\<lparr>q_nextwrite := nextnext\<rparr>, Inr (), h)
     }
   }"

definition q_create ::
  "(nat \<Rightarrow> 'h \<Rightarrow> (u32 \<times> 'h) kres) \<Rightarrow> (u32 \<Rightarrow> 'h \<Rightarrow> 'h kres) \<Rightarrow> int \<Rightarrow> 'h \<Rightarrow> ('a queue option \<times> 'h) kres" where
  "q_create kmalloc kfree sz h = do {
     (qp, h1) \<leftarrow> kmalloc 16 h;
     if qp = 0 then Some (None, h1)
     else do {
       (dp, h2) \<leftarrow> kmalloc (q_bytes sz) h1;
       if dp = 0 then do { h3 \<leftarrow> kfree qp h2; Some (None, h3) }
       else Some (Some \<lparr>q_self = qp, q_dp = dp, q_size = sz, q_nextwrite = 0, q_nextread = 0,
                        q_data = replicate (q_bytes sz div 4) None\<rparr>, h2)
     }
   }"

definition q_preallocate ::
  "(nat \<Rightarrow> 'h \<Rightarrow> (u32 \<times> 'h) kres) \<Rightarrow> (u32 \<Rightarrow> 'h \<Rightarrow> 'h kres) \<Rightarrow>
   nat \<Rightarrow> 'a queue \<Rightarrow> int \<Rightarrow> 'h \<Rightarrow> ('a queue \<times> (errno + unit) \<times> 'h) kres" where
  "q_preallocate kmalloc kfree d q sz h = do {
     kassert (q_size q > 0);
     if sz > q_size q then q_grow kmalloc kfree (q_addtail kmalloc kfree d) q sz h
     else Some (q, Inr (), h)
   }"

definition q_empty :: "'a queue \<Rightarrow> bool" where
  "q_empty q \<longleftrightarrow> q_nextwrite q = q_nextread q"

definition q_remhead :: "'a queue \<Rightarrow> ('a \<times> 'a queue) kres" where
  "q_remhead q = do {
     kassert (q_size q > 0);
     kassert (\<not> q_empty q);
     slot \<leftarrow> q_slot (q_data q) (q_nextread q);
     x \<leftarrow> slot;
     Some (x, q\<lparr>q_nextread := (q_nextread q + 1) mod q_size q\<rparr>)
   }"

definition q_destroy :: "(u32 \<Rightarrow> 'h \<Rightarrow> 'h kres) \<Rightarrow> 'a queue \<Rightarrow> 'h \<Rightarrow> 'h kres" where
  "q_destroy kfree q h = do {
     kassert (q_empty q);
     h1 \<leftarrow> kfree (q_dp q) h;
     kfree (q_self q) h1
   }"

definition q_getstart :: "'a queue \<Rightarrow> int" where
  "q_getstart q = q_nextread q"

definition q_getend :: "'a queue \<Rightarrow> int" where
  "q_getend q = q_nextwrite q"

definition q_getsize :: "'a queue \<Rightarrow> int" where
  "q_getsize q = q_size q"

definition q_getguy :: "'a queue \<Rightarrow> int \<Rightarrow> 'a kres" where
  "q_getguy q index = do {
     kassert (index \<ge> 0 \<and> index < q_size q);
     slot \<leftarrow> q_slot (q_data q) index;
     slot
   }"

text \<open>\<open>q_peek\<close>: the inner \<open>None\<close> is the null pointer returned for an empty queue.\<close>

definition q_peek :: "'a queue \<Rightarrow> 'a option kres" where
  "q_peek q = do {
     kassert (q_size q > 0);
     if q_empty q then Some None
     else do {
       slot \<leftarrow> q_slot (q_data q) (q_nextread q);
       x \<leftarrow> slot;
       Some (Some x)
     }
   }"

partial_function (option) q_len_loop :: "'a queue \<Rightarrow> int \<Rightarrow> nat \<Rightarrow> nat kres" where
  "q_len_loop q tmp count =
     (if tmp \<noteq> q_nextwrite q then q_len_loop q ((tmp + 1) mod q_size q) (Suc count) else Some count)"

definition q_len :: "'a queue \<Rightarrow> nat kres" where
  "q_len q = q_len_loop q (q_nextread q) 0"

subsection \<open>Abstraction to lists\<close>

definition q_idx :: "'a queue \<Rightarrow> int \<Rightarrow> int" where
  "q_idx q j = (q_nextread q + j) mod q_size q"

definition q_count :: "'a queue \<Rightarrow> int" where
  "q_count q = (q_nextwrite q - q_nextread q) mod q_size q"

definition q_list :: "'a queue \<Rightarrow> 'a list" where
  "q_list q = map (\<lambda>j. the (q_data q ! nat (q_idx q (int j)))) [0..<nat (q_count q)]"

definition q_wf :: "'a queue \<Rightarrow> bool" where
  "q_wf q \<longleftrightarrow> 0 < q_size q \<and> q_size q \<le> 2 ^ 28 \<and> 0 \<le> q_nextread q \<and> q_nextread q < q_size q \<and>
     0 \<le> q_nextwrite q \<and> q_nextwrite q < q_size q \<and> length (q_data q) = nat (q_size q) \<and>
     (\<forall>j. 0 \<le> j \<and> j < q_count q \<longrightarrow> q_data q ! nat (q_idx q j) \<noteq> None)"

lemma q_count_bounds: "q_wf q \<Longrightarrow> 0 \<le> q_count q \<and> q_count q < q_size q"
  by (simp add: q_wf_def q_count_def)

lemma length_q_list [simp]: "length (q_list q) = nat (q_count q)"
  by (simp add: q_list_def)

lemma nth_q_list: "j < nat (q_count q) \<Longrightarrow> q_list q ! j = the (q_data q ! nat (q_idx q (int j)))"
  by (simp add: q_list_def)

lemma q_idx_bounds: "q_wf q \<Longrightarrow> 0 \<le> q_idx q j \<and> q_idx q j < q_size q"
  by (simp add: q_wf_def q_idx_def)

lemma q_idx_count: "q_wf q \<Longrightarrow> q_idx q (q_count q) = q_nextwrite q"
  by (simp add: q_wf_def q_idx_def q_count_def mod_add_right_eq)

lemma q_idx_inj:
  assumes "q_wf q" and "q_idx q i = q_idx q j" and "0 \<le> i" "i < q_size q" "0 \<le> j" "j < q_size q"
  shows "i = j"
proof -
  have "q_size q dvd i - j" using assms(2) by (simp add: q_idx_def mod_eq_dvd_iff)
  moreover have "\<bar>i - j\<bar> < q_size q" using assms(3-6) by simp
  ultimately show ?thesis using zdvd_imp_le [of "q_size q" "i - j"] dvd_imp_le_int [of "i - j" "q_size q"]
    by (cases "i = j") auto
qed

lemma q_empty_count: "q_wf q \<Longrightarrow> q_empty q \<longleftrightarrow> q_count q = 0"
proof
  assume "q_wf q" "q_count q = 0"
  then show "q_empty q" using q_idx_count [of q] by (simp add: q_empty_def q_idx_def q_wf_def)
qed (simp add: q_empty_def q_count_def)

lemma q_full_iff:
  assumes wf: "q_wf q"
  shows "(q_nextwrite q + 1) mod q_size q = q_nextread q \<longleftrightarrow> q_count q + 1 = q_size q"
proof -
  have "(q_nextwrite q + 1) mod q_size q = q_idx q (q_count q + 1)"
    using q_idx_count [OF wf] by (simp add: q_idx_def mod_simps flip: add.assoc) (metis mod_add_left_eq)
  moreover have "q_nextread q = q_idx q 0" using wf by (simp add: q_idx_def q_wf_def)
  moreover have "q_idx q (q_size q) = q_idx q 0" by (simp add: q_idx_def)
  moreover have "q_idx q (q_count q + 1) = q_idx q 0 \<longleftrightarrow> q_count q + 1 = q_size q"
  proof (cases "q_count q + 1 < q_size q")
    case True
    then show ?thesis using q_idx_inj [OF wf, of "q_count q + 1" 0] q_count_bounds [OF wf] by auto
  next
    case False
    then have "q_count q + 1 = q_size q" using q_count_bounds [OF wf] by linarith
    then show ?thesis using \<open>q_idx q (q_size q) = q_idx q 0\<close> by simp
  qed
  ultimately show ?thesis by simp
qed

lemma q_push_ok:
  fixes x :: 'a
  assumes wf: "q_wf q" and room: "q_count q + 1 < q_size q"
  defines "q' \<equiv> q\<lparr>q_data := (q_data q)[nat (q_nextwrite q) := Some x], q_nextwrite := (q_nextwrite q + 1) mod q_size q\<rparr>"
  shows "q_store q (q_nextwrite q) x = Some (q\<lparr>q_data := (q_data q)[nat (q_nextwrite q) := Some x]\<rparr>)"
    and "q_wf q'" and "q_list q' = q_list q @ [x]" and "q_count q' = q_count q + 1"
proof -
  note b = q_count_bounds [OF wf]
  have nw: "0 \<le> q_nextwrite q" "nat (q_nextwrite q) < length (q_data q)" using wf by (auto simp: q_wf_def)
  then show "q_store q (q_nextwrite q) x = Some (q\<lparr>q_data := (q_data q)[nat (q_nextwrite q) := Some x]\<rparr>)"
    by (simp add: q_store_def)
  have idx: "q_idx q' j = q_idx q j" for j by (simp add: q'_def q_idx_def)
  have "q_count q' = (q_nextwrite q - q_nextread q + 1) mod q_size q"
    by (simp add: q'_def q_count_def mod_diff_left_eq algebra_simps)
  also have "\<dots> = (q_count q + 1) mod q_size q" by (simp add: q_count_def mod_add_left_eq)
  finally show cnt: "q_count q' = q_count q + 1" using b room by simp
  have at: "q_data q' ! nat (q_idx q j) = (if j = q_count q then Some x else q_data q ! nat (q_idx q j))"
    if "0 \<le> j" "j \<le> q_count q" for j
  proof (cases "j = q_count q")
    case True
    then show ?thesis using nw q_idx_count [OF wf] by (simp add: q'_def)
  next
    case False
    then have "q_idx q j \<noteq> q_nextwrite q"
      using q_idx_inj [OF wf, of j "q_count q"] q_idx_count [OF wf] that b by auto
    then have "nat (q_idx q j) \<noteq> nat (q_nextwrite q)" using q_idx_bounds [OF wf, of j] nw(1) by (simp add: eq_nat_nat_iff)
    then show ?thesis using False by (simp add: q'_def)
  qed
  have "q_size q' = q_size q" "q_nextread q' = q_nextread q" "length (q_data q') = length (q_data q)"
      "q_nextwrite q' = (q_nextwrite q + 1) mod q_size q"
    by (simp_all add: q'_def)
  then show "q_wf q'" using wf at cnt unfolding q_wf_def idx by auto
  have "nat (q_count q') = Suc (nat (q_count q))"
    using cnt b by (simp add: Suc_nat_eq_nat_zadd1 add.commute)
  then show "q_list q' = q_list q @ [x]"
    using at b by (auto simp: q_list_def idx intro!: map_cong)
qed

lemma q_pop_ok:
  assumes wf: "q_wf q" and ne: "q_count q > 0"
  shows "\<exists>q'. q_remhead q = Some (hd (q_list q), q') \<and> q_wf q' \<and> q_list q' = tl (q_list q) \<and>
    q_size q' = q_size q \<and> q_data q' = q_data q \<and> q_dp q' = q_dp q \<and> q_self q' = q_self q"
proof -
  note b = q_count_bounds [OF wf]
  define q' where "q' = q\<lparr>q_nextread := (q_nextread q + 1) mod q_size q\<rparr>"
  have s: "0 < q_size q" using wf by (simp add: q_wf_def)
  have idx: "q_idx q' j = q_idx q (j + 1)" for j
    by (simp add: q'_def q_idx_def mod_add_left_eq mod_add_right_eq algebra_simps)
  have "q_count q' = (q_nextwrite q - q_nextread q - 1) mod q_size q"
    by (simp add: q'_def q_count_def mod_diff_right_eq algebra_simps)
  also have "\<dots> = (q_count q - 1) mod q_size q" by (simp add: q_count_def mod_diff_left_eq)
  finally have cnt: "q_count q' = q_count q - 1" using b ne by simp
  have hd: "q_data q ! nat (q_nextread q) = Some (hd (q_list q))"
  proof -
    have "q_idx q 0 = q_nextread q" using wf by (simp add: q_idx_def q_wf_def)
    then show ?thesis using wf ne unfolding q_wf_def q_list_def
      by (auto simp: upt_conv_Cons hd_map)
  qed
  have n: "nat (q_count q) = Suc (nat (q_count q'))" using cnt ne by simp
  have "q_list q' = tl (q_list q)"
  proof (rule nth_equalityI)
    fix i assume "i < length (q_list q')"
    then have "i < nat (q_count q')" by simp
    moreover have "q_data q' = q_data q" by (simp add: q'_def)
    ultimately show "q_list q' ! i = tl (q_list q) ! i"
      using n nth_q_list [of i q'] nth_q_list [of "Suc i" q] by (simp add: nth_tl idx add.commute)
  qed (simp add: n)
  moreover have "q_wf q'" using wf s cnt unfolding q_wf_def idx by (auto simp: q'_def)
  moreover have "q_remhead q = Some (hd (q_list q), q')"
    using wf hd ne q_empty_count [OF wf] unfolding q_wf_def by (simp add: q_remhead_def q_slot_def q'_def)
  ultimately show ?thesis by (auto simp: q'_def)
qed

lemma q_len_loop_ok:
  assumes wf: "q_wf q" and "0 \<le> j" and "j \<le> q_count q"
  shows "q_len_loop q (q_idx q j) n = Some (n + nat (q_count q - j))"
  using assms(2,3)
proof (induction "nat (q_count q - j)" arbitrary: j n rule: less_induct)
  case less
  show ?case
  proof (cases "j = q_count q")
    case True
    then show ?thesis using q_idx_count [OF wf] by (subst q_len_loop.simps) simp
  next
    case False
    then have j: "j < q_count q" using less(3) by simp
    then have "q_idx q j \<noteq> q_nextwrite q"
      using q_idx_inj [OF wf, of j "q_count q"] q_idx_count [OF wf] less(2) q_count_bounds [OF wf] by auto
    moreover have "(q_idx q j + 1) mod q_size q = q_idx q (j + 1)"
      by (simp add: q_idx_def mod_add_left_eq add.assoc)
    ultimately show ?thesis
      using less(1) [of "j + 1" "Suc n"] less(2) j by (subst q_len_loop.simps) simp
  qed
qed

lemma q_len_ok:
  assumes "q_wf q"
  shows "q_len q = Some (length (q_list q))"
proof -
  have "q_idx q 0 = q_nextread q" using assms by (simp add: q_idx_def q_wf_def)
  then show ?thesis using q_len_loop_ok [OF assms, of 0 0] q_count_bounds [OF assms] by (simp add: q_len_def)
qed

subsection \<open>Growth\<close>

lemma int32_id: "- (2 ^ 31) \<le> x \<Longrightarrow> x < 2 ^ 31 \<Longrightarrow> int32 x = x"
  by (simp add: int32_def sint_sbintrunc' signed_take_bit_int_eq_self)

lemma q_bytes_eq: "0 \<le> n \<Longrightarrow> n \<le> 2 ^ 28 \<Longrightarrow> q_bytes n = 4 * nat n"
proof -
  assume n: "0 \<le> n" "n \<le> 2 ^ 28"
  have "(word_of_int n * 4 :: u32) = of_nat (4 * nat n)" using n(1) by simp
  then have "q_bytes n = unat (of_nat (4 * nat n) :: u32)" by (simp only: q_bytes_def)
  also have "\<dots> = 4 * nat n" using n by (intro unat_of_nat_u32) auto
  finally show ?thesis .
qed

lemma q_double_ok:
  assumes "0 < n" and "t \<le> 2 ^ 27"
  shows "\<exists>n'. q_double n t = Some n' \<and> n \<le> n' \<and> t \<le> n' \<and> (n < n' \<longrightarrow> n' < 2 * t)"
  using assms
proof (induction "nat (t - n)" arbitrary: n rule: less_induct)
  case less
  show ?case
  proof (cases "n < t")
    case False
    then show ?thesis using less(2) by (intro exI [of _ n]) (subst q_double.simps, simp)
  next
    case True
    then have i: "int32 (n * 2) = n * 2" using less(2,3) by (intro int32_id) auto
    obtain n' where "q_double (n * 2) t = Some n'" "n * 2 \<le> n'" "t \<le> n'" "n * 2 < n' \<longrightarrow> n' < 2 * t"
      using less(1) [of "n * 2"] less(2,3) True by auto
    then show ?thesis
      using i True less(2) by (intro exI [of _ n']) (subst q_double.simps, auto simp: Let_def)
  qed
qed

context kernel_heap
begin

lemma q_addtail_room:
  assumes "q_wf q" and "q_count q + 1 < q_size q"
  shows "\<exists>q'. q_addtail kmalloc kfree (Suc d) q x h = Some (q', Inr (), h) \<and> q_wf q' \<and>
    q_list q' = q_list q @ [x] \<and> q_count q' = q_count q + 1 \<and> q_size q' = q_size q \<and>
    q_dp q' = q_dp q \<and> q_self q' = q_self q"
proof -
  have "(q_nextwrite q + 1) mod q_size q \<noteq> q_nextread q" using q_full_iff [OF assms(1)] assms(2) by simp
  moreover have "0 < q_size q" using assms(1) by (simp add: q_wf_def)
  ultimately show ?thesis using q_push_ok [OF assms, of x] by (simp add: Let_def)
qed

lemma q_refill_ok:
  assumes old: "q_wf q0" and "q_wf q" and "0 \<le> j" and "j \<le> q_count q0"
    and "q_list q = take (nat j) (q_list q0)" and "q_count q = j" and "q_count q0 < q_size q"
  shows "\<exists>q'. q_refill (q_addtail kmalloc kfree (Suc d)) (q_data q0) (q_size q0) (q_nextwrite q0) (q_idx q0 j) q h
      = Some (q', h) \<and> q_wf q' \<and> q_list q' = q_list q0 \<and> q_count q' = q_count q0 \<and> q_size q' = q_size q \<and>
    q_dp q' = q_dp q \<and> q_self q' = q_self q"
  using assms(2-)
proof (induction "nat (q_count q0 - j)" arbitrary: j q rule: less_induct)
  case less
  note b = q_count_bounds [OF old]
  show ?case
  proof (cases "j = q_count q0")
    case True
    then show ?thesis
      using q_idx_count [OF old] less(2,5,6) by (subst q_refill.simps) simp
  next
    case False
    then have j: "0 \<le> j" "j < q_count q0" using less(3,4) by simp_all
    have ne: "q_idx q0 j \<noteq> q_nextwrite q0"
      using q_idx_inj [OF old, of j "q_count q0"] q_idx_count [OF old] j b by auto
    let ?x = "q_list q0 ! nat j"
    have slot: "q_slot (q_data q0) (q_idx q0 j) = Some (Some ?x)"
      using old j q_idx_bounds [OF old, of j] nth_q_list [of "nat j" q0]
      by (auto simp: q_slot_def q_wf_def)
    have step: "(q_idx q0 j + 1) mod q_size q0 = q_idx q0 (j + 1)"
      by (simp add: q_idx_def mod_add_left_eq add.assoc)
    obtain q1 where q1: "q_addtail kmalloc kfree (Suc d) q ?x h = Some (q1, Inr (), h)" "q_wf q1"
        "q_list q1 = q_list q @ [?x]" "q_count q1 = q_count q + 1" "q_size q1 = q_size q"
        "q_dp q1 = q_dp q" "q_self q1 = q_self q"
      using q_addtail_room [of q d ?x h] less(2,6,7) j by auto
    have "q_list q1 = take (nat (j + 1)) (q_list q0)"
      using q1(3) less(5) j by (simp add: nat_add_distrib take_Suc_conv_app_nth)
    then obtain q' where q': "q_refill (q_addtail kmalloc kfree (Suc d)) (q_data q0) (q_size q0) (q_nextwrite q0)
          (q_idx q0 (j + 1)) q1 h = Some (q', h)" "q_wf q'" "q_list q' = q_list q0" "q_count q' = q_count q0"
        "q_size q' = q_size q1" "q_dp q' = q_dp q1" "q_self q' = q_self q1"
      using less(1) [of "j + 1" q1] q1 j less(6,7) by auto
    have "q_refill (q_addtail kmalloc kfree (Suc d)) (q_data q0) (q_size q0) (q_nextwrite q0) (q_idx q0 j) q h
        = Some (q', h)"
      using ne slot q1(1) q'(1) by (subst q_refill.simps) (simp add: step del: q_addtail.simps)
    then show ?thesis using q' q1 by auto
  qed
qed

lemma q_grow_cases:
  assumes rel: "hrel h L" and wf: "q_wf q" and own: "L (q_dp q) = Some (4 * nat (q_size q))"
    and t: "q_size q < t" "t \<le> 2 ^ 27"
  obtains h' where "q_grow kmalloc kfree (q_addtail kmalloc kfree (Suc d)) q t h = Some (q, Inl ENOMEM, h')" "hrel h' L"
  | q' h' where "q_grow kmalloc kfree (q_addtail kmalloc kfree (Suc d)) q t h = Some (q', Inr (), h')"
      "hrel h' (L(q_dp q' \<mapsto> 4 * nat (q_size q'), q_dp q := None))" "L (q_dp q') = None" "q_wf q'"
      "q_list q' = q_list q" "q_count q' = q_count q" "t \<le> q_size q'" "q_self q' = q_self q"
proof -
  obtain n where n: "q_double (q_size q) t = Some n" "t \<le> n" "n < 2 * t"
    using q_double_ok [of "q_size q" t] wf t by (auto simp: q_wf_def)
  have n28: "0 \<le> n" "n \<le> 2 ^ 28" using n wf t by (auto simp: q_wf_def)
  note bytes = q_bytes_eq [OF n28]
  have lt: "4 * nat n < 2 ^ 31" using n28 by auto
  show thesis
    using rel lt
  proof (cases rule: kmalloc_cases)
    case (1 h')
    then show thesis using that(1) n(1) bytes by (simp add: q_grow_def)
  next
    case (2 p h1)
    let ?q1 = "q\<lparr>q_size := n, q_dp := p, q_data := replicate (nat n) None, q_nextread := 0, q_nextwrite := 0\<rparr>"
    have c0: "q_count ?q1 = 0" by (simp add: q_count_def)
    have wf1: "q_wf ?q1" using n28 n t wf unfolding q_wf_def c0 by auto
    have l1: "q_list ?q1 = take (nat 0) (q_list q)" by (simp add: q_list_def c0)
    have i0: "q_idx q 0 = q_nextread q" using wf by (simp add: q_idx_def q_wf_def)
    obtain q' where q': "q_refill (q_addtail kmalloc kfree (Suc d)) (q_data q) (q_size q) (q_nextwrite q) (q_nextread q) ?q1 h1
        = Some (q', h1)" "q_wf q'" "q_list q' = q_list q" "q_count q' = q_count q" "q_size q' = n" "q_dp q' = p" "q_self q' = q_self q"
      using q_refill_ok [OF wf wf1 _ _ l1 c0, of d h1] q_count_bounds [OF wf] n t i0 by auto
    have "(L(p \<mapsto> 4 * nat n)) (q_dp q) = Some (4 * nat (q_size q))" using own 2(3) by auto
    then obtain h2 where h2: "kfree (q_dp q) h1 = Some h2" "hrel h2 (L(p \<mapsto> 4 * nat n, q_dp q := None))"
      using kfree_live [OF 2(4)] by blast
    have "q_grow kmalloc kfree (q_addtail kmalloc kfree (Suc d)) q t h = Some (q', Inr (), h2)"
      using n(1) bytes 2(1,2) q'(1) h2(1) by (simp add: q_grow_def Let_def del: q_addtail.simps)
    then show thesis using that(2) [of q' h2] h2 q' 2(3) n by simp
  qed
qed

lemma q_addtail_cases:
  assumes rel: "hrel h L" and wf: "q_wf q" and own: "L (q_dp q) = Some (4 * nat (q_size q))"
    and sz: "q_size q < 2 ^ 27"
  obtains h' where "q_addtail kmalloc kfree (Suc (Suc d)) q x h = Some (q, Inl ENOMEM, h')" and "hrel h' L"
      and "q_count q + 1 = q_size q"
  | q' h' L' where "q_addtail kmalloc kfree (Suc (Suc d)) q x h = Some (q', Inr (), h')" and "hrel h' L'"
      and "L' (q_dp q') = Some (4 * nat (q_size q'))" and "q_wf q'" and "q_list q' = q_list q @ [x]"
      and "q_self q' = q_self q" and "\<And>p. p \<noteq> q_dp q \<Longrightarrow> p \<noteq> q_dp q' \<Longrightarrow> L' p = L p"
proof (cases "q_count q + 1 = q_size q")
  case False
  then have "q_count q + 1 < q_size q" using q_count_bounds [OF wf] by simp
  then obtain q' where "q_addtail kmalloc kfree (Suc (Suc d)) q x h = Some (q', Inr (), h)" "q_wf q'"
      "q_list q' = q_list q @ [x]" "q_size q' = q_size q" "q_dp q' = q_dp q" "q_self q' = q_self q"
    using q_addtail_room [OF wf, of "Suc d" x h] by blast
  then show thesis using that(2) [of q' h L] rel own by simp
next
  case full: True
  then have nn: "(q_nextwrite q + 1) mod q_size q = q_nextread q" using q_full_iff [OF wf] by simp
  have pos: "0 < q_size q" using wf by (simp add: q_wf_def)
  have i: "int32 (q_size q + 1) = q_size q + 1" using sz pos by (intro int32_id) auto
  have t: "q_size q < q_size q + 1" "q_size q + 1 \<le> 2 ^ 27" using sz by auto
  show thesis
    using rel wf own t
  proof (cases rule: q_grow_cases [where d = d])
    case (1 h')
    then show thesis using that(1) nn pos i full by (simp add: Let_def del: q_addtail.simps add: q_addtail.simps(2) [of _ _ "Suc d"])
  next
    case (2 q1 h')
    have room: "q_count q1 + 1 < q_size q1" using 2(6,7) full by simp
    note push = q_push_ok [OF 2(4) room, of x]
    let ?q = "q1\<lparr>q_data := (q_data q1)[nat (q_nextwrite q1) := Some x], q_nextwrite := (q_nextwrite q1 + 1) mod q_size q1\<rparr>"
    have "q_addtail kmalloc kfree (Suc (Suc d)) q x h = Some (?q, Inr (), h')"
      using nn pos i 2(1) push(1) by (simp add: Let_def del: q_addtail.simps add: q_addtail.simps(2) [of _ _ "Suc d"])
    moreover have "q_dp q \<noteq> q_dp q1" using own 2(3) by auto
    ultimately show thesis
      using that(2) [of ?q h' "L(q_dp q1 \<mapsto> 4 * nat (q_size q1), q_dp q := None)"] 2 push(2,3) by simp
  qed
qed

end

end
