(* ===== verification/Addrspace.thy ===== *)
theory Addrspace
  imports Kmalloc_Correct
begin

text \<open>
  Address spaces and page faults of src/kern/arch/mips/vm/dumbvm.c, with the structures of
  src/kern/include/addrspace.h and pagetable.h and the TLB constants of
  src/kern/arch/mips/include/tlb.h.  Page tables are arrays of physical addresses that live in
  kernel pages, so their entries are words of \<open>kword\<close>; the page frames of a process live in
  the same memory.  Reading or writing kernel memory outside kseg0 has no defined outcome.
\<close>

subsection \<open>Kernel memory\<close>

definition kseg0 :: "vaddr \<Rightarrow> bool" where
  "kseg0 a \<longleftrightarrow> 0x80000000 \<le> a \<and> a < 0xa0000000"

definition kread :: "kstate \<Rightarrow> vaddr \<Rightarrow> u32 kres" where
  "kread k a = (if kseg0 a then Some (kword k a) else None)"

definition kwrite :: "vaddr \<Rightarrow> u32 \<Rightarrow> kstate \<Rightarrow> kstate kres" where
  "kwrite a x k = (if kseg0 a then Some (k\<lparr>kword := (kword k)(a := x)\<rparr>) else None)"

definition bzero :: "vaddr \<Rightarrow> nat \<Rightarrow> kstate \<Rightarrow> kstate" where
  "bzero a len k = k\<lparr>kword := (\<lambda>w. if unat w \<in> byte_run a len then 0 else kword k w)\<rparr>"

definition memmove :: "vaddr \<Rightarrow> vaddr \<Rightarrow> nat \<Rightarrow> kstate \<Rightarrow> kstate" where
  "memmove dst src len k =
     k\<lparr>kword := (\<lambda>w. if unat w \<in> byte_run dst len then kword k (w - dst + src) else kword k w)\<rparr>"

text \<open>The page-level entry points on the whole kernel state.\<close>

definition k_getppages :: "nat \<Rightarrow> kstate \<Rightarrow> (paddr \<times> kstate) kres" where
  "k_getppages n k = do { (pa, v) \<leftarrow> getppages n (kvm k); Some (pa, k\<lparr>kvm := v\<rparr>) }"

definition k_alloc_kpages :: "nat \<Rightarrow> kstate \<Rightarrow> (vaddr \<times> kstate) kres" where
  "k_alloc_kpages n k = do { (va, v) \<leftarrow> alloc_kpages n (kvm k); Some (va, k\<lparr>kvm := v\<rparr>) }"

definition k_free_kpages :: "vaddr \<Rightarrow> kstate \<Rightarrow> kstate kres" where
  "k_free_kpages va k = do { v \<leftarrow> free_kpages va (kvm k); Some (k\<lparr>kvm := v\<rparr>) }"

subsection \<open>Model\<close>

definition DUMBVM_STACKPAGES :: nat where
  "DUMBVM_STACKPAGES = 12"

definition USERSTACK :: vaddr where
  "USERSTACK = 0x80000000"

record addrspace =
  as_self :: vaddr
  as_vbase1 :: vaddr
  page_pbase1 :: vaddr
  as_npages1 :: nat
  as_vbase2 :: vaddr
  page_pbase2 :: vaddr
  as_npages2 :: nat
  page_stackpbase :: vaddr

definition pagetable_alloc :: "nat \<Rightarrow> kstate \<Rightarrow> (vaddr \<times> kstate) kres" where
  "pagetable_alloc npages k =
     (let page_table_size = npages * 4 mod 2 ^ 32;
          page_table_pages = DIVROUNDUP32 page_table_size 4096 * 4096 div 4096
      in k_alloc_kpages page_table_pages k)"

definition as_create :: "kstate \<Rightarrow> (addrspace option \<times> kstate) kres" where
  "as_create k = do {
     (p, k1) \<leftarrow> kmalloc 28 k;
     Some (if p = 0 then None
           else Some \<lparr>as_self = p, as_vbase1 = 0, page_pbase1 = 0, as_npages1 = 0, as_vbase2 = 0,
                      page_pbase2 = 0, as_npages2 = 0, page_stackpbase = 0\<rparr>, k1)
   }"

text \<open>The three loops of \<open>as_destroy\<close> over the entries of a page table.\<close>

function free_frames :: "vaddr \<Rightarrow> nat \<Rightarrow> nat \<Rightarrow> kstate \<Rightarrow> kstate kres" where
  "free_frames table i n k =
     (if i < n then do {
        pa \<leftarrow> kread k (table + of_nat (4 * i));
        k1 \<leftarrow> k_free_kpages (PADDR_TO_KVADDR pa) k;
        free_frames table (Suc i) n k1
      } else Some k)"
  by auto
termination
  by (relation "measure (\<lambda>(table, i, n, k). n - i)") auto

definition as_destroy :: "addrspace \<Rightarrow> kstate \<Rightarrow> kstate kres" where
  "as_destroy as k0 = do {
     k1 \<leftarrow> free_frames (page_pbase1 as) 0 (as_npages1 as) k0;
     k2 \<leftarrow> free_frames (page_pbase2 as) 0 (as_npages2 as) k1;
     k3 \<leftarrow> free_frames (page_stackpbase as) 0 DUMBVM_STACKPAGES k2;
     k4 \<leftarrow> k_free_kpages (page_pbase1 as) k3;
     k5 \<leftarrow> k_free_kpages (page_pbase2 as) k4;
     k6 \<leftarrow> k_free_kpages (page_stackpbase as) k5;
     kfree (as_self as) k6
   }"

definition as_define_region :: "addrspace \<Rightarrow> vaddr \<Rightarrow> u32 \<Rightarrow> addrspace \<times> (errno + unit)" where
  "as_define_region as vaddr0 sz0 =
     (let sz1 = sz0 + (vaddr0 AND NOT PAGE_FRAME);
          vaddr = vaddr0 AND PAGE_FRAME;
          sz = (sz1 + 4096 - 1) AND PAGE_FRAME;
          npages = unat sz div 4096
      in if as_vbase1 as = 0 then (as\<lparr>as_vbase1 := vaddr, as_npages1 := npages\<rparr>, Inr ())
         else if as_vbase2 as = 0 then (as\<lparr>as_vbase2 := vaddr, as_npages2 := npages\<rparr>, Inr ())
         else (as, Inl EUNIMP))"

definition as_zero_region :: "paddr \<Rightarrow> nat \<Rightarrow> kstate \<Rightarrow> kstate" where
  "as_zero_region pa npages k = bzero (PADDR_TO_KVADDR pa) (npages * 4096 mod 2 ^ 32) k"

text \<open>The three loops of \<open>as_prepare_load\<close> that allocate and clear the frames of a page table.\<close>

function map_frames :: "vaddr \<Rightarrow> nat \<Rightarrow> nat \<Rightarrow> kstate \<Rightarrow> ((errno + unit) \<times> kstate) kres" where
  "map_frames table i n k =
     (if i < n then do {
        (pa, k1) \<leftarrow> k_getppages 1 k;
        k2 \<leftarrow> kwrite (table + of_nat (4 * i)) pa k1;
        if pa = 0 then Some (Inl ENOMEM, k2)
        else map_frames table (Suc i) n (as_zero_region pa 1 k2)
      } else Some (Inr (), k))"
  by auto
termination
  by (relation "measure (\<lambda>(table, i, n, k). n - i)") auto

definition as_prepare_load :: "addrspace \<Rightarrow> kstate \<Rightarrow> (addrspace \<times> (errno + unit) \<times> kstate) kres" where
  "as_prepare_load as0 k0 = do {
     kassert (page_pbase1 as0 = 0);
     kassert (page_pbase2 as0 = 0);
     kassert (page_stackpbase as0 = 0);
     (t1, k1) \<leftarrow> pagetable_alloc (as_npages1 as0) k0;
     let as1 = as0\<lparr>page_pbase1 := t1\<rparr>;
     if t1 = 0 then Some (as1, Inl ENOMEM, k1) else do {
     (t2, k2) \<leftarrow> pagetable_alloc (as_npages2 as1) k1;
     let as2 = as1\<lparr>page_pbase2 := t2\<rparr>;
     if t2 = 0 then Some (as2, Inl ENOMEM, k2) else do {
     (t3, k3) \<leftarrow> pagetable_alloc DUMBVM_STACKPAGES k2;
     let as3 = as2\<lparr>page_stackpbase := t3\<rparr>;
     if t3 = 0 then Some (as3, Inl ENOMEM, k3) else do {
     (r4, k4) \<leftarrow> map_frames (page_pbase1 as3) 0 (as_npages1 as3) k3;
     if r4 \<noteq> Inr () then Some (as3, r4, k4) else do {
     (r5, k5) \<leftarrow> map_frames (page_pbase2 as3) 0 (as_npages2 as3) k4;
     if r5 \<noteq> Inr () then Some (as3, r5, k5) else do {
     (r6, k6) \<leftarrow> map_frames (page_stackpbase as3) 0 DUMBVM_STACKPAGES k5;
     Some (as3, r6, k6) }}}}}
   }"

definition as_define_stack :: "addrspace \<Rightarrow> vaddr kres" where
  "as_define_stack as = do {
     kassert (page_stackpbase as \<noteq> 0);
     Some USERSTACK
   }"

function copy_frames :: "vaddr \<Rightarrow> vaddr \<Rightarrow> nat \<Rightarrow> nat \<Rightarrow> kstate \<Rightarrow> kstate kres" where
  "copy_frames new old i n k =
     (if i < n then do {
        npa \<leftarrow> kread k (new + of_nat (4 * i));
        opa \<leftarrow> kread k (old + of_nat (4 * i));
        copy_frames new old (Suc i) n (memmove (PADDR_TO_KVADDR npa) (PADDR_TO_KVADDR opa) 4096 k)
      } else Some k)"
  by auto
termination
  by (relation "measure (\<lambda>(new, old, i, n, k). n - i)") auto

definition as_copy :: "addrspace \<Rightarrow> kstate \<Rightarrow> ((errno + addrspace) \<times> kstate) kres" where
  "as_copy old k0 = do {
     (r, k1) \<leftarrow> as_create k0;
     case r of
       None \<Rightarrow> Some (Inl ENOMEM, k1)
     | Some new0 \<Rightarrow> do {
         let new1 = new0\<lparr>as_vbase1 := as_vbase1 old, as_npages1 := as_npages1 old,
                         as_vbase2 := as_vbase2 old, as_npages2 := as_npages2 old\<rparr>;
         (new, r2, k2) \<leftarrow> as_prepare_load new1 k1;
         if r2 \<noteq> Inr () then do { k3 \<leftarrow> as_destroy new k2; Some (Inl ENOMEM, k3) }
         else do {
           kassert (page_pbase1 new \<noteq> 0);
           kassert (page_pbase2 new \<noteq> 0);
           kassert (page_stackpbase new \<noteq> 0);
           k3 \<leftarrow> copy_frames (page_pbase1 new) (page_pbase1 old) 0 (as_npages1 new) k2;
           k4 \<leftarrow> copy_frames (page_pbase2 new) (page_pbase2 old) 0 (as_npages2 new) k3;
           k5 \<leftarrow> copy_frames (page_stackpbase new) (page_stackpbase old) 0 DUMBVM_STACKPAGES k4;
           Some (Inr new, k5)
         }
       }
   }"

declare free_frames.simps [simp del] map_frames.simps [simp del] copy_frames.simps [simp del]

subsection \<open>Address spaces in memory\<close>

text \<open>
  \<open>table_at k t F\<close>: the page table at \<open>t\<close> holds the frames \<open>F\<close>.  \<open>as_runs\<close> lists the page runs an
  address space owns, its three tables and its frames, by kernel address.
\<close>

definition table_at :: "kstate \<Rightarrow> vaddr \<Rightarrow> paddr list \<Rightarrow> bool" where
  "table_at k t F \<longleftrightarrow> (\<forall>i<length F. kword k (t + of_nat (4 * i)) = F ! i)"

definition table_pages :: "nat \<Rightarrow> nat" where
  "table_pages n = DIVROUNDUP (4 * n) 4096"

definition frame_run_list :: "paddr list \<Rightarrow> (vaddr \<times> nat) list" where
  "frame_run_list F = map (\<lambda>f. (PADDR_TO_KVADDR f, 1)) F"

definition table_runs :: "addrspace \<Rightarrow> (vaddr \<times> nat) list" where
  "table_runs as = [(page_pbase1 as, table_pages (as_npages1 as)),
     (page_pbase2 as, table_pages (as_npages2 as)), (page_stackpbase as, table_pages DUMBVM_STACKPAGES)]"

definition as_runs :: "addrspace \<Rightarrow> paddr list \<Rightarrow> paddr list \<Rightarrow> paddr list \<Rightarrow> (vaddr \<times> nat) list" where
  "as_runs as F1 F2 F3 = table_runs as @ frame_run_list (F1 @ F2 @ F3)"

text \<open>\<open>owned X R\<close>: the runs \<open>R\<close> are distinct and held on behalf of their owner; \<open>disown\<close> gives them up.\<close>

definition owned :: "(vaddr \<rightharpoonup> nat) \<Rightarrow> (vaddr \<times> nat) list \<Rightarrow> bool" where
  "owned X R \<longleftrightarrow> distinct (map fst R) \<and> (\<forall>(p, n) \<in> set R. X p = Some n)"

definition disown :: "(vaddr \<rightharpoonup> nat) \<Rightarrow> (vaddr \<times> nat) list \<Rightarrow> (vaddr \<rightharpoonup> nat)" where
  "disown X R = (\<lambda>p. if p \<in> fst ` set R then None else X p)"

definition as_maps :: "kstate \<Rightarrow> addrspace \<Rightarrow> paddr list \<Rightarrow> paddr list \<Rightarrow> paddr list \<Rightarrow> bool" where
  "as_maps k as F1 F2 F3 \<longleftrightarrow>
     length F1 = as_npages1 as \<and> length F2 = as_npages2 as \<and> length F3 = DUMBVM_STACKPAGES \<and>
     table_at k (page_pbase1 as) F1 \<and> table_at k (page_pbase2 as) F2 \<and> table_at k (page_stackpbase as) F3"

definition as_sized :: "addrspace \<Rightarrow> bool" where
  "as_sized as \<longleftrightarrow> as_npages1 as < 2 ^ 20 \<and> as_npages2 as < 2 ^ 20"

lemma owned_Cons: "owned X ((p, n) # R) \<longleftrightarrow> p \<notin> fst ` set R \<and> X p = Some n \<and> owned X R"
  by (auto simp: owned_def)

lemma owned_append:
  "owned X (R @ S) \<longleftrightarrow> owned X R \<and> owned X S \<and> fst ` set R \<inter> fst ` set S = {}"
  by (auto simp: owned_def)

lemma owned_upd: "p \<notin> fst ` set R \<Longrightarrow> owned (X(p := n)) R = owned X R"
  unfolding owned_def by (intro arg_cong2 [where f = conj] ball_cong refl) force

lemma disown_Nil [simp]: "disown X [] = X"
  by (simp add: disown_def)

lemma disown_Cons: "disown X ((p, n) # R) = disown (X(p := None)) R"
  by (auto simp: disown_def fun_eq_iff)

lemma disown_append: "disown X (R @ S) = disown (disown X R) S"
  by (auto simp: disown_def fun_eq_iff)

lemma frame_run_list_simps [simp]:
  "frame_run_list [] = []" "frame_run_list (f # F) = (PADDR_TO_KVADDR f, 1) # frame_run_list F"
  "frame_run_list (F @ G) = frame_run_list F @ frame_run_list G"
  by (simp_all add: frame_run_list_def)

text \<open>\<open>grant X R\<close> hands the runs \<open>R\<close>, none of which was held before, to an owner.\<close>

definition fresh_runs :: "(vaddr \<rightharpoonup> nat) \<Rightarrow> (vaddr \<times> nat) list \<Rightarrow> bool" where
  "fresh_runs X R \<longleftrightarrow> distinct (map fst R) \<and> fst ` set R \<inter> dom X = {}"

definition grant :: "(vaddr \<rightharpoonup> nat) \<Rightarrow> (vaddr \<times> nat) list \<Rightarrow> (vaddr \<rightharpoonup> nat)" where
  "grant X R = X ++ map_of R"

lemma grant_Nil [simp]: "grant X [] = X" "fresh_runs X []"
  by (simp_all add: grant_def fresh_runs_def)

lemma fresh_Cons: "fresh_runs X ((p, n) # R) \<longleftrightarrow> X p = None \<and> fresh_runs (X(p \<mapsto> n)) R"
  by (auto simp: fresh_runs_def)

lemma grant_Cons: "fresh_runs X ((p, n) # R) \<Longrightarrow> grant X ((p, n) # R) = grant (X(p \<mapsto> n)) R"
  by (auto simp: grant_def fresh_runs_def map_add_def fun_eq_iff image_iff dest!: map_of_SomeD split: option.splits)

lemma grant_append:
  "fresh_runs X (R @ S) \<Longrightarrow> grant X (R @ S) = grant (grant X R) S"
  using map_add_comm [of "map_of S" "map_of R"]
  by (auto simp: grant_def fresh_runs_def dom_map_of_conv_image_fst Int_commute simp flip: map_add_assoc)

lemma fresh_grant: "fresh_runs X R \<Longrightarrow> fresh_runs (grant X R) S \<Longrightarrow> fresh_runs X (R @ S)"
  by (auto simp: fresh_runs_def grant_def dom_map_of_conv_image_fst)

lemma fresh_owned: "fresh_runs X R \<Longrightarrow> owned (grant X R) R"
  by (auto simp: fresh_runs_def owned_def grant_def)

lemma disown_grant:
  assumes "fresh_runs X R"
  shows "disown (grant X R) R = X"
proof
  fix p
  have "X p = None" if "p \<in> fst ` set R" using assms that by (auto simp: fresh_runs_def domIff)
  moreover have "map_of R p = None" if "p \<notin> fst ` set R" using that by (simp add: map_of_eq_None_iff)
  ultimately show "disown (grant X R) R p = X p" by (simp add: disown_def grant_def map_add_def)
qed

lemma grant_le: "fresh_runs X R \<Longrightarrow> X \<subseteq>\<^sub>m grant X R"
  by (auto simp: fresh_runs_def grant_def map_le_def map_add_def dest!: map_of_SomeD split: option.splits)

lemma grant_old: "fresh_runs X R \<Longrightarrow> X p = Some n \<Longrightarrow> grant X R p = Some n"
  using grant_le [of X R] by (metis domI map_le_def)

lemma owned_disown:
  assumes "owned X (R @ S)"
  shows "owned (disown X R) S"
proof -
  have "p \<notin> fst ` set R \<and> X p = Some n" if "(p, n) \<in> set S" for p n
    using assms that unfolding owned_append by (force simp: owned_def)
  then show ?thesis using assms by (auto simp: owned_def disown_def)
qed

subsection \<open>Steps on kernel memory\<close>

lemma kseg0_run:
  assumes inv: "heap_inv k L X" and t: "X t = Some tp" and j: "4 * j + 4 \<le> 4096 * tp"
  shows "kseg0 (t + of_nat (4 * j))" and "unat (t + of_nat (4 * j)) = unat t + 4 * j"
    and "unat (t + of_nat (4 * j)) \<in> page_run t tp"
proof -
  from heap_inv_run_shape [OF inv t]
  have sh: "2 ^ 31 \<le> unat t" "unat t + 4096 * tp \<le> 2 ^ 31 + 2 ^ 29" by auto
  have j': "4 * j < 2 ^ 32" using sh j by simp
  show u: "unat (t + of_nat (4 * j)) = unat t + 4 * j"
    using sh j j' unat_add_lem [of t "of_nat (4 * j)"] unat_of_nat_u32 [OF j'] by simp
  show "unat (t + of_nat (4 * j)) \<in> page_run t tp" using u j by (simp add: page_run_def)
  show "kseg0 (t + of_nat (4 * j))" using u sh j by (simp add: kseg0_def word_le_nat_alt word_less_nat_alt)
qed

lemma protected_mono: "protected L X w \<Longrightarrow> X \<subseteq>\<^sub>m X' \<Longrightarrow> protected L X' w"
  by (auto simp: protected_def map_le_def) (metis domI)

lemma protected_upd: "protected L X w \<Longrightarrow> X q = None \<Longrightarrow> protected L (X(q \<mapsto> n)) w"
  by (rule protected_mono) (auto simp: map_le_def)

lemma k_free_kpages_ok:
  assumes "heap_inv k L X" and "X p = Some n"
  obtains v where "k_free_kpages p k = Some (k\<lparr>kvm := v\<rparr>)" and "heap_inv (k\<lparr>kvm := v\<rparr>) L (X(p := None))"
proof -
  obtain v where "free_kpages p (kvm k) = Some v" "heap_inv (k\<lparr>kvm := v\<rparr>) L (X(p := None))"
    by (rule heap_inv_free_pages [OF assms])
  then show thesis using that by (simp add: k_free_kpages_def)
qed

lemma free_frames_ok:
  assumes "heap_inv k L X" and "owned X (frame_run_list (drop i F))" and "length F = n" and "i \<le> n"
    and "X t = Some tp" and "4 * n \<le> 4096 * tp" and "t \<notin> PADDR_TO_KVADDR ` set F"
    and "table_at k t F"
  shows "\<exists>v. free_frames t i n k = Some (k\<lparr>kvm := v\<rparr>) \<and>
    heap_inv (k\<lparr>kvm := v\<rparr>) L (disown X (frame_run_list (drop i F)))"
  using assms
proof (induction t i n k arbitrary: X rule: free_frames.induct)
  case (1 t i n k)
  show ?case
  proof (cases "i < n")
    case True
    let ?p = "PADDR_TO_KVADDR (F ! i)"
    have d: "drop i F = F ! i # drop (Suc i) F" using True 1 by (simp add: Cons_nth_drop_Suc)
    have own: "?p \<notin> fst ` set (frame_run_list (drop (Suc i) F))" "X ?p = Some 1" "owned X (frame_run_list (drop (Suc i) F))"
      using 1(3) unfolding d by (simp_all add: owned_Cons)
    obtain v where v: "k_free_kpages ?p k = Some (k\<lparr>kvm := v\<rparr>)" "heap_inv (k\<lparr>kvm := v\<rparr>) L (X(?p := None))"
      by (rule k_free_kpages_ok [OF 1(2) own(2)])
    have rd: "kread k (t + of_nat (4 * i)) = Some (F ! i)"
      using kseg0_run(1) [OF 1(2) 1(6), of i] 1 True by (simp add: kread_def table_at_def)
    have tne: "t \<noteq> ?p" using 1 True by auto
    have "\<exists>v'. free_frames t (Suc i) n (k\<lparr>kvm := v\<rparr>) = Some (k\<lparr>kvm := v\<rparr>\<lparr>kvm := v'\<rparr>) \<and>
      heap_inv (k\<lparr>kvm := v\<rparr>\<lparr>kvm := v'\<rparr>) L (disown (X(?p := None)) (frame_run_list (drop (Suc i) F)))"
      by (rule 1(1) [OF True rd v(1) v(2) own(3) [folded owned_upd [OF own(1), of X None]]])
        (use 1 True tne in \<open>simp_all add: table_at_def\<close>)
    then show ?thesis
      unfolding d using True rd v(1) by (subst free_frames.simps) (auto simp: disown_Cons)
  next
    case False
    then show ?thesis using 1 by (subst free_frames.simps) (auto intro: exI [of _ "kvm k"])
  qed
qed

lemma protected_grant: "protected L X w \<Longrightarrow> fresh_runs X R \<Longrightarrow> protected L (grant X R) w"
  using protected_mono grant_le by blast

lemma k_getppages_cases:
  assumes inv: "heap_inv k L X"
  obtains "k_getppages 1 k = Some (0, k)"
  | pa v where "k_getppages 1 k = Some (pa, k\<lparr>kvm := v\<rparr>)" and "pa \<noteq> 0" and "X (PADDR_TO_KVADDR pa) = None"
      and "heap_inv (k\<lparr>kvm := v\<rparr>) L (X(PADDR_TO_KVADDR pa \<mapsto> 1))"
proof -
  obtain K al fl where ok: "heap_ok k K al fl L X" using inv by (auto simp: heap_inv_def)
  then have rel: "kp_rel (kvm k) K" by (simp add: heap_ok_def)
  obtain va v where al: "alloc_kpages 1 (kvm k) = Some (va, v)" using kp.alloc_total [OF rel] by blast
  show thesis
  proof (cases "va = 0")
    case True
    then have "getppages 1 (kvm k) = Some (0, kvm k)" using alloc_kpages_fail [OF rel] al by simp
    then show ?thesis using that(1) by (simp add: k_getppages_def)
  next
    case False
    then obtain pa where "getppages 1 (kvm k) = Some (pa, v)" "pa \<noteq> 0" "va = PADDR_TO_KVADDR pa"
      using al by (auto simp: alloc_kpages_def bind_Some_iff split: if_splits)
    then show ?thesis
      using that(2) [of pa v] heap_inv_alloc_pages [OF inv al] False by (simp add: k_getppages_def)
  qed
qed

lemma page_unprotected:
  assumes inv: "heap_inv k L (X(q \<mapsto> n))" and X: "X q = None" and w: "protected L X w"
  shows "unat w \<notin> page_run q n"
proof -
  have "page_run q n \<inter> page_run p m = {}" if "X p = Some m" for p m
    using heap_inv_run_disjoint [OF inv, of q n p m] that X by (cases "p = q") auto
  moreover have "byte_run p b \<inter> page_run q n = {}" if "L p = Some b" for p b
    using heap_inv_block_run_disjoint [OF inv, of p b q n] that by simp
  ultimately show ?thesis using w unfolding protected_def by blast
qed

lemma byte_run_page: "byte_run q 4096 = page_run q 1"
  by (simp add: byte_run_def page_run_def)

lemma map_step:
  assumes inv: "heap_inv k L X" and t: "X t = Some tp" and i: "4 * i + 4 \<le> 4096 * tp"
    and inv': "heap_inv (k\<lparr>kvm := v\<rparr>) L (X(PADDR_TO_KVADDR pa \<mapsto> 1))" and X: "X (PADDR_TO_KVADDR pa) = None"
  obtains k1 k2 where "kwrite (t + of_nat (4 * i)) pa (k\<lparr>kvm := v\<rparr>) = Some k1" and "k2 = as_zero_region pa 1 k1"
    and "heap_inv k2 L (X(PADDR_TO_KVADDR pa \<mapsto> 1))" and "kword k2 (t + of_nat (4 * i)) = pa"
    and "\<forall>w. unat w \<in> page_run (PADDR_TO_KVADDR pa) 1 \<longrightarrow> kword k2 w = 0"
    and "\<forall>w. protected L X w \<and> w \<noteq> t + of_nat (4 * i) \<longrightarrow> kword k2 w = kword k w"
proof -
  let ?a = "t + of_nat (4 * i)" and ?q = "PADDR_TO_KVADDR pa"
  note a = kseg0_run [OF inv t i]
  have pa: "protected L X ?a" using protected_page [where X = X and q = t, OF t a(3)] by blast
  let ?k2 = "as_zero_region pa 1 (k\<lparr>kvm := v, kword := (kword k)(?a := pa)\<rparr>)"
  have m: "kword ?k2 w = (if unat w \<in> page_run ?q 1 then 0 else ((kword k)(?a := pa)) w)" for w
    by (simp add: as_zero_region_def bzero_def byte_run_page)
  have e: "?k2 = k\<lparr>kvm := v\<rparr>\<lparr>kword := kword ?k2\<rparr>" by (simp add: as_zero_region_def bzero_def)
  have "heap_inv (k\<lparr>kvm := v\<rparr>\<lparr>kword := kword ?k2\<rparr>) L (X(?q \<mapsto> 1))"
  proof (rule heap_inv_write [OF inv'])
    fix w assume "kword ?k2 w \<noteq> kword (k\<lparr>kvm := v\<rparr>) w"
    then have "unat w \<in> page_run ?q 1 \<or> w = ?a" unfolding m by (auto split: if_splits)
    then show "protected L (X(?q \<mapsto> 1)) w"
      using protected_page [of "X(?q \<mapsto> 1)" ?q 1 w L] protected_upd [OF pa X] by auto
  qed
  then show thesis
    using that [OF _ refl] a(1) m page_unprotected [OF inv' X] pa e by (simp add: kwrite_def)
qed

text \<open>
  What the loops of \<open>as_prepare_load\<close> do: they allocate distinct fresh frames, record them in the
  table and clear them; the other words of live memory keep their value.
\<close>

definition frames_mapped :: "vaddr \<Rightarrow> nat \<Rightarrow> nat \<Rightarrow> kstate \<Rightarrow> paddr list \<Rightarrow> bool" where
  "frames_mapped t i n k F \<longleftrightarrow> length F = n - i \<and>
     (\<forall>j<n - i. kword k (t + of_nat (4 * (i + j))) = F ! j) \<and>
     (\<forall>f \<in> set F. \<forall>w. unat w \<in> page_run (PADDR_TO_KVADDR f) 1 \<longrightarrow> kword k w = 0)"

lemma frames_mapped_Cons:
  assumes "i < n" and "kword k (t + of_nat (4 * i)) = pa" and "frames_mapped t (Suc i) n k F"
    and "\<forall>w. unat w \<in> page_run (PADDR_TO_KVADDR pa) 1 \<longrightarrow> kword k w = 0"
  shows "frames_mapped t i n k (pa # F)"
proof -
  have "kword k (t + of_nat (4 * (i + j))) = (pa # F) ! j" if "j < n - i" for j
    using assms that by (cases j) (simp_all add: frames_mapped_def)
  then show ?thesis using assms by (auto simp: frames_mapped_def)
qed

lemma table_entry_inj:
  assumes "heap_inv k L X" and "X t = Some tp" and "4 * i + 4 \<le> 4096 * tp" and "4 * j + 4 \<le> 4096 * tp"
    and "t + of_nat (4 * i) = t + of_nat (4 * j)"
  shows "i = j"
proof -
  have "unat t + 4 * i = unat t + 4 * j"
    using kseg0_run(2) [OF assms(1-3)] kseg0_run(2) [OF assms(1,2,4)] unfolding assms(5) by metis
  then show ?thesis by simp
qed

lemma table_entry_outside:
  assumes "heap_inv k L X" and "X t = Some tp" and "X q = Some m" and "t \<noteq> q" and "unat w \<in> page_run q m"
    and "4 * n \<le> 4096 * tp" and "j < n"
  shows "w \<noteq> t + of_nat (4 * j)"
  using kseg0_run(3) [OF assms(1,2), of j] heap_inv_run_disjoint [OF assms(1-4)] assms(5-7) by auto

lemma map_frames_ok:
  assumes "heap_inv k L X" and "X t = Some tp" and "4 * n \<le> 4096 * tp" and "i \<le> n"
  shows "\<exists>r k' F. map_frames t i n k = Some (r, k') \<and> (r = Inr () \<or> r = Inl ENOMEM) \<and>
    fresh_runs X (frame_run_list F) \<and> heap_inv k' L (grant X (frame_run_list F)) \<and>
    (\<forall>w. protected L X w \<and> (\<forall>j. i \<le> j \<and> j < n \<longrightarrow> w \<noteq> t + of_nat (4 * j)) \<longrightarrow> kword k' w = kword k w) \<and>
    (r = Inr () \<longrightarrow> frames_mapped t i n k' F)"
  using assms
proof (induction t i n k arbitrary: X rule: map_frames.induct)
  case (1 t i n k)
  show ?case
  proof (cases "i < n")
    case True
    have i4: "4 * i + 4 \<le> 4096 * tp" using True 1 by simp
    show ?thesis using 1(2)
    proof (cases rule: k_getppages_cases)
      case none: 1
      note a = kseg0_run [OF 1(2,3) i4]
      let ?k1 = "k\<lparr>kword := (kword k)(t + of_nat (4 * i) := 0)\<rparr>"
      have "heap_inv ?k1 L X"
        by (rule heap_inv_write [OF 1(2)]) (use protected_page [where X = X and q = t, OF 1(3) a(3)] in \<open>auto split: if_splits\<close>)
      moreover have "map_frames t i n k = Some (Inl ENOMEM, ?k1)"
        using True none a(1) by (subst map_frames.simps) (simp add: kwrite_def)
      ultimately show ?thesis using True by (intro exI [of _ "Inl ENOMEM"] exI [of _ ?k1] exI [of _ "[]"]) auto
    next
      case (2 pa v)
      let ?q = "PADDR_TO_KVADDR pa"
      obtain k1 k2 where k: "kwrite (t + of_nat (4 * i)) pa (k\<lparr>kvm := v\<rparr>) = Some k1" "k2 = as_zero_region pa 1 k1"
        "heap_inv k2 L (X(?q \<mapsto> 1))" "kword k2 (t + of_nat (4 * i)) = pa"
        "\<forall>w. unat w \<in> page_run ?q 1 \<longrightarrow> kword k2 w = 0"
        "\<forall>w. protected L X w \<and> w \<noteq> t + of_nat (4 * i) \<longrightarrow> kword k2 w = kword k w"
        by (rule map_step [OF 1(2,3) i4 2(4,3)])
      have tq: "t \<noteq> ?q" using 1(3) 2(3) by auto
      obtain r k' F where IH: "map_frames t (Suc i) n k2 = Some (r, k')" "r = Inr () \<or> r = Inl ENOMEM"
        "fresh_runs (X(?q \<mapsto> 1)) (frame_run_list F)" "heap_inv k' L (grant (X(?q \<mapsto> 1)) (frame_run_list F))"
        "\<forall>w. protected L (X(?q \<mapsto> 1)) w \<and> (\<forall>j. Suc i \<le> j \<and> j < n \<longrightarrow> w \<noteq> t + of_nat (4 * j)) \<longrightarrow> kword k' w = kword k2 w"
        "r = Inr () \<longrightarrow> frames_mapped t (Suc i) n k' F"
        using 1(1) [OF True 2(1) refl k(1) 2(2), of "X(?q \<mapsto> 1)"] 1(3,4) True k(2,3) tq
        by (auto simp del: fun_upd_apply simp add: fun_upd_other)
      have fr: "fresh_runs X (frame_run_list (pa # F))" using IH(3) 2(3) by (simp add: fresh_Cons)
      have a: "protected L (X(?q \<mapsto> 1)) (t + of_nat (4 * i))"
        by (rule protected_page [of _ t tp]) (use kseg0_run(3) [OF 1(2,3) i4] 1(3) tq in auto)
      have "t + of_nat (4 * i) \<noteq> t + of_nat (4 * j)" if "Suc i \<le> j" "j < n" for j
        using table_entry_inj [OF 1(2,3) i4, of j] that 1(4) by linarith
      then have entry: "kword k' (t + of_nat (4 * i)) = pa" using IH(5) a k(4) by metis
      have zero: "kword k' w = 0" if w: "unat w \<in> page_run ?q 1" for w
      proof -
        have "w \<noteq> t + of_nat (4 * j)" if "j < n" for j
          by (rule table_entry_outside [OF k(3), of t tp ?q 1 w n]) (use 1(3,4) tq w that in simp_all)
        moreover have "protected L (X(?q \<mapsto> 1)) w" by (rule protected_page [of _ ?q 1]) (use w in simp_all)
        ultimately show ?thesis using IH(5) k(5) w by metis
      qed
      have same: "kword k' w = kword k w"
        if "protected L X w" "\<forall>j. i \<le> j \<and> j < n \<longrightarrow> w \<noteq> t + of_nat (4 * j)" for w
        using that IH(5) k(6) protected_upd [OF that(1) 2(3)] True by auto
      have "map_frames t i n k = Some (r, k')"
        using True 2(1,2) k(1,2) IH(1) by (subst map_frames.simps) simp
      then show ?thesis
        using IH(2,4,6) fr grant_Cons [OF fr [unfolded frame_run_list_simps]] same
          frames_mapped_Cons [OF True entry] zero
        by (intro exI [of _ r] exI [of _ k'] exI [of _ "pa # F"]) auto
    qed
  next
    case False
    then show ?thesis using 1 
     by (intro exI [of _ "Inr ()"] exI [of _ k] exI [of _ "[]"]) (simp add: map_frames.simps frames_mapped_def)
  qed
qed

lemma table_pages_room: "4 * n \<le> 4096 * table_pages n"
  using DIVROUNDUP_bounds(1) [of 4096 "4 * n"] by (simp add: table_pages_def mult.commute)

lemma pagetable_alloc_cases:
  assumes inv: "heap_inv k L X" and n: "n < 2 ^ 20"
  obtains "pagetable_alloc n k = Some (0, k)"
  | t k1 where "pagetable_alloc n k = Some (t, k1)" and "t \<noteq> 0" and "X t = None"
      and "heap_inv k1 L (X(t \<mapsto> table_pages n))" and "kword k1 = kword k"
proof -
  have pages: "DIVROUNDUP32 (n * 4 mod 2 ^ 32) 4096 * 4096 div 4096 = table_pages n"
    using n by (simp add: DIVROUNDUP32_eq table_pages_def mult.commute)
  obtain K al fl where "heap_ok k K al fl L X" using inv by (auto simp: heap_inv_def)
  then have rel: "kp_rel (kvm k) K" by (simp add: heap_ok_def)
  obtain t v where al: "alloc_kpages (table_pages n) (kvm k) = Some (t, v)" using kp.alloc_total [OF rel] by blast
  then have eq: "pagetable_alloc n k = Some (t, k\<lparr>kvm := v\<rparr>)"
    using pages by (simp add: pagetable_alloc_def k_alloc_kpages_def Let_def)
  show thesis
  proof (cases "t = 0")
    case True
    then show ?thesis using that(1) eq heap_inv_alloc_pages(1) [OF inv al] by simp
  next
    case False
    then show ?thesis using that(2) [OF eq] heap_inv_alloc_pages(2,3) [OF inv al] by simp
  qed
qed

text \<open>The loops over several tables in a row, on tables that are already held.\<close>

fun map_tables :: "(vaddr \<times> nat) list \<Rightarrow> kstate \<Rightarrow> ((errno + unit) \<times> kstate) kres" where
  "map_tables [] k = Some (Inr (), k)"
| "map_tables ((t, n) # ts) k = do {
     (r, k1) \<leftarrow> map_frames t 0 n k;
     if r \<noteq> Inr () then Some (r, k1) else map_tables ts k1
   }"

definition tables_held :: "(vaddr \<rightharpoonup> nat) \<Rightarrow> (vaddr \<times> nat) list \<Rightarrow> bool" where
  "tables_held X ts \<longleftrightarrow> distinct (map fst ts) \<and> (\<forall>(t, n) \<in> set ts. \<exists>tp. X t = Some tp \<and> 4 * n \<le> 4096 * tp)"

definition table_entry :: "(vaddr \<times> nat) list \<Rightarrow> vaddr \<Rightarrow> bool" where
  "table_entry ts w \<longleftrightarrow> (\<exists>(t, n) \<in> set ts. \<exists>j<n. w = t + of_nat (4 * j))"

lemma tables_held_Nil [simp]: "tables_held X []"
  by (simp add: tables_held_def)

lemma tables_held_Cons:
  "tables_held X ((t, n) # ts) \<longleftrightarrow> t \<notin> fst ` set ts \<and> (\<exists>tp. X t = Some tp \<and> 4 * n \<le> 4096 * tp) \<and> tables_held X ts"
  by (auto simp: tables_held_def)

lemma tables_held_grant: "tables_held X ts \<Longrightarrow> fresh_runs X R \<Longrightarrow> tables_held (grant X R) ts"
  by (induction ts) (auto simp: tables_held_Cons grant_old)

lemma table_entry_run:
  assumes inv: "heap_inv k L X" and held: "tables_held X ts" and q: "X q = Some m" "q \<notin> fst ` set ts"
    and w: "unat w \<in> page_run q m"
  shows "\<not> table_entry ts w"
proof
  assume "table_entry ts w"
  then obtain t n j where t: "(t, n) \<in> set ts" "j < n" "w = t + of_nat (4 * j)" by (auto simp: table_entry_def)
  then obtain tp where tp: "X t = Some tp" "4 * n \<le> 4096 * tp" using held by (auto simp: tables_held_def)
  have "t \<noteq> q" using t(1) q(2) by force
  then show False using table_entry_outside [OF inv tp(1) q(1) _ w tp(2) t(2)] t(3) by simp
qed

lemma frames_mapped_keep:
  assumes mapped: "frames_mapped t 0 n k F" and inv: "heap_inv k L X" and held: "tables_held X ((t, n) # ts)"
    and own: "owned X (frame_run_list F)" and out: "PADDR_TO_KVADDR ` set F \<inter> fst ` set ts = {}"
    and same: "\<forall>w. protected L X w \<and> \<not> table_entry ts w \<longrightarrow> kword k' w = kword k w"
  shows "frames_mapped t 0 n k' F"
proof -
  obtain tp where t: "X t = Some tp" "4 * n \<le> 4096 * tp" "t \<notin> fst ` set ts" "tables_held X ts"
    using held by (auto simp: tables_held_Cons)
  have keep: "kword k' w = kword k w" if "X q = Some m" "q \<notin> fst ` set ts" "unat w \<in> page_run q m" for w q m
    using same protected_page [of X q m w L] table_entry_run [OF inv t(4) that] that by blast
  have "kword k' (t + of_nat (4 * j)) = kword k (t + of_nat (4 * j))" if "j < n" for j
    by (rule keep [OF t(1,3)]) (use kseg0_run(3) [OF inv t(1), of j] that t(2) in auto)
  moreover have "kword k' w = kword k w" if "f \<in> set F" "unat w \<in> page_run (PADDR_TO_KVADDR f) 1" for f w
    by (rule keep [of "PADDR_TO_KVADDR f" 1]) (use own out that in \<open>auto simp: owned_def frame_run_list_def\<close>)
  ultimately show ?thesis using mapped by (auto simp: frames_mapped_def)
qed

lemma map_tables_ok:
  assumes "heap_inv k L X" and "tables_held X ts"
  shows "\<exists>r k' Fs. map_tables ts k = Some (r, k') \<and> (r = Inr () \<or> r = Inl ENOMEM) \<and>
    fresh_runs X (frame_run_list (concat Fs)) \<and> heap_inv k' L (grant X (frame_run_list (concat Fs))) \<and>
    (\<forall>w. protected L X w \<and> \<not> table_entry ts w \<longrightarrow> kword k' w = kword k w) \<and>
    (r = Inr () \<longrightarrow> list_all2 (\<lambda>(t, n) F. frames_mapped t 0 n k' F) ts Fs)"
  using assms
proof (induction ts arbitrary: k X)
  case Nil
  then show ?case by (intro exI [of _ "Inr ()"] exI [of _ k] exI [of _ "[]"]) simp
next
  case (Cons tn ts)
  obtain t n where tn: "tn = (t, n)" by (cases tn)
  obtain tp where t: "X t = Some tp" "4 * n \<le> 4096 * tp" "t \<notin> fst ` set ts" "tables_held X ts"
    using Cons(3) by (auto simp: tables_held_Cons tn)
  obtain r1 k1 F where m: "map_frames t 0 n k = Some (r1, k1)" "r1 = Inr () \<or> r1 = Inl ENOMEM"
    "fresh_runs X (frame_run_list F)" "heap_inv k1 L (grant X (frame_run_list F))"
    "\<forall>w. protected L X w \<and> (\<forall>j. 0 \<le> j \<and> j < n \<longrightarrow> w \<noteq> t + of_nat (4 * j)) \<longrightarrow> kword k1 w = kword k w"
    "r1 = Inr () \<longrightarrow> frames_mapped t 0 n k1 F"
    using map_frames_ok [OF Cons(2) t(1,2), of 0] by auto
  let ?X = "grant X (frame_run_list F)"
  have same1: "kword k1 w = kword k w" if "protected L X w" "\<not> table_entry ((t, n) # ts) w" for w
    using m(5) that by (auto simp: table_entry_def)
  show ?case
  proof (cases "r1 = Inr ()")
    case False
    then show ?thesis using m same1
      by (intro exI [of _ r1] exI [of _ k1] exI [of _ "[F]"]) (auto simp: tn)
  next
    case True
    have held: "tables_held ?X ((t, n) # ts)" using tables_held_grant [OF _ m(3)] Cons(3) tn by simp
    then obtain r k' Fs where IH: "map_tables ts k1 = Some (r, k')" "r = Inr () \<or> r = Inl ENOMEM"
      "fresh_runs ?X (frame_run_list (concat Fs))" "heap_inv k' L (grant ?X (frame_run_list (concat Fs)))"
      "\<forall>w. protected L ?X w \<and> \<not> table_entry ts w \<longrightarrow> kword k' w = kword k1 w"
      "r = Inr () \<longrightarrow> list_all2 (\<lambda>(t, n) F. frames_mapped t 0 n k' F) ts Fs"
      using Cons(1) [OF m(4)] by (auto simp: tables_held_Cons)
    have fr: "fresh_runs X (frame_run_list (concat (F # Fs)))" using fresh_grant [OF m(3) IH(3)] by simp
    have out: "PADDR_TO_KVADDR ` set F \<inter> fst ` set ts = {}"
      using m(3) t(4) by (fastforce simp: fresh_runs_def tables_held_def frame_run_list_def image_image)
    have "frames_mapped t 0 n k' F"
      by (rule frames_mapped_keep [OF _ m(4) held fresh_owned [OF m(3)] out IH(5)]) (use m(6) True in simp)
    moreover have "kword k' w = kword k w" if "protected L X w" "\<not> table_entry ((t, n) # ts) w" for w
      using IH(5) same1 [OF that] that protected_grant [OF that(1) m(3)] by (auto simp: table_entry_def)
    moreover have "grant ?X (frame_run_list (concat Fs)) = grant X (frame_run_list (concat (F # Fs)))"
      using grant_append fr by simp
    ultimately show ?thesis using IH m(1) True fr
      by (intro exI [of _ r] exI [of _ k'] exI [of _ "F # Fs"]) (simp add: tn)
  qed
qed

definition as_clear :: "kstate \<Rightarrow> paddr list \<Rightarrow> bool" where
  "as_clear k F \<longleftrightarrow> (\<forall>f \<in> set F. \<forall>w. unat w \<in> page_run (PADDR_TO_KVADDR f) 1 \<longrightarrow> kword k w = 0)"

lemma as_clear_append: "as_clear k (F @ G) \<longleftrightarrow> as_clear k F \<and> as_clear k G"
  by (auto simp: as_clear_def)

lemma frames_mapped_table: "frames_mapped t 0 n k F \<longleftrightarrow> length F = n \<and> table_at k t F \<and> as_clear k F"
  by (auto simp: frames_mapped_def table_at_def as_clear_def)

lemma fresh_unprotected:
  assumes inv: "heap_inv k L (grant X R)" and fr: "fresh_runs X R" and q: "(q, m) \<in> set R" and w: "protected L X w"
  shows "unat w \<notin> page_run q m"
proof -
  have q': "grant X R q = Some m" using fresh_owned [OF fr] q by (auto simp: owned_def)
  have "page_run q m \<inter> page_run p n = {}" if "X p = Some n" for p n
    by (rule heap_inv_run_disjoint [OF inv q' grant_old [OF fr that]])
      (use fr q that in \<open>force simp: fresh_runs_def domIff\<close>)
  moreover have "byte_run p b \<inter> page_run q m = {}" if "L p = Some b" for p b
    using heap_inv_block_run_disjoint [OF inv that q'] .
  ultimately show ?thesis using w unfolding protected_def by blast
qed

definition as_tables :: "addrspace \<Rightarrow> (vaddr \<times> nat) list" where
  "as_tables as = [(page_pbase1 as, as_npages1 as), (page_pbase2 as, as_npages2 as),
     (page_stackpbase as, DUMBVM_STACKPAGES)]"

text \<open>\<open>as_prepare_load\<close> is the three table allocations followed by the loops.\<close>

definition alloc_tables :: "addrspace \<Rightarrow> kstate \<Rightarrow> (addrspace \<times> (errno + unit) \<times> kstate) kres" where
  "alloc_tables as k0 = do {
     (t1, k1) \<leftarrow> pagetable_alloc (as_npages1 as) k0;
     if t1 = 0 then Some (as\<lparr>page_pbase1 := t1\<rparr>, Inl ENOMEM, k1) else do {
     (t2, k2) \<leftarrow> pagetable_alloc (as_npages2 as) k1;
     if t2 = 0 then Some (as\<lparr>page_pbase1 := t1, page_pbase2 := t2\<rparr>, Inl ENOMEM, k2) else do {
     (t3, k3) \<leftarrow> pagetable_alloc DUMBVM_STACKPAGES k2;
     Some (as\<lparr>page_pbase1 := t1, page_pbase2 := t2, page_stackpbase := t3\<rparr>,
           if t3 = 0 then Inl ENOMEM else Inr (), k3) }}
   }"

lemma as_prepare_load_split:
  assumes "page_pbase1 as = 0" and "page_pbase2 as = 0" and "page_stackpbase as = 0"
  shows "as_prepare_load as k = do {
     (as', r, k1) \<leftarrow> alloc_tables as k;
     if r \<noteq> Inr () then Some (as', r, k1)
     else do { (r2, k2) \<leftarrow> map_tables (as_tables as') k1; Some (as', r2, k2) } }"
  using assms
  by (auto simp: as_prepare_load_def alloc_tables_def as_tables_def kassert_def Let_def
      split: option.splits prod.splits intro!: Option.bind_cong)

definition as_tabled :: "addrspace \<Rightarrow> addrspace \<Rightarrow> bool" where
  "as_tabled as as' \<longleftrightarrow> page_pbase1 as' \<noteq> 0 \<and> page_pbase2 as' \<noteq> 0 \<and> page_stackpbase as' \<noteq> 0 \<and>
     as' = as\<lparr>page_pbase1 := page_pbase1 as', page_pbase2 := page_pbase2 as', page_stackpbase := page_stackpbase as'\<rparr>"

lemma as_tabled_fields:
  assumes "as_tabled as as'"
  shows "as_self as' = as_self as" and "as_vbase1 as' = as_vbase1 as" and "as_npages1 as' = as_npages1 as"
    and "as_vbase2 as' = as_vbase2 as" and "as_npages2 as' = as_npages2 as"
proof -
  have n: "as' = as\<lparr>page_pbase1 := page_pbase1 as', page_pbase2 := page_pbase2 as', page_stackpbase := page_stackpbase as'\<rparr>"
    using assms unfolding as_tabled_def by blast
  show "as_self as' = as_self as" "as_vbase1 as' = as_vbase1 as" "as_npages1 as' = as_npages1 as"
    "as_vbase2 as' = as_vbase2 as" "as_npages2 as' = as_npages2 as"
    by (subst n, simp)+
qed

lemma alloc_tables_cases:
  assumes inv: "heap_inv k L X" and sz: "as_sized as"
  obtains as' k' R where "alloc_tables as k = Some (as', Inl ENOMEM, k')" and "fresh_runs X R"
      and "heap_inv k' L (grant X R)" and "kword k' = kword k"
  | as' k' where "alloc_tables as k = Some (as', Inr (), k')" and "as_tabled as as'"
      and "fresh_runs X (table_runs as')" and "heap_inv k' L (grant X (table_runs as'))" and "kword k' = kword k"
proof -
  note n1 = sz [unfolded as_sized_def, THEN conjunct1] and n2 = sz [unfolded as_sized_def, THEN conjunct2]
  show thesis using inv n1
  proof (cases rule: pagetable_alloc_cases)
    case 1
    then show ?thesis using that(1) [of _ k "[]"] inv by (simp add: alloc_tables_def)
  next
    case t1: (2 t1 k1)
    let ?R1 = "[(t1, table_pages (as_npages1 as))]"
    from t1(4) n2 show ?thesis
    proof (cases rule: pagetable_alloc_cases)
      case 1
      then show ?thesis using that(1) [of _ k1 ?R1] t1 by (simp add: alloc_tables_def fresh_Cons grant_Cons)
    next
      case t2: (2 t2 k2)
      let ?R2 = "?R1 @ [(t2, table_pages (as_npages2 as))]"
      have n3: "DUMBVM_STACKPAGES < 2 ^ 20" by (simp add: DUMBVM_STACKPAGES_def)
      from t2(4) n3 show ?thesis
      proof (cases rule: pagetable_alloc_cases)
        case 1
        then show ?thesis using that(1) [of _ k2 ?R2] t1 t2 by (simp add: alloc_tables_def fresh_Cons grant_Cons)
      next
        case t3: (2 t3 k3)
        let ?as = "as\<lparr>page_pbase1 := t1, page_pbase2 := t2, page_stackpbase := t3\<rparr>"
        have "alloc_tables as k = Some (?as, Inr (), k3)" using t1 t2 t3 by (simp add: alloc_tables_def)
        moreover have "as_tabled as ?as" using t1 t2 t3 by (simp add: as_tabled_def)
        moreover have "fresh_runs X (table_runs ?as)" "heap_inv k3 L (grant X (table_runs ?as))"
          using t1 t2 t3 by (simp_all add: fresh_Cons grant_Cons table_runs_def)
        ultimately show ?thesis using that(2) t1(5) t2(5) t3(5) by simp
      qed
    qed
  qed
qed

lemma table_runs_held:
  assumes "fresh_runs X (table_runs as)"
  shows "tables_held (grant X (table_runs as)) (as_tables as)"
  using fresh_owned [OF assms] table_pages_room
  by (simp add: table_runs_def as_tables_def tables_held_Cons owned_Cons)

lemma as_prepare_load_cases:
  assumes inv: "heap_inv k L X" and sz: "as_sized as"
    and z: "page_pbase1 as = 0" "page_pbase2 as = 0" "page_stackpbase as = 0"
  obtains as' k' R where "as_prepare_load as k = Some (as', Inl ENOMEM, k')" and "fresh_runs X R"
      and "heap_inv k' L (grant X R)" and "\<forall>w. protected L X w \<longrightarrow> kword k' w = kword k w"
  | as' k' F1 F2 F3 where "as_prepare_load as k = Some (as', Inr (), k')" and "as_tabled as as'"
      and "as_maps k' as' F1 F2 F3" and "fresh_runs X (as_runs as' F1 F2 F3)"
      and "heap_inv k' L (grant X (as_runs as' F1 F2 F3))" and "as_clear k' (F1 @ F2 @ F3)"
      and "\<forall>w. protected L X w \<longrightarrow> kword k' w = kword k w"
  using inv sz
proof (cases rule: alloc_tables_cases)
  case (1 as' k' R)
  then show ?thesis using that(1) by (simp add: as_prepare_load_split [OF z])
next
  case (2 as' k1)
  let ?X = "grant X (table_runs as')"
  obtain r k' Fs where m: "map_tables (as_tables as') k1 = Some (r, k')" "r = Inr () \<or> r = Inl ENOMEM"
    "fresh_runs ?X (frame_run_list (concat Fs))" "heap_inv k' L (grant ?X (frame_run_list (concat Fs)))"
    "\<forall>w. protected L ?X w \<and> \<not> table_entry (as_tables as') w \<longrightarrow> kword k' w = kword k1 w"
    "r = Inr () \<longrightarrow> list_all2 (\<lambda>(t, n) F. frames_mapped t 0 n k' F) (as_tables as') Fs"
    using map_tables_ok [OF 2(4) table_runs_held [OF 2(3)]] by blast
  let ?R = "table_runs as' @ frame_run_list (concat Fs)"
  have fr: "fresh_runs X ?R" by (rule fresh_grant [OF 2(3) m(3)])
  have inv': "heap_inv k' L (grant X ?R)" using m(4) grant_append [OF fr] by simp
  have run: "as_prepare_load as k = Some (as', r, k')"
    using 2(1) m(1) by (simp add: as_prepare_load_split [OF z])
  have same: "kword k' w = kword k w" if w: "protected L X w" for w
  proof -
    have "\<not> table_entry (as_tables as') w"
    proof
      assume "table_entry (as_tables as') w"
      then obtain t n j where t: "(t, n) \<in> set (as_tables as')" "j < n" "w = t + of_nat (4 * j)"
        by (auto simp: table_entry_def)
      from t(1) have t': "(t, table_pages n) \<in> set (table_runs as')" by (auto simp: as_tables_def table_runs_def)
      then have "?X t = Some (table_pages n)" using fresh_owned [OF 2(3)] by (auto simp: owned_def)
      then have "unat w \<in> page_run t (table_pages n)"
        using kseg0_run(3) [OF 2(4), of t "table_pages n" j] t(2,3) table_pages_room [of n] by simp
      then show False using fresh_unprotected [OF 2(4,3) t' w] by simp
    qed
    then show ?thesis using m(5) protected_grant [OF w 2(3)] 2(5) by simp
  qed
  show ?thesis
  proof (cases "r = Inr ()")
    case True
    then obtain F1 F2 F3 where "Fs = [F1, F2, F3]" "frames_mapped (page_pbase1 as') 0 (as_npages1 as') k' F1"
      "frames_mapped (page_pbase2 as') 0 (as_npages2 as') k' F2" "frames_mapped (page_stackpbase as') 0 DUMBVM_STACKPAGES k' F3"
      using m(6) by (auto simp: as_tables_def list_all2_Cons1)
    then show ?thesis
      using that(2) [of as' k' F1 F2 F3] run True 2(2) fr inv' same
      by (simp add: as_runs_def as_maps_def frames_mapped_table as_clear_append)
  next
    case False
    then show ?thesis using that(1) [OF _ fr inv'] run m(2) same by simp
  qed
qed

subsection \<open>A complete address space\<close>

definition as_rep :: "kstate \<Rightarrow> (vaddr \<rightharpoonup> nat) \<Rightarrow> (vaddr \<rightharpoonup> nat) \<Rightarrow> addrspace \<Rightarrow> paddr list \<Rightarrow> paddr list \<Rightarrow> paddr list \<Rightarrow> bool" where
  "as_rep k L X as F1 F2 F3 \<longleftrightarrow> L (as_self as) = Some 28 \<and> as_sized as \<and> as_maps k as F1 F2 F3 \<and>
     owned X (as_runs as F1 F2 F3)"

lemma free_table_frames:
  assumes "heap_inv k L X" and "owned X (frame_run_list F)" and "length F = n" and "X t = Some (table_pages n)"
    and "t \<notin> PADDR_TO_KVADDR ` set F" and "table_at k t F"
  obtains v where "free_frames t 0 n k = Some (k\<lparr>kvm := v\<rparr>)" and "heap_inv (k\<lparr>kvm := v\<rparr>) L (disown X (frame_run_list F))"
  using free_frames_ok [of k L X 0 F n t "table_pages n"] assms table_pages_room [of n] by auto

lemma frame_run_list_fst: "fst ` set (frame_run_list F) = PADDR_TO_KVADDR ` set F"
  by (auto simp: frame_run_list_def image_image)

lemma disown_other: "p \<notin> fst ` set R \<Longrightarrow> disown X R p = X p"
  by (simp add: disown_def)

lemma disown_single: "disown X [(p, n)] = X(p := None)"
  by (auto simp: disown_def)

lemma table_at_kvm [simp]: "table_at (k\<lparr>kvm := v\<rparr>) t F = table_at k t F"
  by (simp add: table_at_def)

lemma as_destroy_ok:
  assumes inv: "heap_inv k L X" and rep: "as_rep k L X as F1 F2 F3"
  obtains k' where "as_destroy as k = Some k'"
    and "heap_inv k' (L(as_self as := None)) (disown X (as_runs as F1 F2 F3))"
    and "\<forall>w. protected (L(as_self as := None)) (disown X (as_runs as F1 F2 F3)) w \<longrightarrow> kword k' w = kword k w"
proof -
  let ?t1 = "page_pbase1 as" and ?t2 = "page_pbase2 as" and ?t3 = "page_stackpbase as"
  let ?f1 = "frame_run_list F1" and ?f2 = "frame_run_list F2" and ?f3 = "frame_run_list F3"
  have own: "owned X (table_runs as)" "owned X ?f1" "owned X ?f2" "owned X ?f3"
    and dj: "fst ` set (table_runs as) \<inter> fst ` set ?f1 = {}" "fst ` set (table_runs as) \<inter> fst ` set ?f2 = {}"
      "fst ` set (table_runs as) \<inter> fst ` set ?f3 = {}" "fst ` set ?f1 \<inter> fst ` set ?f2 = {}"
      "fst ` set ?f1 \<inter> fst ` set ?f3 = {}" "fst ` set ?f2 \<inter> fst ` set ?f3 = {}"
    using rep by (auto simp: as_rep_def as_runs_def owned_append)
  have tab: "length F1 = as_npages1 as" "length F2 = as_npages2 as" "length F3 = DUMBVM_STACKPAGES"
    "table_at k ?t1 F1" "table_at k ?t2 F2" "table_at k ?t3 F3" and self: "L (as_self as) = Some 28"
    using rep by (auto simp: as_rep_def as_maps_def)
  have t: "X ?t1 = Some (table_pages (as_npages1 as))" "X ?t2 = Some (table_pages (as_npages2 as))"
    "X ?t3 = Some (table_pages DUMBVM_STACKPAGES)" "?t1 \<noteq> ?t2" "?t1 \<noteq> ?t3" "?t2 \<noteq> ?t3"
    using own(1) by (auto simp: table_runs_def owned_Cons)
  have out: "?t1 \<notin> fst ` set ?f1" "?t2 \<notin> fst ` set ?f1" "?t3 \<notin> fst ` set ?f1" "?t1 \<notin> fst ` set ?f2" "?t2 \<notin> fst ` set ?f2"
    "?t3 \<notin> fst ` set ?f2" "?t1 \<notin> fst ` set ?f3" "?t2 \<notin> fst ` set ?f3" "?t3 \<notin> fst ` set ?f3"
    using dj(1-3) by (auto simp: table_runs_def)
  let ?X1 = "disown X ?f1" and ?X2 = "disown (disown X ?f1) ?f2" and ?X3 = "disown (disown (disown X ?f1) ?f2) ?f3"
  have own2: "owned ?X1 ?f2" using owned_disown [of X ?f1 ?f2] own dj by (simp add: owned_append)
  have own3: "owned ?X2 ?f3"
    using owned_disown [of X "?f1 @ ?f2" ?f3] own dj by (simp add: owned_append disown_append image_Un Int_Un_distrib)
  obtain v1 where k1: "free_frames ?t1 0 (as_npages1 as) k = Some (k\<lparr>kvm := v1\<rparr>)" "heap_inv (k\<lparr>kvm := v1\<rparr>) L ?X1"
    by (rule free_table_frames [OF inv own(2) tab(1) t(1) _ tab(4)]) (use out in \<open>auto simp: frame_run_list_fst\<close>)
  obtain v2 where k2: "free_frames ?t2 0 (as_npages2 as) (k\<lparr>kvm := v1\<rparr>) = Some (k\<lparr>kvm := v2\<rparr>)" "heap_inv (k\<lparr>kvm := v2\<rparr>) L ?X2"
    by (rule free_table_frames [OF k1(2) own2 tab(2), of ?t2]) (use out t tab in \<open>auto simp: frame_run_list_fst disown_other\<close>)
  obtain v3 where k3: "free_frames ?t3 0 DUMBVM_STACKPAGES (k\<lparr>kvm := v2\<rparr>) = Some (k\<lparr>kvm := v3\<rparr>)" "heap_inv (k\<lparr>kvm := v3\<rparr>) L ?X3"
    by (rule free_table_frames [OF k2(2) own3 tab(3), of ?t3]) (use out t tab in \<open>auto simp: frame_run_list_fst disown_other\<close>)
  obtain v4 where k4: "k_free_kpages ?t1 (k\<lparr>kvm := v3\<rparr>) = Some (k\<lparr>kvm := v4\<rparr>)" "heap_inv (k\<lparr>kvm := v4\<rparr>) L (?X3(?t1 := None))"
    by (rule k_free_kpages_ok [OF k3(2), of ?t1 "table_pages (as_npages1 as)"]) (use out t in \<open>auto simp: disown_other\<close>)
  obtain v5 where k5: "k_free_kpages ?t2 (k\<lparr>kvm := v4\<rparr>) = Some (k\<lparr>kvm := v5\<rparr>)" "heap_inv (k\<lparr>kvm := v5\<rparr>) L (?X3(?t1 := None, ?t2 := None))"
    by (rule k_free_kpages_ok [OF k4(2), of ?t2 "table_pages (as_npages2 as)"]) (use out t in \<open>auto simp: disown_other\<close>)
  obtain v6 where k6: "k_free_kpages ?t3 (k\<lparr>kvm := v5\<rparr>) = Some (k\<lparr>kvm := v6\<rparr>)"
    "heap_inv (k\<lparr>kvm := v6\<rparr>) L (?X3(?t1 := None, ?t2 := None, ?t3 := None))"
    by (rule k_free_kpages_ok [OF k5(2), of ?t3 "table_pages DUMBVM_STACKPAGES"]) (use out t in \<open>auto simp: disown_other\<close>)
  have X: "?X3(?t1 := None, ?t2 := None, ?t3 := None) = disown X (as_runs as F1 F2 F3)"
    by (auto simp: disown_def as_runs_def table_runs_def fun_eq_iff)
  obtain k' where "kfree (as_self as) (k\<lparr>kvm := v6\<rparr>) = Some k'"
    "heap_inv k' (L(as_self as := None)) (disown X (as_runs as F1 F2 F3))"
    "\<forall>w. protected (L(as_self as := None)) (disown X (as_runs as F1 F2 F3)) w \<longrightarrow> kword k' w = kword (k\<lparr>kvm := v6\<rparr>) w"
    by (rule kfree_result [OF k6(2) [unfolded X] self])
  then show thesis
    using that [of k'] k1(1) k2(1) k3(1) k4(1) k5(1) k6(1) by (simp add: as_destroy_def)
qed

end
