(* ===== verification/Addrspace_Correct.thy ===== *)
theory Addrspace_Correct
  imports Addrspace
begin

text \<open>
  What the address-space operations of dumbvm.c guarantee on a consistent kernel memory: copying
  of frames between address spaces, success when enough frames are free, and the properties of
  creation, loading, copying and destruction.
\<close>

subsection \<open>Copying frames\<close>

lemma frame_offset:
  assumes "heap_inv k L X" and "X p = Some 1" and "d < 4096"
  shows "unat (p + of_nat d) = unat p + d" and "unat (p + of_nat d) \<in> page_run p 1"
proof -
  have sh: "unat p + 4096 \<le> 2 ^ 31 + 2 ^ 29" using heap_inv_run_shape [OF assms(1,2)] by simp
  have d: "unat (of_nat d :: u32) = d" using assms(3) by (intro unat_of_nat_u32) simp
  show u: "unat (p + of_nat d) = unat p + d"
    using unat_add_lem [of p "of_nat d"] sh assms(3) unfolding d by simp
  show "unat (p + of_nat d) \<in> page_run p 1" unfolding page_run_def u using assms(3) by simp
qed

definition same_page :: "kstate \<Rightarrow> paddr \<Rightarrow> kstate \<Rightarrow> paddr \<Rightarrow> bool" where
  "same_page k' f' k f \<longleftrightarrow>
     (\<forall>d<4096. kword k' (PADDR_TO_KVADDR f' + of_nat d) = kword k (PADDR_TO_KVADDR f + of_nat d))"

lemma memmove_page:
  fixes f :: paddr
  assumes inv: "heap_inv k L X" and f: "X (PADDR_TO_KVADDR f') = Some 1"
  defines "k1 \<equiv> memmove (PADDR_TO_KVADDR f') (PADDR_TO_KVADDR f) 4096 k"
  shows "heap_inv k1 L X" and "same_page k1 f' k f"
    and "unat w \<notin> page_run (PADDR_TO_KVADDR f') 1 \<Longrightarrow> kword k1 w = kword k w"
    and "k1 = k\<lparr>kword := kword k1\<rparr>"
proof -
  show eq: "k1 = k\<lparr>kword := kword k1\<rparr>" by (simp add: k1_def memmove_def)
  show out: "unat w \<notin> page_run (PADDR_TO_KVADDR f') 1 \<Longrightarrow> kword k1 w = kword k w" for w
    by (simp add: k1_def memmove_def byte_run_page)
  have "heap_inv (k\<lparr>kword := kword k1\<rparr>) L X"
    by (rule heap_inv_write [OF inv]) (use out protected_page [of X "PADDR_TO_KVADDR f'" 1, OF f] in blast)
  then show "heap_inv k1 L X" using eq by simp
  show "same_page k1 f' k f"
    using frame_offset(2) [OF inv f] by (auto simp: same_page_def k1_def memmove_def byte_run_page add.commute)
qed

text \<open>\<open>copyable\<close>: the tables hold the frames, the target frames are owned, and they overlap neither the
  tables nor the source frames.\<close>

definition copyable :: "kstate \<Rightarrow> (vaddr \<rightharpoonup> nat) \<Rightarrow> vaddr \<Rightarrow> vaddr \<Rightarrow> paddr list \<Rightarrow> paddr list \<Rightarrow> bool" where
  "copyable k X new old G F \<longleftrightarrow> length G = length F \<and> table_at k new G \<and> table_at k old F \<and>
     X new = Some (table_pages (length F)) \<and> X old = Some (table_pages (length F)) \<and>
     owned X (frame_run_list G) \<and> (\<forall>f \<in> set F. X (PADDR_TO_KVADDR f) = Some 1) \<and>
     set G \<inter> set F = {} \<and> new \<notin> PADDR_TO_KVADDR ` set G \<and> old \<notin> PADDR_TO_KVADDR ` set G"

lemma run_apart:
  assumes "heap_inv k L X" and "X p = Some n" and "X q = Some m" and "p \<noteq> q" and "unat w \<in> page_run p n"
  shows "unat w \<notin> page_run q m"
  using heap_inv_run_disjoint [OF assms(1-4)] assms(5) by blast

lemma table_at_keep:
  assumes "heap_inv k L X" and "X t = Some (table_pages (length F))" and "table_at k t F"
    and "\<forall>w. unat w \<in> page_run t (table_pages (length F)) \<longrightarrow> kword k' w = kword k w"
  shows "table_at k' t F"
proof -
  have "kword k' (t + of_nat (4 * i)) = F ! i" if "i < length F" for i
  proof -
    have "4 * i + 4 \<le> 4096 * table_pages (length F)" using that table_pages_room [of "length F"] by simp
    from kseg0_run(3) [OF assms(1,2) this] assms(4) have "kword k' (t + of_nat (4 * i)) = kword k (t + of_nat (4 * i))" by blast
    then show ?thesis using assms(3) that unfolding table_at_def by metis
  qed
  then show ?thesis unfolding table_at_def by blast
qed

text \<open>\<open>keeps H k k'\<close>: from \<open>k\<close> to \<open>k'\<close> only the frames \<open>H\<close> may have changed.\<close>

definition keeps :: "paddr list \<Rightarrow> kstate \<Rightarrow> kstate \<Rightarrow> bool" where
  "keeps H k k' \<longleftrightarrow> (\<forall>w. (\<forall>h \<in> set H. unat w \<notin> page_run (PADDR_TO_KVADDR h) 1) \<longrightarrow> kword k' w = kword k w)"

lemma keeps_run:
  assumes inv: "heap_inv k L X" and X: "X p = Some n" and H: "\<forall>h \<in> set H. X (PADDR_TO_KVADDR h) = Some 1"
    and p: "p \<notin> PADDR_TO_KVADDR ` set H" and keeps: "keeps H k k'" and w: "unat w \<in> page_run p n"
  shows "kword k' w = kword k w"
  using keeps run_apart [OF inv X _ _ w] H p unfolding keeps_def by (metis imageI)

lemma keeps_table:
  assumes inv: "heap_inv k L X" and t: "X t = Some (table_pages (length F))" "table_at k t F" "t \<notin> PADDR_TO_KVADDR ` set H"
    and H: "\<forall>h \<in> set H. X (PADDR_TO_KVADDR h) = Some 1" and keeps: "keeps H k k'"
  shows "table_at k' t F"
  using table_at_keep [OF inv t(1,2)] keeps_run [OF inv t(1) H t(3) keeps] by blast

lemma keeps_page:
  assumes inv: "heap_inv k L X" and f: "X (PADDR_TO_KVADDR f) = Some 1" "f \<notin> set H"
    and H: "\<forall>h \<in> set H. X (PADDR_TO_KVADDR h) = Some 1" and keeps: "keeps H k k'"
  shows "same_page k' f k f"
proof -
  have "PADDR_TO_KVADDR f \<notin> PADDR_TO_KVADDR ` set H" using f(2) by auto
  from keeps_run [OF inv f(1) H this keeps frame_offset(2) [OF inv f(1)]] show ?thesis by (simp add: same_page_def)
qed

lemma keeps_trans: "keeps H k k1 \<Longrightarrow> keeps I k1 k2 \<Longrightarrow> keeps (H @ I) k k2"
  by (auto simp: keeps_def)

lemma copyable_step:
  assumes inv: "heap_inv k L X" and c: "copyable k X new old G F" and H: "\<forall>h \<in> set H. X (PADDR_TO_KVADDR h) = Some 1"
    and out: "new \<notin> PADDR_TO_KVADDR ` set H" "old \<notin> PADDR_TO_KVADDR ` set H" and keeps: "keeps H k k1"
  shows "copyable k1 X new old G F"
  using c keeps_table [OF inv _ _ out(1) H keeps] keeps_table [OF inv _ _ out(2) H keeps]
  by (auto simp: copyable_def)

lemma copyable_read:
  assumes inv: "heap_inv k L X" and c: "copyable k X new old G F" and i: "i < length F"
  shows "kread k (new + of_nat (4 * i)) = Some (G ! i)" and "kread k (old + of_nat (4 * i)) = Some (F ! i)"
proof -
  have room: "4 * i + 4 \<le> 4096 * table_pages (length F)" using table_pages_room [of "length F"] i by simp
  have X: "X new = Some (table_pages (length F))" "X old = Some (table_pages (length F))"
    using c by (simp_all add: copyable_def)
  show "kread k (new + of_nat (4 * i)) = Some (G ! i)" "kread k (old + of_nat (4 * i)) = Some (F ! i)"
    using kseg0_run(1) [OF inv X(1) room] kseg0_run(1) [OF inv X(2) room] c i
    by (simp_all add: kread_def copyable_def table_at_def)
qed

lemma copyable_frames:
  assumes "copyable k X new old G F" and "i < length F"
  shows "X (PADDR_TO_KVADDR (G ! i)) = Some 1" and "X (PADDR_TO_KVADDR (F ! i)) = Some 1"
    and "j < length F \<Longrightarrow> i \<noteq> j \<Longrightarrow> G ! i \<noteq> G ! j" and "j < length F \<Longrightarrow> G ! i \<noteq> F ! j"
proof -
  have G: "owned X (frame_run_list G)" "length G = length F" "set G \<inter> set F = {}"
    "\<forall>f \<in> set F. X (PADDR_TO_KVADDR f) = Some 1"
    using assms(1) by (simp_all add: copyable_def)
  then have m: "G ! i \<in> set G" "F ! i \<in> set F" using assms(2) by simp_all
  show "X (PADDR_TO_KVADDR (G ! i)) = Some 1" using G(1) m(1) by (auto simp: owned_def frame_run_list_def)
  show "X (PADDR_TO_KVADDR (F ! i)) = Some 1" using G(4) m(2) by blast
  have "distinct G" using G(1) by (simp add: owned_def frame_run_list_def distinct_map o_def)
  then show "j < length F \<Longrightarrow> i \<noteq> j \<Longrightarrow> G ! i \<noteq> G ! j" using assms(2) G(2) by (simp add: nth_eq_iff_index_eq)
  show "j < length F \<Longrightarrow> G ! i \<noteq> F ! j" using G(3) m(1) by (metis IntI empty_iff nth_mem)
qed

lemma copy_frames_ok:
  assumes "heap_inv k L X" and "copyable k X new old G F" and "n = length F" and "i \<le> n"
  shows "\<exists>k'. copy_frames new old i n k = Some k' \<and> heap_inv k' L X \<and>
    keeps G k k' \<and> (\<forall>j<i. same_page k' (G ! j) k (G ! j)) \<and> (\<forall>j. i \<le> j \<and> j < n \<longrightarrow> same_page k' (G ! j) k (F ! j))"
  using assms
proof (induction new old i n k rule: copy_frames.induct)
  case (1 new old i n k)
  show ?case
  proof (cases "i < n")
    case True
    let ?k1 = "memmove (PADDR_TO_KVADDR (G ! i)) (PADDR_TO_KVADDR (F ! i)) 4096 k"
    have iF: "i < length F" using True 1(4) by simp
    note rd = copyable_read [OF 1(2,3) iF] and fr = copyable_frames [OF 1(3) iF]
    note m = memmove_page [where f = "F ! i", OF 1(2) fr(1)]
    have c: "copyable ?k1 X new old G F"
      by (rule copyable_step [OF 1(2,3), of "[G ! i]"])
        (use 1(3) iF fr m(3) in \<open>auto simp: copyable_def keeps_def\<close>)
    obtain k' where k': "copy_frames new old (Suc i) n ?k1 = Some k'" "heap_inv k' L X"
      "keeps G ?k1 k'"
      "\<forall>j<Suc i. same_page k' (G ! j) ?k1 (G ! j)" "\<forall>j. Suc i \<le> j \<and> j < n \<longrightarrow> same_page k' (G ! j) ?k1 (F ! j)"
      using 1(1) [OF True rd m(1) c 1(4)] True by auto
    have keep: "kword ?k1 (PADDR_TO_KVADDR f + of_nat d) = kword k (PADDR_TO_KVADDR f + of_nat d)"
      if "X (PADDR_TO_KVADDR f) = Some 1" "f \<noteq> G ! i" "d < 4096" for f d
      by (rule m(3)) (use run_apart [OF 1(2) that(1) fr(1) _ frame_offset(2) [OF 1(2) that(1,3)]] that(2) in simp)
    have "same_page k' (G ! i) k (F ! i)" using k'(4) m(2) by (auto simp: same_page_def)
    moreover have "same_page k' (G ! j) k (G ! j)" if "j < i" for j
      using k'(4) that keep [of "G ! j"] copyable_frames(1) [OF 1(3), of j] fr(3) [of j] iF by (auto simp: same_page_def)
    moreover have "same_page k' (G ! j) k (F ! j)" if "Suc i \<le> j" "j < n" for j
      using k'(5) that keep [of "F ! j"] copyable_frames(2) [OF 1(3), of j] fr(4) [of j] 1(4) by (auto simp: same_page_def)
    moreover have "copy_frames new old i n k = Some k'"
      using True rd k'(1) by (subst copy_frames.simps) simp
    moreover have "keeps G k k'" using k'(3) m(3) 1(3) iF by (simp add: copyable_def keeps_def)
    ultimately show ?thesis using k'(2) by (metis le_eq_less_or_eq less_eq_Suc_le)
  next
    case False
    then show ?thesis using 1 by (subst copy_frames.simps) (auto simp: same_page_def keeps_def)
  qed
qed

definition same_pages :: "kstate \<Rightarrow> paddr list \<Rightarrow> kstate \<Rightarrow> paddr list \<Rightarrow> bool" where
  "same_pages k' G k F \<longleftrightarrow> length G = length F \<and> (\<forall>j<length F. same_page k' (G ! j) k (F ! j))"

lemma same_page_trans: "same_page k2 g k1 f \<Longrightarrow> same_page k1 f k e \<Longrightarrow> same_page k2 g k e"
  by (simp add: same_page_def)

lemma same_pages_trans: "same_pages k2 G k1 F \<Longrightarrow> same_pages k1 F k E \<Longrightarrow> same_pages k2 G k E"
  using same_page_trans by (simp add: same_pages_def) blast

lemma keeps_pages:
  assumes "heap_inv k L X" and "\<forall>f \<in> set F. X (PADDR_TO_KVADDR f) = Some 1" "set F \<inter> set H = {}"
    and "\<forall>h \<in> set H. X (PADDR_TO_KVADDR h) = Some 1" and "keeps H k k'"
  shows "same_pages k' F k F"
proof -
  have "same_page k' (F ! j) k (F ! j)" if "j < length F" for j
    by (rule keeps_page [OF assms(1) _ _ assms(4,5)]) (use assms(2,3) nth_mem [OF that] in blast)+
  then show ?thesis by (simp add: same_pages_def)
qed

lemma copy_segment:
  assumes "heap_inv k L X" and "copyable k X new old G F" and "n = length F"
  obtains k' where "copy_frames new old 0 n k = Some k'" and "heap_inv k' L X" and "keeps G k k'" and "same_pages k' G k F"
  using copy_frames_ok [OF assms, of 0] assms(2,3) by (auto simp: same_pages_def copyable_def)

lemma owned_frames: "owned X (frame_run_list F) \<Longrightarrow> \<forall>f \<in> set F. X (PADDR_TO_KVADDR f) = Some 1"
  by (auto simp: owned_def frame_run_list_def)

lemma copyable_owned: "copyable k X new old G F \<Longrightarrow> \<forall>g \<in> set G. X (PADDR_TO_KVADDR g) = Some 1"
  by (auto simp: copyable_def dest: owned_frames)

lemma copy_segments:
  assumes inv: "heap_inv k L X" and c1: "copyable k X n1 o1 G1 F1" and c2: "copyable k X n2 o2 G2 F2"
    and c3: "copyable k X n3 o3 G3 F3"
    and dj: "set G1 \<inter> set G2 = {}" "set G1 \<inter> set G3 = {}" "set G2 \<inter> set G3 = {}"
      "set G1 \<inter> set F2 = {}" "set G1 \<inter> set F3 = {}" "set G2 \<inter> set F3 = {}"
    and out: "{n2, o2, n3, o3} \<inter> PADDR_TO_KVADDR ` set G1 = {}" "{n3, o3} \<inter> PADDR_TO_KVADDR ` set G2 = {}"
  obtains k3 k4 k5 where "copy_frames n1 o1 0 (length F1) k = Some k3" and "copy_frames n2 o2 0 (length F2) k3 = Some k4"
    and "copy_frames n3 o3 0 (length F3) k4 = Some k5" and "heap_inv k5 L X" and "keeps (G1 @ G2 @ G3) k k5"
    and "same_pages k5 G1 k F1" and "same_pages k5 G2 k F2" and "same_pages k5 G3 k F3"
proof -
  note g1 = copyable_owned [OF c1] and g2 = copyable_owned [OF c2] and g3 = copyable_owned [OF c3]
  have f: "\<forall>f \<in> set F2. X (PADDR_TO_KVADDR f) = Some 1" "\<forall>f \<in> set F3. X (PADDR_TO_KVADDR f) = Some 1"
    using c2 c3 by (simp_all add: copyable_def)
  obtain k3 where k3: "copy_frames n1 o1 0 (length F1) k = Some k3" "heap_inv k3 L X" "keeps G1 k k3" "same_pages k3 G1 k F1"
    by (rule copy_segment [OF inv c1 refl])
  have c2': "copyable k3 X n2 o2 G2 F2" by (rule copyable_step [OF inv c2 g1 _ _ k3(3)]) (use out in auto)
  have c3': "copyable k3 X n3 o3 G3 F3" by (rule copyable_step [OF inv c3 g1 _ _ k3(3)]) (use out in auto)
  obtain k4 where k4: "copy_frames n2 o2 0 (length F2) k3 = Some k4" "heap_inv k4 L X" "keeps G2 k3 k4" "same_pages k4 G2 k3 F2"
    by (rule copy_segment [OF k3(2) c2' refl])
  have c3'': "copyable k4 X n3 o3 G3 F3" by (rule copyable_step [OF k3(2) c3' g2 _ _ k4(3)]) (use out in auto)
  obtain k5 where k5: "copy_frames n3 o3 0 (length F3) k4 = Some k5" "heap_inv k5 L X" "keeps G3 k4 k5" "same_pages k5 G3 k4 F3"
    by (rule copy_segment [OF k4(2) c3'' refl])
  have "same_pages k5 G1 k3 G1"
    by (rule keeps_pages [OF k3(2) g1 _ _ keeps_trans [OF k4(3) k5(3)]]) (use dj g2 g3 in auto)
  moreover have "same_pages k5 G2 k4 G2" by (rule keeps_pages [OF k4(2) g2 _ g3 k5(3)]) (use dj in auto)
  moreover have "same_pages k3 F2 k F2" by (rule keeps_pages [OF inv f(1) _ g1 k3(3)]) (use dj in auto)
  moreover have "same_pages k4 F3 k F3"
    by (rule keeps_pages [OF inv f(2) _ _ keeps_trans [OF k3(3) k4(3)]]) (use dj g1 g2 in auto)
  moreover have "keeps (G1 @ G2 @ G3) k k5" using keeps_trans [OF keeps_trans [OF k3(3) k4(3)] k5(3)] by simp
  ultimately show thesis
    using that [OF k3(1) k4(1) k5(1) k5(2)] k3(4) k4(4) k5(4) same_pages_trans by metis
qed

subsection \<open>Creating and copying\<close>

definition as_empty :: "vaddr \<Rightarrow> addrspace" where
  "as_empty p = \<lparr>as_self = p, as_vbase1 = 0, page_pbase1 = 0, as_npages1 = 0, as_vbase2 = 0,
     page_pbase2 = 0, as_npages2 = 0, page_stackpbase = 0\<rparr>"

definition as_inherit :: "addrspace \<Rightarrow> addrspace \<Rightarrow> addrspace" where
  "as_inherit old new = new\<lparr>as_vbase1 := as_vbase1 old, as_npages1 := as_npages1 old,
     as_vbase2 := as_vbase2 old, as_npages2 := as_npages2 old\<rparr>"

lemma as_create_cases:
  assumes "heap_inv k L X"
  obtains k' where "as_create k = Some (None, k')" and "heap_inv k' L X" and "kword k' = kword k"
  | p k' where "as_create k = Some (Some (as_empty p), k')" and "L p = None" and "heap_inv k' (L(p \<mapsto> 28)) X"
      and "\<forall>w. protected L X w \<longrightarrow> kword k' w = kword k w"
proof -
  have "(28 :: nat) < 2 ^ 31" by simp
  with assms show thesis
  proof (cases rule: kmalloc_result)
    case (1 k')
    then show ?thesis using that(1) by (simp add: as_create_def)
  next
    case (2 p k')
    then show ?thesis using that(2) by (simp add: as_create_def as_empty_def)
  qed
qed

lemma protected_block_upd: "protected L X w \<Longrightarrow> L p = None \<Longrightarrow> protected (L(p \<mapsto> n)) X w"
  unfolding protected_def by (metis fun_upd_other option.distinct(1))

lemma copyable_fresh:
  assumes inv: "heap_inv k L (grant X R)" and fr: "fresh_runs X R" and len: "length G = length F"
    and new: "table_at k new G" "(new, table_pages (length F)) \<in> set R" "set (frame_run_list G) \<subseteq> set R" "distinct G"
      "new \<notin> PADDR_TO_KVADDR ` set G"
    and old: "table_at k old F" "X old = Some (table_pages (length F))" "\<forall>f \<in> set F. X (PADDR_TO_KVADDR f) = Some 1"
  shows "copyable k (grant X R) new old G F"
proof -
  have g: "X (PADDR_TO_KVADDR g) = None \<and> grant X R (PADDR_TO_KVADDR g) = Some 1" if "g \<in> set G" for g
    using new(3) that fresh_owned [OF fr] fr by (force simp: frame_run_list_def owned_def fresh_runs_def)
  have "owned (grant X R) (frame_run_list G)"
    using g new(4) by (auto simp: owned_def frame_run_list_def distinct_map o_def inj_on_def)
  moreover have "grant X R new = Some (table_pages (length F))" using new(2) fresh_owned [OF fr] by (auto simp: owned_def)
  ultimately show ?thesis using assms g grant_old [OF fr] by (force simp: copyable_def)
qed

text \<open>Words of live memory, so in particular the old address space, survive an allocation phase.\<close>

lemma as_rep_keep:
  assumes inv: "heap_inv k L X" and rep: "as_rep k L X as F1 F2 F3"
    and same: "\<forall>w. protected L X w \<longrightarrow> kword k' w = kword k w"
  shows "as_maps k' as F1 F2 F3" and "\<forall>f \<in> set (F1 @ F2 @ F3). X (PADDR_TO_KVADDR f) = Some 1"
    and "f \<in> set (F1 @ F2 @ F3) \<Longrightarrow> same_page k' f k f"
    and "X (page_pbase1 as) = Some (table_pages (length F1))" and "X (page_pbase2 as) = Some (table_pages (length F2))"
    and "X (page_stackpbase as) = Some (table_pages (length F3))"
proof -
  have own: "owned X (table_runs as)" "owned X (frame_run_list (F1 @ F2 @ F3))"
    and m: "as_maps k as F1 F2 F3" using rep by (simp_all add: as_rep_def as_runs_def owned_append)
  show fr: "\<forall>f \<in> set (F1 @ F2 @ F3). X (PADDR_TO_KVADDR f) = Some 1" by (rule owned_frames [OF own(2)])
  show t: "X (page_pbase1 as) = Some (table_pages (length F1))" "X (page_pbase2 as) = Some (table_pages (length F2))"
    "X (page_stackpbase as) = Some (table_pages (length F3))"
    using own(1) m by (auto simp: table_runs_def owned_Cons as_maps_def)
  have keep: "kword k' w = kword k w" if "X p = Some n" "unat w \<in> page_run p n" for p n w
    using same protected_page [of X p n w L] that by blast
  have "table_at k' tb F" if "X tb = Some (table_pages (length F))" "table_at k tb F" for tb F
    using table_at_keep [OF inv that] keep [OF that(1)] by blast
  then show "as_maps k' as F1 F2 F3" using m t by (simp add: as_maps_def)
  show "same_page k' f k f" if "f \<in> set (F1 @ F2 @ F3)"
    using keep [OF bspec [OF fr that] frame_offset(2) [OF inv bspec [OF fr that]]] by (simp add: same_page_def)
qed

lemma as_runs_parts:
  assumes "fresh_runs X (as_runs as G1 G2 G3)"
  shows "distinct G1" "distinct G2" "distinct G3"
    and "set G1 \<inter> set G2 = {}" "set G1 \<inter> set G3 = {}" "set G2 \<inter> set G3 = {}"
    and "t \<in> {page_pbase1 as, page_pbase2 as, page_stackpbase as} \<Longrightarrow> t \<notin> PADDR_TO_KVADDR ` set (G1 @ G2 @ G3)"
    and "g \<in> set (G1 @ G2 @ G3) \<Longrightarrow> X (PADDR_TO_KVADDR g) = None"
proof -
  have d: "distinct (map fst (table_runs as) @ map PADDR_TO_KVADDR (G1 @ G2 @ G3))"
    and x: "fst ` set (as_runs as G1 G2 G3) \<inter> dom X = {}"
    using assms by (simp_all add: fresh_runs_def as_runs_def frame_run_list_def o_def)
  have "distinct (map PADDR_TO_KVADDR (G1 @ G2 @ G3))" using d unfolding distinct_append by blast
  then have "distinct (G1 @ G2 @ G3)" by (simp only: distinct_map)
  then show "distinct G1" "distinct G2" "distinct G3" "set G1 \<inter> set G2 = {}" "set G1 \<inter> set G3 = {}" "set G2 \<inter> set G3 = {}"
    by auto
  show "t \<in> {page_pbase1 as, page_pbase2 as, page_stackpbase as} \<Longrightarrow> t \<notin> PADDR_TO_KVADDR ` set (G1 @ G2 @ G3)"
    using d by (elim insertE) (simp_all add: table_runs_def image_Un)
  show "g \<in> set (G1 @ G2 @ G3) \<Longrightarrow> X (PADDR_TO_KVADDR g) = None"
    using x by (force simp: as_runs_def frame_run_list_def domIff)
qed

lemma as_copy_frames:
  assumes inv: "heap_inv k L (grant X (as_runs new G1 G2 G3))" and fr: "fresh_runs X (as_runs new G1 G2 G3)"
    and new: "as_maps k new G1 G2 G3" and old: "as_maps k old F1 F2 F3"
    and n: "as_npages1 new = as_npages1 old" "as_npages2 new = as_npages2 old"
    and X: "\<forall>f \<in> set (F1 @ F2 @ F3). X (PADDR_TO_KVADDR f) = Some 1" "X (page_pbase1 old) = Some (table_pages (length F1))"
      "X (page_pbase2 old) = Some (table_pages (length F2))" "X (page_stackpbase old) = Some (table_pages (length F3))"
  obtains k3 k4 k5 where "copy_frames (page_pbase1 new) (page_pbase1 old) 0 (as_npages1 new) k = Some k3"
    and "copy_frames (page_pbase2 new) (page_pbase2 old) 0 (as_npages2 new) k3 = Some k4"
    and "copy_frames (page_stackpbase new) (page_stackpbase old) 0 DUMBVM_STACKPAGES k4 = Some k5"
    and "heap_inv k5 L (grant X (as_runs new G1 G2 G3))" and "keeps (G1 @ G2 @ G3) k k5"
    and "same_pages k5 G1 k F1" and "same_pages k5 G2 k F2" and "same_pages k5 G3 k F3"
proof -
  let ?R = "as_runs new G1 G2 G3"
  note p = as_runs_parts [OF fr]
  have len: "length F1 = as_npages1 new" "length F2 = as_npages2 new" "length F3 = DUMBVM_STACKPAGES"
    "length G1 = length F1" "length G2 = length F2" "length G3 = length F3"
    using new old n by (simp_all add: as_maps_def)
  have GF: "set (G1 @ G2 @ G3) \<inter> set (F1 @ F2 @ F3) = {}" using p(8) X(1) by fastforce
  have t: "t \<notin> PADDR_TO_KVADDR ` set (G1 @ G2 @ G3)" if "t \<in> {page_pbase1 old, page_pbase2 old, page_stackpbase old}" for t
  proof
    assume "t \<in> PADDR_TO_KVADDR ` set (G1 @ G2 @ G3)"
    then obtain g where "t = PADDR_TO_KVADDR g" "g \<in> set (G1 @ G2 @ G3)" by (rule imageE)
    then have "X t = None" using p(8) [of g] by simp
    moreover have "X t \<noteq> None" using X(2-4) that by (elim insertE) simp_all
    ultimately show False by simp
  qed
  have R: "set (frame_run_list G1) \<subseteq> set ?R" "set (frame_run_list G2) \<subseteq> set ?R" "set (frame_run_list G3) \<subseteq> set ?R"
    "(page_pbase1 new, table_pages (length F1)) \<in> set ?R" "(page_pbase2 new, table_pages (length F2)) \<in> set ?R"
    "(page_stackpbase new, table_pages (length F3)) \<in> set ?R"
    using len by (auto simp: as_runs_def table_runs_def)
  note outs = p(7) [of "page_pbase1 new"] p(7) [of "page_pbase2 new"] p(7) [of "page_stackpbase new"]
    t [of "page_pbase1 old"] t [of "page_pbase2 old"] t [of "page_stackpbase old"]
  have c1: "copyable k (grant X ?R) (page_pbase1 new) (page_pbase1 old) G1 F1"
    by (rule copyable_fresh [OF inv fr len(4)]) (use new old R X p(1) outs in \<open>simp_all add: as_maps_def image_Un\<close>)
  have c2: "copyable k (grant X ?R) (page_pbase2 new) (page_pbase2 old) G2 F2"
    by (rule copyable_fresh [OF inv fr len(5)]) (use new old R X p(2) outs in \<open>simp_all add: as_maps_def image_Un\<close>)
  have c3: "copyable k (grant X ?R) (page_stackpbase new) (page_stackpbase old) G3 F3"
    by (rule copyable_fresh [OF inv fr len(6)]) (use new old R X p(3) outs in \<open>simp_all add: as_maps_def image_Un\<close>)
  show thesis
    by (rule copy_segments [OF inv c1 c2 c3 p(4,5,6)]) (use GF outs len that in \<open>simp_all add: image_Un Int_Un_distrib Int_Un_distrib2\<close>)
qed

definition as_copied :: "addrspace \<Rightarrow> kstate \<Rightarrow> paddr list \<Rightarrow> paddr list \<Rightarrow> paddr list \<Rightarrow>
    addrspace \<Rightarrow> kstate \<Rightarrow> paddr list \<Rightarrow> paddr list \<Rightarrow> paddr list \<Rightarrow> bool" where
  "as_copied old k F1 F2 F3 new k' G1 G2 G3 \<longleftrightarrow>
     as_vbase1 new = as_vbase1 old \<and> as_npages1 new = as_npages1 old \<and>
     as_vbase2 new = as_vbase2 old \<and> as_npages2 new = as_npages2 old \<and>
     same_pages k' G1 k F1 \<and> same_pages k' G2 k F2 \<and> same_pages k' G3 k F3"

lemma as_copy_eq:
  "as_copy old k = do {
     (r, k1) \<leftarrow> as_create k;
     case r of
       None \<Rightarrow> Some (Inl ENOMEM, k1)
     | Some new0 \<Rightarrow> do {
         (new, r2, k2) \<leftarrow> as_prepare_load (as_inherit old new0) k1;
         if r2 \<noteq> Inr () then do { k3 \<leftarrow> as_destroy new k2; Some (Inl ENOMEM, k3) }
         else do {
           kassert (page_pbase1 new \<noteq> 0);
           kassert (page_pbase2 new \<noteq> 0);
           kassert (page_stackpbase new \<noteq> 0);
           k3 \<leftarrow> copy_frames (page_pbase1 new) (page_pbase1 old) 0 (as_npages1 new) k2;
           k4 \<leftarrow> copy_frames (page_pbase2 new) (page_pbase2 old) 0 (as_npages2 new) k3;
           k5 \<leftarrow> copy_frames (page_stackpbase new) (page_stackpbase old) 0 DUMBVM_STACKPAGES k4;
           Some (Inr new, k5)
         }
       }
   }"
  by (simp add: as_copy_def as_inherit_def Let_def cong: option.case_cong)

lemma as_copy_new:
  assumes inv: "heap_inv k L X" and rep: "as_rep k L X old F1 F2 F3"
    and c: "as_create k = Some (Some (as_empty p), k1)" "L p = None" "heap_inv k1 (L(p \<mapsto> 28)) X"
      "\<forall>w. protected L X w \<longrightarrow> kword k1 w = kword k w"
    and l: "as_prepare_load (as_inherit old (as_empty p)) k1 = Some (new, Inr (), k2)"
      "as_tabled (as_inherit old (as_empty p)) new" "as_maps k2 new G1 G2 G3" "fresh_runs X (as_runs new G1 G2 G3)"
      "heap_inv k2 (L(p \<mapsto> 28)) (grant X (as_runs new G1 G2 G3))"
      "\<forall>w. protected (L(p \<mapsto> 28)) X w \<longrightarrow> kword k2 w = kword k1 w"
  obtains k' where "as_copy old k = Some (Inr new, k')" and "as_self new = p"
    and "heap_inv k' (L(p \<mapsto> 28)) (grant X (as_runs new G1 G2 G3))"
    and "as_rep k' (L(p \<mapsto> 28)) (grant X (as_runs new G1 G2 G3)) new G1 G2 G3"
    and "as_copied old k F1 F2 F3 new k' G1 G2 G3" and "\<forall>w. protected L X w \<longrightarrow> kword k' w = kword k w"
proof -
  let ?X = "grant X (as_runs new G1 G2 G3)" and ?L = "L(p \<mapsto> 28)"
  have same2: "\<forall>w. protected L X w \<longrightarrow> kword k2 w = kword k w"
    using c(4) l(6) protected_block_upd c(2) by metis
  note old = as_rep_keep [OF inv rep same2]
  have nf: "as_self new = p" "as_vbase1 new = as_vbase1 old" "as_npages1 new = as_npages1 old"
    "as_vbase2 new = as_vbase2 old" "as_npages2 new = as_npages2 old"
    "page_pbase1 new \<noteq> 0" "page_pbase2 new \<noteq> 0" "page_stackpbase new \<noteq> 0"
    using as_tabled_fields [OF l(2)] l(2) by (simp_all add: as_inherit_def as_empty_def as_tabled_def)
  obtain k3 k4 k5 where k: "copy_frames (page_pbase1 new) (page_pbase1 old) 0 (as_npages1 new) k2 = Some k3"
    "copy_frames (page_pbase2 new) (page_pbase2 old) 0 (as_npages2 new) k3 = Some k4"
    "copy_frames (page_stackpbase new) (page_stackpbase old) 0 DUMBVM_STACKPAGES k4 = Some k5"
    "heap_inv k5 ?L ?X" "keeps (G1 @ G2 @ G3) k2 k5"
    "same_pages k5 G1 k2 F1" "same_pages k5 G2 k2 F2" "same_pages k5 G3 k2 F3"
    by (rule as_copy_frames [OF l(5,4,3) old(1) nf(3,5) old(2,4,5,6)])
  have run: "as_copy old k = Some (Inr new, k5)"
    using c(1) l(1) nf(6-8) k(1-3) by (simp add: as_copy_eq)
  have G: "\<forall>h \<in> set (G1 @ G2 @ G3). ?X (PADDR_TO_KVADDR h) = Some 1"
    using owned_frames [of ?X "G1 @ G2 @ G3"] fresh_owned [OF l(4)] by (simp add: as_runs_def owned_append)
  have tk: "table_at k5 t F" if "t \<in> {page_pbase1 new, page_pbase2 new, page_stackpbase new}"
      "?X t = Some (table_pages (length F))" "table_at k2 t F" for t F
    by (rule keeps_table [OF l(5) that(2,3) as_runs_parts(7) [OF l(4) that(1)] G k(5)])
  have own: "owned ?X (table_runs new)" using fresh_owned [OF l(4)] by (simp add: as_runs_def owned_append)
  have t: "?X (page_pbase1 new) = Some (table_pages (length G1))" "?X (page_pbase2 new) = Some (table_pages (length G2))"
    "?X (page_stackpbase new) = Some (table_pages (length G3))"
    using own l(3) by (simp_all add: table_runs_def owned_Cons as_maps_def)
  have "as_maps k5 new G1 G2 G3"
    using l(3) tk [OF _ t(1)] tk [OF _ t(2)] tk [OF _ t(3)] by (simp add: as_maps_def)
  then have "as_rep k5 ?L ?X new G1 G2 G3"
    using rep nf fresh_owned [OF l(4)] by (simp add: as_rep_def as_sized_def)
  moreover have "same_pages k2 F k F" if "set F \<subseteq> set (F1 @ F2 @ F3)" for F
    using old(3) subsetD [OF that nth_mem] by (simp add: same_pages_def)
  then have sp: "same_pages k2 F1 k F1" "same_pages k2 F2 k F2" "same_pages k2 F3 k F3" by (simp_all add: le_supI1 le_supI2)
  have "as_copied old k F1 F2 F3 new k5 G1 G2 G3"
    using nf same_pages_trans [OF k(6) sp(1)] same_pages_trans [OF k(7) sp(2)] same_pages_trans [OF k(8) sp(3)]
    by (simp add: as_copied_def)
  moreover have "kword k5 w = kword k w" if w: "protected L X w" for w
  proof -
    have "unat w \<notin> page_run (PADDR_TO_KVADDR g) 1" if "g \<in> set (G1 @ G2 @ G3)" for g
      by (rule fresh_unprotected [OF l(5,4) _ protected_block_upd [OF w c(2)]])
        (use that in \<open>auto simp: as_runs_def frame_run_list_def\<close>)
    then show ?thesis using k(5) same2 w by (simp add: keeps_def)
  qed
  ultimately show thesis using that [OF run nf(1) k(4)] by blast
qed

subsection \<open>Enough memory\<close>

lemma heap_kp_rel:
  assumes "heap_inv k L X"
  obtains K where "kp_rel (kvm k) K"
  using assms by (auto simp: heap_inv_def heap_ok_def)

lemma pagetable_alloc_avail:
  assumes inv: "heap_inv k L X" and n: "0 < n" "n \<le> 1024" and av: "0 < avail (kvm k)"
  obtains t k1 where "pagetable_alloc n k = Some (t, k1)" and "t \<noteq> 0" and "avail (kvm k1) = avail (kvm k) - 1"
proof -
  have pages: "DIVROUNDUP32 (n * 4 mod 2 ^ 32) 4096 * 4096 div 4096 = 1"
    using n by (auto simp: DIVROUNDUP32_def div_nat_eqI)
  obtain K where rel: "kp_rel (kvm k) K" by (rule heap_kp_rel [OF inv])
  obtain t v where "alloc_kpages 1 (kvm k) = Some (t, v)" "t \<noteq> 0" "avail v = avail (kvm k) - 1"
    by (rule alloc_kpages_avail [OF rel av])
  then show thesis using that pages by (simp add: pagetable_alloc_def k_alloc_kpages_def Let_def)
qed

lemma k_getppages_avail:
  assumes "heap_inv k L X" and "0 < avail (kvm k)"
  obtains pa v where "k_getppages 1 k = Some (pa, k\<lparr>kvm := v\<rparr>)" and "pa \<noteq> 0" and "avail v = avail (kvm k) - 1"
proof -
  obtain K where rel: "kp_rel (kvm k) K" by (rule heap_kp_rel [OF assms(1)])
  obtain pa v where "getppages 1 (kvm k) = Some (pa, v)" "pa \<noteq> 0" "avail v = avail (kvm k) - 1"
    by (rule getppages_avail [OF rel [unfolded kp_rel_def] assms(2)])
  then show thesis using that by (simp add: k_getppages_def)
qed

lemma map_frames_avail:
  assumes "heap_inv k L X" and "X t = Some tp" and "4 * n \<le> 4096 * tp" and "i \<le> n" and "n - i \<le> avail (kvm k)"
  shows "\<exists>k'. map_frames t i n k = Some (Inr (), k') \<and> avail (kvm k') = avail (kvm k) - (n - i)"
  using assms
proof (induction t i n k arbitrary: X rule: map_frames.induct)
  case (1 t i n k)
  show ?case
  proof (cases "i < n")
    case True
    have i4: "4 * i + 4 \<le> 4096 * tp" using True 1 by simp
    have "0 < avail (kvm k)" using True 1(6) by simp
    then obtain pa v where pa: "k_getppages 1 k = Some (pa, k\<lparr>kvm := v\<rparr>)" "pa \<noteq> 0" "avail v = avail (kvm k) - 1"
      by (rule k_getppages_avail [OF 1(2)])
    have fr: "X (PADDR_TO_KVADDR pa) = None" "heap_inv (k\<lparr>kvm := v\<rparr>) L (X(PADDR_TO_KVADDR pa \<mapsto> 1))"
      using k_getppages_cases [OF 1(2)] pa(1,2) by (metis option.inject prod.inject)+
    obtain k1 k2 where k: "kwrite (t + of_nat (4 * i)) pa (k\<lparr>kvm := v\<rparr>) = Some k1" "k2 = as_zero_region pa 1 k1"
      "heap_inv k2 L (X(PADDR_TO_KVADDR pa \<mapsto> 1))"
      by (rule map_step [OF 1(2,3) i4 fr(2,1)])
    have kv: "kvm k2 = v" using k(1,2) by (auto simp: kwrite_def as_zero_region_def bzero_def split: if_splits)
    have tq: "(X(PADDR_TO_KVADDR pa \<mapsto> 1)) t = Some tp" using 1(3) fr(1) by auto
    have le: "n - Suc i \<le> avail (kvm k2)" using 1(6) True pa(3) unfolding kv by linarith
    obtain k' where "map_frames t (Suc i) n k2 = Some (Inr (), k')" "avail (kvm k') = avail (kvm k2) - (n - Suc i)"
      using 1(1) [OF True pa(1) refl k(1) pa(2) k(3) [unfolded k(2)] tq 1(4) _ le [unfolded k(2)]] k(2) True by auto
    then show ?thesis
      using True pa k(1,2) kv by (subst map_frames.simps) auto
  next
    case False
    then show ?thesis using 1 by (simp add: map_frames.simps)
  qed
qed

lemma map_tables_avail:
  assumes "heap_inv k L X" and "tables_held X ts" and "sum_list (map snd ts) \<le> avail (kvm k)"
  shows "\<exists>k'. map_tables ts k = Some (Inr (), k') \<and> avail (kvm k') = avail (kvm k) - sum_list (map snd ts)"
  using assms
proof (induction ts arbitrary: k X)
  case (Cons tn ts)
  obtain t n where tn: "tn = (t, n)" by (cases tn)
  obtain tp where t: "X t = Some tp" "4 * n \<le> 4096 * tp" "tables_held X ts"
    using Cons(3) by (auto simp: tables_held_Cons tn)
  obtain k1 where k1: "map_frames t 0 n k = Some (Inr (), k1)" "avail (kvm k1) = avail (kvm k) - n"
    using map_frames_avail [OF Cons(2) t(1,2), of 0] Cons(4) tn by auto
  obtain F where F: "fresh_runs X (frame_run_list F)" "heap_inv k1 L (grant X (frame_run_list F))"
    using map_frames_ok [OF Cons(2) t(1,2), of 0] k1(1) by auto
  show ?case using Cons(1) [OF F(2) tables_held_grant [OF t(3) F(1)]] k1 Cons(4) tn by auto
qed simp

lemma alloc_tables_avail:
  assumes inv: "heap_inv k L X" and n: "0 < as_npages1 as" "as_npages1 as \<le> 1024" "0 < as_npages2 as" "as_npages2 as \<le> 1024"
    and av: "3 \<le> avail (kvm k)"
  obtains as' k' where "alloc_tables as k = Some (as', Inr (), k')" and "avail (kvm k') = avail (kvm k) - 3"
proof -
  have lt: "as_npages1 as < 2 ^ 20" "as_npages2 as < 2 ^ 20" "DUMBVM_STACKPAGES < 2 ^ 20"
    "0 < DUMBVM_STACKPAGES" "DUMBVM_STACKPAGES \<le> 1024" using n by (simp_all add: DUMBVM_STACKPAGES_def)
  have inv1: "heap_inv k1 L (X(t \<mapsto> table_pages m))"
    if "pagetable_alloc m k = Some (t, k1)" "t \<noteq> 0" "m < 2 ^ 20" "heap_inv k L X" for m t k1 k X
    using pagetable_alloc_cases [OF that(4,3)] that(1,2) by (metis option.inject prod.inject)
  have "0 < avail (kvm k)" using av by simp
  then obtain t1 k1 where t1: "pagetable_alloc (as_npages1 as) k = Some (t1, k1)" "t1 \<noteq> 0" "avail (kvm k1) = avail (kvm k) - 1"
    by (rule pagetable_alloc_avail [OF inv n(1,2)])
  note i1 = inv1 [OF t1(1,2) lt(1) inv]
  have "0 < avail (kvm k1)" using av t1(3) by simp
  then obtain t2 k2 where t2: "pagetable_alloc (as_npages2 as) k1 = Some (t2, k2)" "t2 \<noteq> 0" "avail (kvm k2) = avail (kvm k1) - 1"
    by (rule pagetable_alloc_avail [OF i1 n(3,4)])
  note i2 = inv1 [OF t2(1,2) lt(2) i1]
  have "0 < avail (kvm k2)" using av t1(3) t2(3) by simp
  then obtain t3 k3 where t3: "pagetable_alloc DUMBVM_STACKPAGES k2 = Some (t3, k3)" "t3 \<noteq> 0" "avail (kvm k3) = avail (kvm k2) - 1"
    by (rule pagetable_alloc_avail [OF i2 lt(4,5)])
  show thesis using that t1 t2 t3 by (simp add: alloc_tables_def)
qed

lemma as_prepare_load_avail:
  assumes inv: "heap_inv k L X" and n: "0 < as_npages1 as" "as_npages1 as \<le> 1024" "0 < as_npages2 as" "as_npages2 as \<le> 1024"
    and z: "page_pbase1 as = 0" "page_pbase2 as = 0" "page_stackpbase as = 0"
    and av: "as_npages1 as + as_npages2 as + 15 \<le> avail (kvm k)"
  obtains as' k' where "as_prepare_load as k = Some (as', Inr (), k')"
    and "avail (kvm k') = avail (kvm k) - (as_npages1 as + as_npages2 as + 15)"
proof -
  obtain as' k1 where a: "alloc_tables as k = Some (as', Inr (), k1)" "avail (kvm k1) = avail (kvm k) - 3"
    using alloc_tables_avail [OF inv n] av by auto
  have sz: "as_sized as" using n by (simp add: as_sized_def)
  have b: "as_tabled as as'" "fresh_runs X (table_runs as')" "heap_inv k1 L (grant X (table_runs as'))"
    by (rule alloc_tables_cases [OF inv sz], use a(1) in auto)+
  note n' = as_tabled_fields(3,5) [OF b(1)]
  have "sum_list (map snd (as_tables as')) = as_npages1 as + as_npages2 as + 12"
    by (simp add: as_tables_def n' DUMBVM_STACKPAGES_def)
  moreover have "as_npages1 as + as_npages2 as + 12 \<le> avail (kvm k1)" using a(2) av by linarith
  ultimately obtain k' where "map_tables (as_tables as') k1 = Some (Inr (), k')" "avail (kvm k') = avail (kvm k1) - (as_npages1 as + as_npages2 as + 12)"
    using map_tables_avail [OF b(3) table_runs_held [OF b(2)]] by auto
  then show thesis using that a by (simp add: as_prepare_load_split [OF z])
qed

lemma kheap_init_struct:
  assumes rel: "kp_rel v K" and al: "alloc_kpages 1 v = Some (P, v')" and "P \<noteq> 0"
  obtains k' where "kmalloc 28 (kheap_init v m) = Some (P + 4064, k')" and "kvm k' = v'" and "P + 4064 \<noteq> 0"
proof -
  have inv: "heap_inv (kheap_init v m) Map.empty K" by (rule heap_inv_init [OF rel])
  obtain q k' where k': "kmalloc 28 (kheap_init v m) = Some (q, k')"
    using kh.kmalloc_total [OF inv, of 28] by auto
  have ref: "allocpageref ((kheap_init v m)\<lparr>kvm := v'\<rparr>) =
      Some (Some 0, (kheap_init v m)\<lparr>kvm := v', pagerefs_inuse := (replicate 8 0)[0 := 1]\<rparr>)"
    by (simp add: allocpageref_def allocpageref_loop.simps allocpageref_word.simps kheap_init_def)
  have ty: "blocktype 28 = Some 1" by (simp add: blocktype_def blocktype_loop.simps sizes_def)
  have sh: "4096 dvd unat P" "unat P + 4096 \<le> 2 ^ 31 + 2 ^ 29"
    using alloc_kpages_fresh [OF rel al \<open>P \<noteq> 0\<close>] kp_rel_shape [of v' "K(P \<mapsto> 1)" P 1] by auto
  have "q = P + 4064 \<and> kvm k' = v'"
    using k' al \<open>P \<noteq> 0\<close> ref PR_PAGEADDR_MKPAB [OF sh(1), of 1] ty
    by (auto simp: kmalloc_def subpage_kmalloc_def subpage_find.simps subpage_newpage_def kheap_init_def Let_def
        sizes_def subpage_doalloc_def PR_PAGEADDR_def kassert_def bind_Some_iff split: if_splits)
  moreover have "unat (P + 4064) = unat P + 4064"
    using sh(2) unat_add_lem [of P 4064] by simp
  then have "P + 4064 \<noteq> 0" by auto
  ultimately show thesis using that k' by blast
qed


subsection \<open>A machine with 320 KiB\<close>

definition vm_large :: vm_state where
  "vm_large = vm_bootstrap \<lparr>firstpaddr = 0x30000, lastpaddr = 0x80000, vm_bootstrap_flag = False,
     num_of_coremap_pages = 0, num_of_pages = 0, firstaddr = 0, lastaddr = 0, coremap = []\<rparr>"

lemma vm_large_eq:
  "firstaddr vm_large = 0x30000" "num_of_pages vm_large = 80" "num_of_coremap_pages vm_large = 1"
  "vm_bootstrap_flag vm_large" "length (coremap vm_large) = 80"
  "j < 80 \<Longrightarrow> ce_used (coremap vm_large ! j) = (if j = 0 then 1 else 0)"
  by (simp_all add: vm_large_def vm_bootstrap_def ram_getsize_def ROUNDUP_def DIVROUNDUP_def)

lemma vm_large_rel: "kp_rel vm_large Map.empty"
proof -
  have "vm_wf vm_large" by (simp add: vm_wf_def vm_large_eq)
  then show ?thesis by (auto simp: kp_rel_def cm_rel_def cm_inv_def frame_runs_def vm_large_eq)
qed

lemma vm_large_avail: "avail vm_large = 79"
proof -
  have "free_frame_set vm_large = {1..<80}" by (auto simp: free_frame_set_def vm_large_eq split: if_splits)
  then show ?thesis by (simp add: avail_def)
qed

text \<open>A machine with one frame that the coremap can give out.\<close>

definition vm_tiny :: vm_state where
  "vm_tiny = vm_bootstrap \<lparr>firstpaddr = 0x30000, lastpaddr = 0x32000, vm_bootstrap_flag = False,
     num_of_coremap_pages = 0, num_of_pages = 0, firstaddr = 0, lastaddr = 0, coremap = []\<rparr>"

lemma vm_tiny_eq:
  "firstaddr vm_tiny = 0x30000" "num_of_pages vm_tiny = 2" "num_of_coremap_pages vm_tiny = 1"
  "vm_bootstrap_flag vm_tiny" "length (coremap vm_tiny) = 2"
  "j < 2 \<Longrightarrow> ce_used (coremap vm_tiny ! j) = (if j = 0 then 1 else 0)"
  by (simp_all add: vm_tiny_def vm_bootstrap_def ram_getsize_def ROUNDUP_def DIVROUNDUP_def)

lemma vm_tiny_rel: "kp_rel vm_tiny Map.empty" "avail vm_tiny = 1"
proof -
  have "vm_wf vm_tiny" by (simp add: vm_wf_def vm_tiny_eq)
  then show "kp_rel vm_tiny Map.empty" by (auto simp: kp_rel_def cm_rel_def cm_inv_def frame_runs_def vm_tiny_eq)
  have "free_frame_set vm_tiny = {1}" by (auto simp: free_frame_set_def vm_tiny_eq split: if_splits)
  then show "avail vm_tiny = 1" by (simp add: avail_def)
qed

lemma alloc_kpages_exhausted:
  assumes rel: "kp_rel v K" and av: "avail v = 0"
  shows "alloc_kpages n v = Some (0, v)"
proof -
  have "coremap_alloc n v = Some (0, v)"
    using rel [unfolded kp_rel_def]
  proof (cases rule: coremap_alloc_run [of v _ n])
    case (2 s cm)
    have "length (coremap v) = num_of_pages v" using rel by (simp add: kp_rel_def cm_rel_def vm_wf_def)
    then have "s \<in> free_frame_set v" using 2(5-7) by (auto simp: free_frame_set_def free_run_def)
    moreover have "finite (free_frame_set v)" by (simp add: free_frame_set_def)
    ultimately show ?thesis using av by (simp add: avail_def)
  qed
  then show ?thesis using cm_rel_flag [OF rel [unfolded kp_rel_def]] by (simp add: alloc_kpages_def getppages_def)
qed

definition as_two_pages :: "vaddr \<Rightarrow> addrspace" where
  "as_two_pages p = fst (as_define_region (fst (as_define_region (as_empty p) 0x400000 0x1000)) 0x10000000 0x800)"

lemma as_two_pages_eq:
  "as_two_pages p = \<lparr>as_self = p, as_vbase1 = 0x400000, page_pbase1 = 0, as_npages1 = 1, as_vbase2 = 0x10000000,
     page_pbase2 = 0, as_npages2 = 1, page_stackpbase = 0\<rparr>"
  by (simp add: as_two_pages_def as_define_region_def as_empty_def Let_def)

lemma as_two_pages_fields [simp]:
  "as_self (as_two_pages p) = p" "as_npages1 (as_two_pages p) = 1" "as_npages2 (as_two_pages p) = 1"
  "page_pbase1 (as_two_pages p) = 0" "page_pbase2 (as_two_pages p) = 0" "page_stackpbase (as_two_pages p) = 0"
  by (simp_all add: as_two_pages_eq)

lemma as_sample_struct:
  obtains p k1 where "as_create (kheap_init vm_large (\<lambda>_. 0)) = Some (Some (as_empty p), k1)"
    and "heap_inv k1 [p \<mapsto> 28] Map.empty" and "avail (kvm k1) = 78"
proof -
  have "0 < avail vm_large" by (simp add: vm_large_avail)
  then obtain P v where P: "alloc_kpages 1 vm_large = Some (P, v)" "P \<noteq> 0" "avail v = avail vm_large - 1"
    by (rule alloc_kpages_avail [OF vm_large_rel])
  obtain k1 where k1: "kmalloc 28 (kheap_init vm_large (\<lambda>_. 0)) = Some (P + 4064, k1)" "kvm k1 = v" "P + 4064 \<noteq> 0"
    by (rule kheap_init_struct [OF vm_large_rel P(1,2)])
  have "heap_inv k1 [P + 4064 \<mapsto> 28] Map.empty"
    using kh.kmalloc_fresh [OF heap_inv_init [OF vm_large_rel] _ k1(1) k1(3)] by simp
  then show thesis using that [of "P + 4064" k1] k1 P(3) by (simp add: as_create_def as_empty_def vm_large_avail)
qed

lemma as_sample:
  obtains p k1 as k F1 F2 F3 where "as_create (kheap_init vm_large (\<lambda>_. 0)) = Some (Some (as_empty p), k1)"
    and "as_prepare_load (as_two_pages p) k1 = Some (as, Inr (), k)"
    and "heap_inv k [p \<mapsto> 28] (grant Map.empty (as_runs as F1 F2 F3))"
    and "as_rep k [p \<mapsto> 28] (grant Map.empty (as_runs as F1 F2 F3)) as F1 F2 F3"
    and "as_tabled (as_two_pages p) as"
proof -
  obtain p k1 where c: "as_create (kheap_init vm_large (\<lambda>_. 0)) = Some (Some (as_empty p), k1)"
    "heap_inv k1 [p \<mapsto> 28] Map.empty" "avail (kvm k1) = 78"
    by (rule as_sample_struct)
  obtain as k where l: "as_prepare_load (as_two_pages p) k1 = Some (as, Inr (), k)"
    by (rule as_prepare_load_avail [OF c(2), of "as_two_pages p"]) (simp_all add: as_two_pages_eq c(3))
  have sz: "as_sized (as_two_pages p)" by (simp add: as_sized_def as_two_pages_eq)
  have z: "page_pbase1 (as_two_pages p) = 0" "page_pbase2 (as_two_pages p) = 0" "page_stackpbase (as_two_pages p) = 0"
    by (simp_all add: as_two_pages_eq)
  from c(2) sz z show thesis
  proof (cases rule: as_prepare_load_cases)
    case (1 as' k' R)
    then show ?thesis using l by simp
  next
    case (2 as' k' F1 F2 F3)
    have "as_self as' = p" "as_sized as'" using as_tabled_fields [OF 2(2)] by (simp_all add: as_two_pages_eq as_sized_def)
    then show ?thesis using that [OF c(1)] l 2 fresh_owned [OF 2(4)] by (simp add: as_rep_def)
  qed
qed

subsection \<open>Properties\<close>

text \<open>
  C13.  Loading succeeds when memory is sufficient.  With at least as many free frames as the two
  regions and the stack need, plus one for each page table, \<open>as_prepare_load\<close> returns success; the
  three tables then hold pairwise distinct frames that nobody owned before, every frame is
  cleared, exactly that many frames are consumed, and no other live memory is changed.
\<close>

theorem as_prepare_load_succeeds:
  assumes inv: "heap_inv k L X" and n: "0 < as_npages1 as" "as_npages1 as \<le> 1024" "0 < as_npages2 as" "as_npages2 as \<le> 1024"
    and z: "page_pbase1 as = 0" "page_pbase2 as = 0" "page_stackpbase as = 0"
    and av: "as_npages1 as + as_npages2 as + 15 \<le> avail (kvm k)"
  shows "\<exists>as' k' F1 F2 F3. as_prepare_load as k = Some (as', Inr (), k') \<and> as_tabled as as' \<and>
    as_maps k' as' F1 F2 F3 \<and> fresh_runs X (as_runs as' F1 F2 F3) \<and>
    heap_inv k' L (grant X (as_runs as' F1 F2 F3)) \<and> as_clear k' (F1 @ F2 @ F3) \<and>
    avail (kvm k') = avail (kvm k) - (as_npages1 as + as_npages2 as + 15) \<and>
    (\<forall>w. protected L X w \<longrightarrow> kword k' w = kword k w)"
proof -
  obtain as' k' where l: "as_prepare_load as k = Some (as', Inr (), k')"
    "avail (kvm k') = avail (kvm k) - (as_npages1 as + as_npages2 as + 15)"
    by (rule as_prepare_load_avail [OF inv n z av])
  have sz: "as_sized as" using n by (simp add: as_sized_def)
  from inv sz z show ?thesis
    by (cases rule: as_prepare_load_cases) (use l in auto)
qed

theorem as_prepare_load_succeeds_witness:
  "\<exists>p k1 as' k' F1 F2 F3. as_create (kheap_init vm_large (\<lambda>_. 0)) = Some (Some (as_empty p), k1) \<and>
     as_prepare_load (as_two_pages p) k1 = Some (as', Inr (), k') \<and> as_maps k' as' F1 F2 F3 \<and>
     avail (kvm k') = 61"
proof -
  obtain p k1 where c: "as_create (kheap_init vm_large (\<lambda>_. 0)) = Some (Some (as_empty p), k1)"
    "heap_inv k1 [p \<mapsto> 28] Map.empty" "avail (kvm k1) = 78"
    by (rule as_sample_struct)
  obtain as' k' F1 F2 F3 where "as_prepare_load (as_two_pages p) k1 = Some (as', Inr (), k')" "as_maps k' as' F1 F2 F3"
      "avail (kvm k') = 61"
    using as_prepare_load_succeeds [OF c(2), of "as_two_pages p"] c(3) by auto
  then show ?thesis using c(1) by blast
qed



text \<open>
  C12.  Copying an address space.  Unless the structure or the frames of the copy cannot be
  allocated, \<open>as_copy\<close> returns a complete new address space with the same regions, whose frames
  are all fresh and hold the same contents, page by page, as the frames of the original; the
  original and all other live memory are unchanged.
\<close>

theorem as_copy_correct:
  assumes inv: "heap_inv k L X" and rep: "as_rep k L X old F1 F2 F3"
  shows "(\<exists>k'. as_create k = Some (None, k') \<and> as_copy old k = Some (Inl ENOMEM, k') \<and> heap_inv k' L X) \<or>
    (\<exists>new0 k1 new k2. as_create k = Some (Some new0, k1) \<and>
       as_prepare_load (as_inherit old new0) k1 = Some (new, Inl ENOMEM, k2)) \<or>
    (\<exists>new k' G1 G2 G3. as_copy old k = Some (Inr new, k') \<and>
       L (as_self new) = None \<and> fresh_runs X (as_runs new G1 G2 G3) \<and>
       heap_inv k' (L(as_self new \<mapsto> 28)) (grant X (as_runs new G1 G2 G3)) \<and>
       as_rep k' (L(as_self new \<mapsto> 28)) (grant X (as_runs new G1 G2 G3)) new G1 G2 G3 \<and>
       as_copied old k F1 F2 F3 new k' G1 G2 G3 \<and> (\<forall>w. protected L X w \<longrightarrow> kword k' w = kword k w))"
  using inv
proof (cases rule: as_create_cases)
  case (1 k')
  then show ?thesis by (simp add: as_copy_eq)
next
  case c: (2 p k1)
  let ?new = "as_inherit old (as_empty p)"
  have "as_sized ?new" using rep by (simp add: as_rep_def as_sized_def as_inherit_def)
  from c(3) this show ?thesis
  proof (rule as_prepare_load_cases)
    fix new k2 G1 G2 G3
    assume l: "as_prepare_load ?new k1 = Some (new, Inr (), k2)" "as_tabled ?new new" "as_maps k2 new G1 G2 G3"
      "fresh_runs X (as_runs new G1 G2 G3)" "heap_inv k2 (L(p \<mapsto> 28)) (grant X (as_runs new G1 G2 G3))"
      "\<forall>w. protected (L(p \<mapsto> 28)) X w \<longrightarrow> kword k2 w = kword k1 w"
    show ?thesis by (rule as_copy_new [OF inv rep c l]) (use c(2) l(4) in blast)
  qed (use c in \<open>auto simp: as_inherit_def as_empty_def\<close>)
qed

theorem as_copy_correct_witness:
  "\<exists>p k1 as k. as_create (kheap_init vm_large (\<lambda>_. 0)) = Some (Some (as_empty p), k1) \<and>
     as_prepare_load (as_two_pages p) k1 = Some (as, Inr (), k) \<and>
     ((\<exists>k'. as_create k = Some (None, k')) \<or>
      (\<exists>new0 k1 new k2. as_create k = Some (Some new0, k1) \<and>
         as_prepare_load (as_inherit as new0) k1 = Some (new, Inl ENOMEM, k2)) \<or>
      (\<exists>new k'. as_copy as k = Some (Inr new, k')))"
proof (rule as_sample)
  fix p k1 as k F1 F2 F3
  assume s: "as_create (kheap_init vm_large (\<lambda>_. 0)) = Some (Some (as_empty p), k1)"
    "as_prepare_load (as_two_pages p) k1 = Some (as, Inr (), k)"
    "heap_inv k [p \<mapsto> 28] (grant Map.empty (as_runs as F1 F2 F3))"
    "as_rep k [p \<mapsto> 28] (grant Map.empty (as_runs as F1 F2 F3)) as F1 F2 F3"
  show ?thesis using as_copy_correct [OF s(3,4)] s(1,2) by blast
qed

text \<open>
  C17.  A copy that runs out of memory crashes the kernel.  When the structure of the new address
  space can be allocated but not its first page table, \<open>as_copy\<close> hands the half-built address
  space to \<open>as_destroy\<close>, which reads the entries of a page table at address zero.
\<close>

theorem as_copy_out_of_memory_panics:
  assumes n: "0 < as_npages1 old" and c: "as_create k = Some (Some new, k1)"
    and t: "pagetable_alloc (as_npages1 old) k1 = Some (0, k2)"
  shows "as_copy old k = None"
proof -
  have new: "page_pbase1 new = 0" "page_pbase2 new = 0" "page_stackpbase new = 0"
    using c by (auto simp: as_create_def bind_Some_iff split: if_splits)
  have "as_prepare_load (as_inherit old new) k1 = Some (as_inherit old new, Inl ENOMEM, k2)"
    using t new by (simp add: as_prepare_load_def as_inherit_def kassert_def Let_def)
  moreover have "as_destroy (as_inherit old new) k2 = None"
    using n new by (simp add: as_destroy_def as_inherit_def free_frames.simps kread_def kseg0_def)
  ultimately show ?thesis using c by (simp add: as_copy_eq)
qed

theorem as_copy_out_of_memory_panics_witness:
  "as_copy \<lparr>as_self = 0x80050000, as_vbase1 = 0x400000, page_pbase1 = 0x80051000, as_npages1 = 1, as_vbase2 = 0x10000000,
     page_pbase2 = 0x80052000, as_npages2 = 1, page_stackpbase = 0x80053000\<rparr> (kheap_init vm_tiny (\<lambda>_. 0)) = None"
proof -
  have "0 < avail vm_tiny" by (simp add: vm_tiny_rel)
  then obtain P v where P: "alloc_kpages 1 vm_tiny = Some (P, v)" "P \<noteq> 0" "avail v = avail vm_tiny - 1"
    by (rule alloc_kpages_avail [OF vm_tiny_rel(1)])
  obtain k1 where k1: "kmalloc 28 (kheap_init vm_tiny (\<lambda>_. 0)) = Some (P + 4064, k1)" "kvm k1 = v" "P + 4064 \<noteq> 0"
    by (rule kheap_init_struct [OF vm_tiny_rel(1) P(1,2)])
  have "kp_rel v [P \<mapsto> 1]" using alloc_kpages_fresh [OF vm_tiny_rel(1) P(1,2)] by simp
  then have none: "alloc_kpages n v = Some (0, v)" for n
    using alloc_kpages_exhausted P(3) vm_tiny_rel(2) by simp
  show ?thesis
    by (rule as_copy_out_of_memory_panics [of _ _ "as_empty (P + 4064)" k1 k1])
      (use k1 none in \<open>simp_all add: as_create_def as_empty_def pagetable_alloc_def k_alloc_kpages_def Let_def\<close>)
qed

lemma unat_page_frame: "unat (x AND PAGE_FRAME) = unat x div 4096 * 4096"
proof -
  have "x AND PAGE_FRAME = push_bit 12 (drop_bit 12 x)"
    unfolding page_frame_mask by (rule bit_word_eqI) (auto simp: bit_simps)
  moreover have "unat (drop_bit 12 x) = unat x div 4096" by (simp add: drop_bit_eq_div unat_div)
  moreover have "unat x div 4096 < 2 ^ 20" using unsigned_less [of x, where 'a = nat] by (simp add: less_mult_imp_div_less)
  ultimately show ?thesis using unat_mult_lem [of "drop_bit 12 x" 4096] by (simp add: push_bit_eq_mult)
qed

lemma unat_offset_in_page: "unat (x AND NOT PAGE_FRAME) = unat x mod 4096"
  unfolding page_frame_mask by (simp add: unat_mod_distrib take_bit_eq_mod flip: take_bit_eq_mask)

definition covers :: "vaddr \<Rightarrow> nat \<Rightarrow> vaddr \<Rightarrow> u32 \<Rightarrow> bool" where
  "covers base n va sz \<longleftrightarrow> 4096 dvd unat base \<and> unat base \<le> unat va \<and> unat va < unat base + 4096 \<and>
     unat va + unat sz \<le> unat base + 4096 * n \<and> unat base + 4096 * n < unat va + unat sz + 4096"

lemma region_covers:
  assumes "unat va mod 4096 + unat sz + 4096 \<le> 2 ^ 32"
  shows "covers (va AND PAGE_FRAME) (unat ((sz + (va AND NOT PAGE_FRAME) + 4096 - 1) AND PAGE_FRAME) div 4096) va sz"
proof -
  let ?o = "unat va mod 4096"
  have e: "sz + (va AND NOT PAGE_FRAME) + 4096 - 1 = of_nat (unat sz + ?o + 4095)"
    by (simp flip: unat_offset_in_page)
  have s: "unat (sz + (va AND NOT PAGE_FRAME) + 4096 - 1) = unat sz + ?o + 4095"
    unfolding e using assms by (intro unat_of_nat_u32) simp
  define a q where "a = unat va div 4096" and "q = (unat sz + ?o + 4095) div 4096"
  have "unat va = a * 4096 + ?o" by (simp add: a_def)
  moreover have "?o < 4096" by simp
  moreover have "4096 * q \<le> unat sz + ?o + 4095" "unat sz + ?o + 4095 < 4096 * q + 4096"
    unfolding q_def by linarith+
  ultimately have "covers (va AND PAGE_FRAME) q va sz"
    unfolding covers_def unat_page_frame a_def [symmetric] by (intro conjI) (simp, linarith+)
  then show ?thesis unfolding unat_page_frame s by (simp add: q_def)
qed

text \<open>
  C18.  Regions cover what they are asked to.  The first two calls of \<open>as_define_region\<close> record a
  page-aligned run that contains every address of the requested range, and no page more than
  needed; a third region is refused with \<open>EUNIMP\<close> and changes nothing.
\<close>

theorem as_define_region_covers:
  assumes "unat va mod 4096 + unat sz + 4096 \<le> 2 ^ 32"
  shows "\<exists>base n. covers base n va sz \<and> n < 2 ^ 20 \<and>
    as_define_region as va sz =
      (if as_vbase1 as = 0 then (as\<lparr>as_vbase1 := base, as_npages1 := n\<rparr>, Inr ())
       else if as_vbase2 as = 0 then (as\<lparr>as_vbase2 := base, as_npages2 := n\<rparr>, Inr ())
       else (as, Inl EUNIMP))"
proof -
  have "unat x div 4096 < 2 ^ 20" for x :: u32 using unsigned_less [of x, where 'a = nat] by (simp add: less_mult_imp_div_less)
  then show ?thesis
    using region_covers [OF assms] by (auto simp: as_define_region_def Let_def)
qed

theorem as_define_region_covers_witness:
  "\<exists>base n. covers base n 0x400ffc 0x2008 \<and>
     as_define_region (as_empty 0x80050000) 0x400ffc 0x2008 =
       ((as_empty 0x80050000)\<lparr>as_vbase1 := base, as_npages1 := n\<rparr>, Inr ())"
proof -
  have "as_vbase1 (as_empty 0x80050000) = 0" by (simp add: as_empty_def)
  with as_define_region_covers [of "0x400ffc" "0x2008" "as_empty 0x80050000"] show ?thesis by auto
qed

end
