(* ===== verification/Vm_Fault.thy ===== *)
theory Vm_Fault
  imports Addrspace_Correct
begin

text \<open>
  The translation look-aside buffer and the page fault handler of
  src/kern/arch/mips/vm/dumbvm.c (\<open>vm_fault\<close>, \<open>as_activate\<close>, \<open>as_complete_load\<close>), with the constants
  of src/kern/arch/mips/include/tlb.h.  The buffer is a list of 64 pairs (ehi, elo).  What the
  handler reads of the current process is its address space and its \<open>loaded\<close> flag.  The slot that
  the processor picks for \<open>tlb_random\<close> is an argument.
\<close>

subsection \<open>Model\<close>

type_synonym tlb = "(u32 \<times> u32) list"

definition NUM_TLB :: nat where
  "NUM_TLB = 64"

definition TLBLO_DIRTY :: u32 where
  "TLBLO_DIRTY = 0x400"

definition TLBLO_VALID :: u32 where
  "TLBLO_VALID = 0x200"

definition TLBHI_INVALID :: "nat \<Rightarrow> u32" where
  "TLBHI_INVALID i = push_bit 12 (0x80000 + of_nat i)"

definition TLBLO_INVALID :: u32 where
  "TLBLO_INVALID = 0"

datatype fault_type = VM_FAULT_READ | VM_FAULT_WRITE | VM_FAULT_READONLY | VM_FAULT_OTHER

datatype segment = TEXT_SEGMENT | DATA_SEGMENT | STACK_SEGMENT

definition EX_MOD :: nat where
  "EX_MOD = 1"

text \<open>\<open>vm_fault\<close> returns an error number (none for 0) or ends the process with \<open>sys__exit\<close>.\<close>

datatype vm_result = Vm_return "errno option" | Vm_exit nat

record vm_cur =
  p_addrspace :: "addrspace option"
  loaded :: bool

function tlb_flush :: "nat \<Rightarrow> tlb \<Rightarrow> tlb kres" where
  "tlb_flush i tlb =
     (if i < NUM_TLB then do {
        tlb' \<leftarrow> aput tlb i (TLBHI_INVALID i, TLBLO_INVALID);
        tlb_flush (Suc i) tlb'
      } else Some tlb)"
  by auto
termination
  by (relation "measure (\<lambda>(i, tlb). NUM_TLB - i)") auto

definition as_activate :: "vm_cur \<Rightarrow> tlb \<Rightarrow> tlb kres" where
  "as_activate cur tlb =
     (case p_addrspace cur of
        None \<Rightarrow> Some tlb
      | Some as \<Rightarrow> tlb_flush 0 tlb)"

definition as_complete_load :: "vm_cur \<Rightarrow> tlb \<Rightarrow> (vm_cur \<times> tlb) kres" where
  "as_complete_load cur tlb = do {
     let cur' = cur\<lparr>loaded := True\<rparr>;
     tlb' \<leftarrow> as_activate cur' tlb;
     Some (cur', tlb')
   }"

text \<open>The segment search of \<open>vm_fault\<close>: \<open>None\<close> inside when the address is in no segment.\<close>

definition vm_segment :: "kstate \<Rightarrow> addrspace \<Rightarrow> vaddr \<Rightarrow> (paddr \<times> segment) option kres" where
  "vm_segment k as faultaddress =
     (let vbase1 = as_vbase1 as;
          vtop1 = vbase1 + of_nat (as_npages1 as) * 4096;
          vbase2 = as_vbase2 as;
          vtop2 = vbase2 + of_nat (as_npages2 as) * 4096;
          stackbase = USERSTACK - of_nat DUMBVM_STACKPAGES * 4096;
          stacktop = USERSTACK
      in if faultaddress \<ge> vbase1 \<and> faultaddress < vtop1 then do {
           pa \<leftarrow> kread k (page_pbase1 as + 4 * ((faultaddress - vbase1) div 4096));
           Some (Some (pa, TEXT_SEGMENT))
         } else if faultaddress \<ge> vbase2 \<and> faultaddress < vtop2 then do {
           pa \<leftarrow> kread k (page_pbase2 as + 4 * ((faultaddress - vbase2) div 4096));
           Some (Some (pa, DATA_SEGMENT))
         } else if faultaddress \<ge> stackbase \<and> faultaddress < stacktop then do {
           pa \<leftarrow> kread k (page_stackpbase as + 4 * ((faultaddress - stackbase) div 4096));
           Some (Some (pa, STACK_SEGMENT))
         } else Some None)"

definition tlb_elo :: "paddr \<Rightarrow> segment \<Rightarrow> bool \<Rightarrow> u32" where
  "tlb_elo pa seg ld =
     (let elo = pa OR TLBLO_DIRTY OR TLBLO_VALID
      in if seg = TEXT_SEGMENT \<and> ld then elo AND NOT TLBLO_DIRTY else elo)"

text \<open>The loop over the slots: the first one that is not valid, or the one the processor picks.\<close>

function tlb_fill :: "u32 \<Rightarrow> u32 \<Rightarrow> nat \<Rightarrow> nat \<Rightarrow> tlb \<Rightarrow> tlb kres" where
  "tlb_fill ehi elo rnd i tlb =
     (if i < NUM_TLB then do {
        e \<leftarrow> aget tlb i;
        if snd e AND TLBLO_VALID \<noteq> 0 then tlb_fill ehi elo rnd (Suc i) tlb
        else aput tlb i (ehi, elo)
      } else aput tlb rnd (ehi, elo))"
  by auto
termination
  by (relation "measure (\<lambda>(ehi, elo, rnd, i, tlb). NUM_TLB - i)") auto

definition vm_fault :: "fault_type \<Rightarrow> vaddr \<Rightarrow> vm_cur option \<Rightarrow> nat \<Rightarrow> kstate \<Rightarrow> tlb \<Rightarrow> (vm_result \<times> tlb) kres" where
  "vm_fault faulttype faultaddress0 curproc rnd k tlb =
     (let faultaddress = faultaddress0 AND PAGE_FRAME
      in case faulttype of
        VM_FAULT_READONLY \<Rightarrow> Some (Vm_exit EX_MOD, tlb)
      | VM_FAULT_OTHER \<Rightarrow> Some (Vm_return (Some EINVAL), tlb)
      | _ \<Rightarrow>
        (case curproc of
           None \<Rightarrow> Some (Vm_return (Some EFAULT), tlb)
         | Some cur \<Rightarrow>
           (case p_addrspace cur of
              None \<Rightarrow> Some (Vm_return (Some EFAULT), tlb)
            | Some as \<Rightarrow> do {
                kassert (as_vbase1 as \<noteq> 0);
                kassert (page_pbase1 as \<noteq> 0);
                kassert (as_npages1 as \<noteq> 0);
                kassert (page_pbase2 as \<noteq> 0);
                kassert (as_vbase2 as \<noteq> 0);
                kassert (as_npages2 as \<noteq> 0);
                kassert (page_stackpbase as \<noteq> 0);
                kassert (as_vbase1 as AND PAGE_FRAME = as_vbase1 as);
                kassert (as_vbase2 as AND PAGE_FRAME = as_vbase2 as);
                found \<leftarrow> vm_segment k as faultaddress;
                case found of
                  None \<Rightarrow> Some (Vm_return (Some EFAULT), tlb)
                | Some (pa, seg) \<Rightarrow> do {
                    kassert (pa AND PAGE_FRAME = pa);
                    tlb' \<leftarrow> tlb_fill faultaddress (tlb_elo pa seg (loaded cur)) rnd 0 tlb;
                    Some (Vm_return None, tlb')
                  }
              })))"

declare tlb_flush.simps [simp del] tlb_fill.simps [simp del]

subsection \<open>Translation\<close>

text \<open>
  The translation an address space describes, on natural numbers: the frame and the segment of an
  address, by region.
\<close>

definition as_layout :: "addrspace \<Rightarrow> bool" where
  "as_layout as \<longleftrightarrow> as_vbase1 as \<noteq> 0 \<and> as_vbase2 as \<noteq> 0 \<and> as_npages1 as \<noteq> 0 \<and> as_npages2 as \<noteq> 0 \<and>
     4096 dvd unat (as_vbase1 as) \<and> 4096 dvd unat (as_vbase2 as) \<and>
     unat (as_vbase1 as) + 4096 * as_npages1 as < 2 ^ 32 \<and> unat (as_vbase2 as) + 4096 * as_npages2 as < 2 ^ 32"

definition in_region :: "nat \<Rightarrow> nat \<Rightarrow> nat \<Rightarrow> bool" where
  "in_region base n a \<longleftrightarrow> base \<le> a \<and> a < base + 4096 * n"

definition as_page :: "addrspace \<Rightarrow> paddr list \<Rightarrow> paddr list \<Rightarrow> paddr list \<Rightarrow> vaddr \<Rightarrow> (paddr \<times> segment) option" where
  "as_page as F1 F2 F3 va =
     (let a = unat va; b1 = unat (as_vbase1 as); b2 = unat (as_vbase2 as); b3 = 0x7fff4000
      in if in_region b1 (length F1) a then Some (F1 ! ((a - b1) div 4096), TEXT_SEGMENT)
         else if in_region b2 (length F2) a then Some (F2 ! ((a - b2) div 4096), DATA_SEGMENT)
         else if in_region b3 (length F3) a then Some (F3 ! ((a - b3) div 4096), STACK_SEGMENT)
         else None)"

lemma in_region_word:
  fixes base va :: vaddr
  assumes "unat base + 4096 * n < 2 ^ 32"
  shows "va \<ge> base \<and> va < base + of_nat n * 4096 \<longleftrightarrow> in_region (unat base) n (unat va)"
proof -
  have "unat (base + of_nat n * 4096) = unat base + 4096 * n"
  proof -
    have "base + of_nat n * 4096 = of_nat (unat base + 4096 * n)" by (simp add: mult.commute)
    then show ?thesis using unat_of_nat_u32 [OF assms] by (simp only:)
  qed
  then show ?thesis by (simp add: in_region_def word_le_nat_alt word_less_nat_alt)
qed

lemma region_index:
  fixes base va :: vaddr
  assumes "in_region (unat base) n (unat va)"
  shows "4 * ((va - base) div 4096) = of_nat (4 * ((unat va - unat base) div 4096))"
    and "(unat va - unat base) div 4096 < n"
proof -
  have le: "base \<le> va" using assms by (simp add: in_region_def word_le_nat_alt)
  have "unat ((va - base) div 4096) = (unat va - unat base) div 4096" using unat_sub [OF le] by (simp add: unat_div)
  then have "(va - base) div 4096 = of_nat ((unat va - unat base) div 4096)" 
    by (metis of_nat_unat ucast_id)
  then show "4 * ((va - base) div 4096) = of_nat (4 * ((unat va - unat base) div 4096))" by simp
  show "(unat va - unat base) div 4096 < n" 
    using assms by (intro less_mult_imp_div_less) (simp add: in_region_def less_diff_conv2 mult.commute add.commute)
qed

lemma table_read:
  assumes inv: "heap_inv k L X" and t: "X t = Some (table_pages (length F))" "table_at k t F" and i: "i < length F"
  shows "kread k (t + of_nat (4 * i)) = Some (F ! i)"
proof -
  have "4 * i + 4 \<le> 4096 * table_pages (length F)" using table_pages_room [of "length F"] i by simp
  from kseg0_run(1) [OF inv t(1) this] show ?thesis using t(2) i by (simp add: kread_def table_at_def)
qed

lemma region_read:
  assumes inv: "heap_inv k L X" and t: "X t = Some (table_pages (length F))" "table_at k t F"
    and va: "in_region (unat base) (length F) (unat va)"
  shows "kread k (t + 4 * ((va - base) div 4096)) = Some (F ! ((unat va - unat base) div 4096))"
  using table_read [OF inv t region_index(2) [OF va]] unfolding region_index(1) [OF va] .

lemma vm_segment_eq:
  assumes inv: "heap_inv k L X" and rep: "as_rep k L X as F1 F2 F3" and lay: "as_layout as"
  shows "vm_segment k as va = Some (as_page as F1 F2 F3 va)"
proof -
  note t = as_rep_keep(4-6) [OF inv rep, of k]
  have m: "table_at k (page_pbase1 as) F1" "table_at k (page_pbase2 as) F2" "table_at k (page_stackpbase as) F3"
    "length F1 = as_npages1 as" "length F2 = as_npages2 as" "length F3 = 12"
    using rep by (simp_all add: as_rep_def as_maps_def DUMBVM_STACKPAGES_def)
  have sb: "USERSTACK - of_nat DUMBVM_STACKPAGES * 4096 = (0x7fff4000 :: u32)"
    by (simp add: USERSTACK_def DUMBVM_STACKPAGES_def)
  have r1: "va \<ge> as_vbase1 as \<and> va < as_vbase1 as + of_nat (as_npages1 as) * 4096 \<longleftrightarrow>
      in_region (unat (as_vbase1 as)) (length F1) (unat va)"
    using in_region_word lay m(4) by (simp add: as_layout_def)
  have r2: "va \<ge> as_vbase2 as \<and> va < as_vbase2 as + of_nat (as_npages2 as) * 4096 \<longleftrightarrow>
      in_region (unat (as_vbase2 as)) (length F2) (unat va)"
    using in_region_word lay m(5) by (simp add: as_layout_def)
  have r3: "va \<ge> 0x7fff4000 \<and> va < USERSTACK \<longleftrightarrow> in_region 0x7fff4000 (length F3) (unat va)"
    by (simp add: in_region_def m(6) USERSTACK_def word_le_nat_alt word_less_nat_alt)
  have "kread k (page_stackpbase as + 4 * ((va - 0x7fff4000) div 4096)) = Some (F3 ! ((unat va - 0x7fff4000) div 4096))"
    if "in_region 0x7fff4000 (length F3) (unat va)"
    using region_read [OF inv t(3) m(3), of "0x7fff4000" va] that by simp
  then show ?thesis
    unfolding vm_segment_def as_page_def Let_def sb r1 r2 r3
    using region_read [OF inv t(1) m(1), of "as_vbase1 as" va] region_read [OF inv t(2) m(2), of "as_vbase2 as" va]
    by simp
qed

subsection \<open>Entries\<close>

definition tlb_valid :: "u32 \<times> u32 \<Rightarrow> bool" where
  "tlb_valid e \<longleftrightarrow> snd e AND TLBLO_VALID \<noteq> 0"

definition tlb_writable :: "u32 \<times> u32 \<Rightarrow> bool" where
  "tlb_writable e \<longleftrightarrow> snd e AND TLBLO_DIRTY \<noteq> 0"

lemma tlb_flag_bits:
  "snd e AND TLBLO_VALID \<noteq> 0 \<longleftrightarrow> bit (snd e) 9" "snd e AND TLBLO_DIRTY \<noteq> 0 \<longleftrightarrow> bit (snd e) 10"
  using and_exp_eq_0_iff_not_bit [of "snd e" 9] and_exp_eq_0_iff_not_bit [of "snd e" 10]
  by (simp_all add: TLBLO_VALID_def TLBLO_DIRTY_def)

lemma tlb_flag_exp: "TLBLO_VALID = 2 ^ 9" "TLBLO_DIRTY = 2 ^ 10"
  by (simp_all add: TLBLO_VALID_def TLBLO_DIRTY_def)

lemma tlb_flag_bit: "bit TLBLO_VALID n \<longleftrightarrow> n = 9" "bit TLBLO_DIRTY n \<longleftrightarrow> n = 10"
  unfolding tlb_flag_exp bit_exp_iff by auto

lemma page_aligned_bits:
  assumes "(pa :: u32) AND PAGE_FRAME = pa" and "n < 12"
  shows "\<not> bit pa n"
proof -
  have "bit pa n \<longleftrightarrow> bit pa n \<and> bit (PAGE_FRAME) n" using assms(1) by (metis bit_and_iff)
  then show ?thesis using assms(2) bit_page_frame [of n] by simp
qed

lemma tlb_elo_bits:
  "bit (tlb_elo pa seg ld) n \<longleftrightarrow> n < 32 \<and>
     (n = 9 \<or> n = 10 \<and> \<not> (seg = TEXT_SEGMENT \<and> ld) \<or> bit pa n \<and> (n = 10 \<longrightarrow> \<not> (seg = TEXT_SEGMENT \<and> ld)))"
  using bit_imp_le_length [of pa n]
  by (auto simp: tlb_elo_def Let_def bit_or_iff bit_and_iff bit_not_iff tlb_flag_bit)

lemma tlb_elo_flags:
  assumes "pa AND PAGE_FRAME = pa"
  shows "tlb_valid (hi, tlb_elo pa seg ld)"
    and "tlb_writable (hi, tlb_elo pa seg ld) \<longleftrightarrow> \<not> (seg = TEXT_SEGMENT \<and> ld)"
    and "tlb_elo pa seg ld AND PAGE_FRAME = pa"
proof -
  show "tlb_valid (hi, tlb_elo pa seg ld)"
    using tlb_flag_bits(1) [of "(hi, tlb_elo pa seg ld)"] by (simp add: tlb_valid_def tlb_elo_bits)
  show "tlb_writable (hi, tlb_elo pa seg ld) \<longleftrightarrow> \<not> (seg = TEXT_SEGMENT \<and> ld)"
    using tlb_flag_bits(2) [of "(hi, tlb_elo pa seg ld)"] page_aligned_bits [OF assms, of 10]
    by (auto simp: tlb_writable_def tlb_elo_bits)
  show "tlb_elo pa seg ld AND PAGE_FRAME = pa"
  proof (rule bit_word_eqI)
    fix n assume "n < LENGTH(32)"
    then show "bit (tlb_elo pa seg ld AND PAGE_FRAME) n = bit pa n"
      using page_aligned_bits [OF assms, of n] bit_page_frame [of n] by (auto simp: bit_and_iff tlb_elo_bits)
  qed
qed

lemma tlb_fill_slot:
  assumes "length tlb = NUM_TLB" and "rnd < NUM_TLB" and "i \<le> NUM_TLB"
    and "\<forall>j<i. tlb_valid (tlb ! j)"
  obtains s where "s < NUM_TLB" and "tlb_fill ehi elo rnd i tlb = Some (tlb[s := (ehi, elo)])"
    and "\<not> tlb_valid (tlb ! s) \<or> (\<forall>j<NUM_TLB. tlb_valid (tlb ! j))"
  using assms
proof (induction ehi elo rnd i tlb arbitrary: thesis rule: tlb_fill.induct)
  case (1 ehi elo rnd i tlb)
  show ?case
  proof (cases "i < NUM_TLB")
    case True
    show ?thesis
    proof (cases "tlb_valid (tlb ! i)")
      case v: True
      have ag: "aget tlb i = Some (tlb ! i)" using True 1(3) by simp
      obtain s where s: "s < NUM_TLB" "tlb_fill ehi elo rnd (Suc i) tlb = Some (tlb[s := (ehi, elo)])"
        "\<not> tlb_valid (tlb ! s) \<or> (\<forall>j<NUM_TLB. tlb_valid (tlb ! j))"
        using 1(1) [OF True ag] v 1(3-6) True by (auto simp: tlb_valid_def less_Suc_eq)
      moreover have "tlb_fill ehi elo rnd i tlb = tlb_fill ehi elo rnd (Suc i) tlb"
        using True v ag by (subst tlb_fill.simps) (simp add: tlb_valid_def)
      ultimately show ?thesis using 1(2) by metis
    next
      case False
      then have "tlb_fill ehi elo rnd i tlb = Some (tlb[i := (ehi, elo)])"
        using 1(3) True by (subst tlb_fill.simps) (simp add: tlb_valid_def)
      then show ?thesis using 1(2) True False by blast
    qed
  next
    case False
    then have "tlb_fill ehi elo rnd i tlb = Some (tlb[rnd := (ehi, elo)])"
      using 1(3,4) by (subst tlb_fill.simps) simp
    then show ?thesis using 1(2) [of rnd] 1(4-6) False by auto
  qed
qed

lemma tlb_flush_slots:
  assumes "length tlb = NUM_TLB" and "i \<le> NUM_TLB" and "\<forall>j<i. \<not> tlb_valid (tlb ! j)"
  obtains tlb' where "tlb_flush i tlb = Some tlb'" and "length tlb' = NUM_TLB" and "\<forall>j<NUM_TLB. \<not> tlb_valid (tlb' ! j)"
  using assms
proof (induction i tlb arbitrary: thesis rule: tlb_flush.induct)
  case (1 i tlb)
  show ?case
  proof (cases "i < NUM_TLB")
    case True
    let ?t = "tlb[i := (TLBHI_INVALID i, TLBLO_INVALID)]"
    have ap: "aput tlb i (TLBHI_INVALID i, TLBLO_INVALID) = Some ?t" using True 1(3) by simp
    have "\<forall>j<Suc i. \<not> tlb_valid (?t ! j)"
      using 1(3,5) True by (auto simp: nth_list_update less_Suc_eq tlb_valid_def TLBLO_INVALID_def)
    then obtain tlb' where "tlb_flush (Suc i) ?t = Some tlb'" "length tlb' = NUM_TLB" "\<forall>j<NUM_TLB. \<not> tlb_valid (tlb' ! j)"
      using 1(1) [OF True ap] 1(3) True by auto
    moreover have "tlb_flush i tlb = tlb_flush (Suc i) ?t" using True ap by (subst tlb_flush.simps) simp
    ultimately show ?thesis using 1(2) by metis
  next
    case False
    then have "tlb_flush i tlb = Some tlb" by (subst tlb_flush.simps) simp
    then show ?thesis using 1(2) 1(3-5) False by auto
  qed
qed

subsection \<open>The buffer over time\<close>

text \<open>
  The states a processor's buffer goes through: it changes when the processor turns to another
  process, when a program has been loaded, and at a fault.  The processor raises a read or write
  fault only for a page that no valid entry matches.
\<close>

record vm_sys =
  sys_cur :: vm_cur
  sys_tlb :: tlb

definition tlb_hit :: "tlb \<Rightarrow> vaddr \<Rightarrow> bool" where
  "tlb_hit tlb page \<longleftrightarrow> (\<exists>i<NUM_TLB. tlb_valid (tlb ! i) \<and> fst (tlb ! i) = page)"

inductive vm_step :: "kstate \<Rightarrow> vm_sys \<Rightarrow> vm_sys \<Rightarrow> bool" for k where
  switch: "as_activate cur tlb = Some tlb' \<Longrightarrow>
    vm_step k \<lparr>sys_cur = cur0, sys_tlb = tlb\<rparr> \<lparr>sys_cur = cur, sys_tlb = tlb'\<rparr>"
| load: "as_complete_load cur tlb = Some (cur', tlb') \<Longrightarrow>
    vm_step k \<lparr>sys_cur = cur, sys_tlb = tlb\<rparr> \<lparr>sys_cur = cur', sys_tlb = tlb'\<rparr>"
| fault: "\<not> tlb_hit tlb (va AND PAGE_FRAME) \<Longrightarrow> rnd < NUM_TLB \<Longrightarrow> vm_fault ft va (Some cur) rnd k tlb = Some (r, tlb') \<Longrightarrow>
    vm_step k \<lparr>sys_cur = cur, sys_tlb = tlb\<rparr> \<lparr>sys_cur = cur, sys_tlb = tlb'\<rparr>"

inductive vm_reach :: "kstate \<Rightarrow> vm_sys \<Rightarrow> bool" for k where
  start: "length tlb = NUM_TLB \<Longrightarrow> p_addrspace cur = None \<Longrightarrow> vm_reach k \<lparr>sys_cur = cur, sys_tlb = tlb\<rparr>"
| step: "vm_reach k s \<Longrightarrow> vm_step k s s' \<Longrightarrow> vm_reach k s'"

inductive_cases vm_stepE: "vm_step k s s'"

definition tlb_ok :: "kstate \<Rightarrow> addrspace \<Rightarrow> bool \<Rightarrow> tlb \<Rightarrow> bool" where
  "tlb_ok k as ld tlb \<longleftrightarrow>
     (\<forall>i<NUM_TLB. tlb_valid (tlb ! i) \<longrightarrow> (\<exists>pa seg. vm_segment k as (fst (tlb ! i)) = Some (Some (pa, seg)) \<and>
        pa AND PAGE_FRAME = pa \<and> snd (tlb ! i) = tlb_elo pa seg ld)) \<and>
     (\<forall>i<NUM_TLB. \<forall>j<NUM_TLB. tlb_valid (tlb ! i) \<and> tlb_valid (tlb ! j) \<and> fst (tlb ! i) = fst (tlb ! j) \<longrightarrow> i = j)"

definition sys_ok :: "kstate \<Rightarrow> vm_sys \<Rightarrow> bool" where
  "sys_ok k s \<longleftrightarrow> length (sys_tlb s) = NUM_TLB \<and>
     (\<forall>as. p_addrspace (sys_cur s) = Some as \<longrightarrow> tlb_ok k as (loaded (sys_cur s)) (sys_tlb s))"

lemma as_activate_ok:
  assumes "length tlb = NUM_TLB" and "as_activate cur tlb = Some tlb'"
  shows "length tlb' = NUM_TLB" and "p_addrspace cur = Some as \<Longrightarrow> tlb_ok k as ld tlb'"
proof -
  obtain t where "tlb_flush 0 tlb = Some t" "length t = NUM_TLB" "\<forall>j<NUM_TLB. \<not> tlb_valid (t ! j)"
    by (rule tlb_flush_slots [OF assms(1), of 0]) simp_all
  then show "length tlb' = NUM_TLB" "p_addrspace cur = Some as \<Longrightarrow> tlb_ok k as ld tlb'"
    using assms by (auto simp: as_activate_def tlb_ok_def split: option.splits)
qed

lemma vm_fault_effect:
  assumes "vm_fault ft va (Some cur) rnd k tlb = Some (r, tlb')"
  obtains "tlb' = tlb"
  | as pa seg where "p_addrspace cur = Some as" and "vm_segment k as (va AND PAGE_FRAME) = Some (Some (pa, seg))"
      and "pa AND PAGE_FRAME = pa"
      and "tlb_fill (va AND PAGE_FRAME) (tlb_elo pa seg (loaded cur)) rnd 0 tlb = Some tlb'"
  using assms
  by (auto simp: vm_fault_def Let_def bind_Some_iff split: fault_type.splits option.splits if_splits) blast+

lemma tlb_ok_insert:
  assumes ok: "tlb_ok k as ld tlb" and s: "s < NUM_TLB" "length tlb = NUM_TLB" and miss: "\<not> tlb_hit tlb page"
    and seg: "vm_segment k as page = Some (Some (pa, seg))" "pa AND PAGE_FRAME = pa"
  shows "tlb_ok k as ld (tlb[s := (page, tlb_elo pa seg ld)])"
  using ok s seg miss by (auto simp: tlb_ok_def tlb_hit_def nth_list_update)

lemma vm_fault_ok:
  assumes len: "length tlb = NUM_TLB" "rnd < NUM_TLB" and miss: "\<not> tlb_hit tlb (va AND PAGE_FRAME)"
    and f: "vm_fault ft va (Some cur) rnd k tlb = Some (r, tlb')"
  shows "length tlb' = NUM_TLB" and "p_addrspace cur = Some as \<Longrightarrow> tlb_ok k as (loaded cur) tlb \<Longrightarrow> tlb_ok k as (loaded cur) tlb'"
proof -
  have "length tlb' = NUM_TLB \<and> (p_addrspace cur = Some as \<longrightarrow> tlb_ok k as (loaded cur) tlb \<longrightarrow> tlb_ok k as (loaded cur) tlb')"
    using f
  proof (cases rule: vm_fault_effect)
    case 1
    then show ?thesis using len by simp
  next
    case (2 as' pa seg)
    obtain s where "s < NUM_TLB"
      "tlb_fill (va AND PAGE_FRAME) (tlb_elo pa seg (loaded cur)) rnd 0 tlb = Some (tlb[s := (va AND PAGE_FRAME, tlb_elo pa seg (loaded cur))])"
      by (rule tlb_fill_slot [OF len, of 0]) simp_all
    then show ?thesis using 2 tlb_ok_insert [OF _ _ len(1) miss] len(1) by auto
  qed
  then show "length tlb' = NUM_TLB" "p_addrspace cur = Some as \<Longrightarrow> tlb_ok k as (loaded cur) tlb \<Longrightarrow> tlb_ok k as (loaded cur) tlb'"
    by simp_all
qed

lemma vm_step_ok: "vm_step k s s' \<Longrightarrow> sys_ok k s \<Longrightarrow> sys_ok k s'"
proof (induction rule: vm_step.induct)
  case (switch cur tlb tlb' cur0)
  then show ?case using as_activate_ok [of tlb cur tlb'] by (simp add: sys_ok_def)
next
  case (load cur tlb cur' tlb')
  then show ?case using as_activate_ok [of tlb "cur\<lparr>loaded := True\<rparr>" tlb']
    by (auto simp: sys_ok_def as_complete_load_def Let_def bind_Some_iff)
next
  case (fault tlb va rnd ft cur r tlb')
  then show ?case using vm_fault_ok [OF _ fault(2,1,3)] by (simp add: sys_ok_def)
qed

lemma vm_reach_ok: "vm_reach k s \<Longrightarrow> sys_ok k s"
  by (induction rule: vm_reach.induct) (auto simp: sys_ok_def dest: vm_step_ok)

lemma frame_aligned:
  assumes inv: "heap_inv k L X" and f: "X (PADDR_TO_KVADDR f) = Some 1"
  shows "f AND PAGE_FRAME = f"
proof -
  have sh: "4096 dvd unat (PADDR_TO_KVADDR f)" "2 ^ 31 \<le> unat (PADDR_TO_KVADDR f)"
    using heap_inv_run_shape [OF inv f] by auto
  have "f = PADDR_TO_KVADDR f - 0x80000000" by (simp add: PADDR_TO_KVADDR_def MIPS_KSEG0_def)
  then have "unat f = unat (PADDR_TO_KVADDR f) - 2 ^ 31"
    using unat_sub [of "0x80000000" "PADDR_TO_KVADDR f"] sh(2) by (simp add: word_le_nat_alt)
  moreover have "4096 dvd (2 ^ 31 :: nat)" by simp
  ultimately have "4096 dvd unat f" using sh by (metis dvd_diff_nat)
  then have "unat (f AND PAGE_FRAME) = unat f" unfolding unat_page_frame by simp
  then show ?thesis by (simp only: word_unat_eq_iff)
qed

lemma as_page_frame:
  assumes rep: "as_rep k L X as F1 F2 F3" and page: "as_page as F1 F2 F3 va = Some (pa, seg)"
  shows "pa \<in> set (F1 @ F2 @ F3)"
proof -
  have mem: "F ! ((a - b) div 4096) \<in> set F" if "in_region b (length F) a" for F :: "paddr list" and a b
    using that by (intro nth_mem less_mult_imp_div_less) (simp add: in_region_def less_diff_conv2 mult.commute add.commute)
  show ?thesis
    using page mem [of _ F1] mem [of _ F2] mem [of _ F3] by (auto simp: as_page_def Let_def split: if_splits)
qed

lemma as_layout_frame: "as_layout as \<Longrightarrow> as_vbase1 as AND PAGE_FRAME = as_vbase1 as \<and> as_vbase2 as AND PAGE_FRAME = as_vbase2 as"
  unfolding word_unat_eq_iff unat_page_frame by (simp add: as_layout_def)

lemma vm_fault_result:
  fixes va :: vaddr and ld :: bool
  assumes inv: "heap_inv k L X" and rep: "as_rep k L X as F1 F2 F3" and lay: "as_layout as"
    and tlb: "length tlb = NUM_TLB" "rnd < NUM_TLB" and ft: "ft \<in> {VM_FAULT_READ, VM_FAULT_WRITE}"
  defines "page \<equiv> va AND PAGE_FRAME" and "cur \<equiv> \<lparr>p_addrspace = Some as, loaded = ld\<rparr>"
  shows "case as_page as F1 F2 F3 page of
      None \<Rightarrow> vm_fault ft va (Some cur) rnd k tlb = Some (Vm_return (Some EFAULT), tlb)
    | Some (pa, seg) \<Rightarrow> \<exists>s<NUM_TLB. vm_fault ft va (Some cur) rnd k tlb =
          Some (Vm_return None, tlb[s := (page, tlb_elo pa seg ld)]) \<and>
        (tlb_valid (tlb ! s) \<longrightarrow> (\<forall>j<NUM_TLB. tlb_valid (tlb ! j)))"
proof -
  have nz: "page_pbase1 as \<noteq> 0" "page_pbase2 as \<noteq> 0" "page_stackpbase as \<noteq> 0"
    using as_rep_keep(4-6) [OF inv rep, of k] heap_inv_run_shape [OF inv] by auto
  have pre: "vm_fault ft va (Some cur) rnd k tlb = (case as_page as F1 F2 F3 page of
      None \<Rightarrow> Some (Vm_return (Some EFAULT), tlb)
    | Some (pa, seg) \<Rightarrow> do {
        kassert (pa AND PAGE_FRAME = pa);
        tlb' \<leftarrow> tlb_fill page (tlb_elo pa seg ld) rnd 0 tlb;
        Some (Vm_return None, tlb') })"
    using ft nz lay as_layout_frame [OF lay]
    by (auto simp: vm_fault_def Let_def cur_def page_def vm_segment_eq [OF inv rep lay] as_layout_def split: option.splits)
  show ?thesis
  proof (cases "as_page as F1 F2 F3 page")
    case (Some e)
    obtain pa seg where e: "e = (pa, seg)" by (cases e)
    have "pa AND PAGE_FRAME = pa"
      using frame_aligned [OF inv] as_rep_keep(2) [OF inv rep, of k] as_page_frame [OF rep] Some e by blast
    moreover obtain s where "s < NUM_TLB" "tlb_fill page (tlb_elo pa seg ld) rnd 0 tlb = Some (tlb[s := (page, tlb_elo pa seg ld)])"
      "\<not> tlb_valid (tlb ! s) \<or> (\<forall>j<NUM_TLB. tlb_valid (tlb ! j))"
      by (rule tlb_fill_slot [OF tlb, of 0]) simp_all
    ultimately show ?thesis using Some e pre by auto
  qed (simp add: pre)
qed

text \<open>The sample address space, and a run that activates it, completes the load and faults on its text.\<close>

lemma fault_sample:
  obtains k L X as F1 F2 F3 where "heap_inv k L X" and "as_rep k L X as F1 F2 F3" and "as_layout as"
    and "as_page as F1 F2 F3 0x400000 = Some (F1 ! 0, TEXT_SEGMENT)"
proof (rule as_sample)
  fix p k1 as k F1 F2 F3
  assume s: "heap_inv k [p \<mapsto> 28] (grant Map.empty (as_runs as F1 F2 F3))"
    "as_rep k [p \<mapsto> 28] (grant Map.empty (as_runs as F1 F2 F3)) as F1 F2 F3" "as_tabled (as_two_pages p) as"
  have f: "as_vbase1 as = 0x400000" "as_vbase2 as = 0x10000000" "as_npages1 as = 1" "as_npages2 as = 1"
    using as_tabled_fields [OF s(3)] by (simp_all add: as_two_pages_eq)
  then have "as_layout as" by (simp add: as_layout_def)
  moreover have "length F1 = 1" using s(2) f by (simp add: as_rep_def as_maps_def)
  then have "as_page as F1 F2 F3 0x400000 = Some (F1 ! 0, TEXT_SEGMENT)" using f by (simp add: as_page_def in_region_def)
  ultimately show thesis using that s by blast
qed

definition tlb_empty :: tlb where
  "tlb_empty = replicate NUM_TLB (0, 0)"

lemma tlb_empty_length: "length tlb_empty = NUM_TLB"
  by (simp add: tlb_empty_def)

lemma run_sample:
  obtains k as s i pa where "vm_reach k s" and "p_addrspace (sys_cur s) = Some as" and "loaded (sys_cur s)"
    and "i < NUM_TLB" and "sys_tlb s ! i = (0x400000, tlb_elo pa TEXT_SEGMENT True)" and "pa AND PAGE_FRAME = pa"
proof (rule fault_sample)
  fix k L X as F1 F2 F3
  assume f: "heap_inv k L X" "as_rep k L X as F1 F2 F3" "as_layout as" "as_page as F1 F2 F3 0x400000 = Some (F1 ! 0, TEXT_SEGMENT)"
  let ?cur = "\<lparr>p_addrspace = Some as, loaded = False\<rparr>" and ?cur' = "\<lparr>p_addrspace = Some as, loaded = True\<rparr>"
  obtain t1 where t1: "tlb_flush 0 tlb_empty = Some t1" "length t1 = NUM_TLB"
    by (rule tlb_flush_slots [OF tlb_empty_length, of 0]) simp_all
  obtain t2 where t2: "tlb_flush 0 t1 = Some t2" "length t2 = NUM_TLB" "\<forall>j<NUM_TLB. \<not> tlb_valid (t2 ! j)"
    by (rule tlb_flush_slots [OF t1(2), of 0]) simp_all
  have "vm_reach k \<lparr>sys_cur = \<lparr>p_addrspace = None, loaded = False\<rparr>, sys_tlb = tlb_empty\<rparr>"
    by (rule vm_reach.start [OF tlb_empty_length]) simp
  then have "vm_reach k \<lparr>sys_cur = ?cur, sys_tlb = t1\<rparr>"
    by (rule vm_reach.step) (rule vm_step.switch, simp add: as_activate_def t1(1))
  then have r2: "vm_reach k \<lparr>sys_cur = ?cur', sys_tlb = t2\<rparr>"
    by (rule vm_reach.step) (rule vm_step.load, simp add: as_complete_load_def as_activate_def t2(1))
  have hit: "\<not> tlb_hit t2 (0x400000 AND PAGE_FRAME)" using t2(3) by (auto simp: tlb_hit_def)
  have rnd: "0 < NUM_TLB" by (simp add: NUM_TLB_def)
  obtain i where i: "i < NUM_TLB" "vm_fault VM_FAULT_READ 0x400000 (Some ?cur') 0 k t2 =
      Some (Vm_return None, t2[i := (0x400000, tlb_elo (F1 ! 0) TEXT_SEGMENT True)])"
    using vm_fault_result [OF f(1-3) t2(2) rnd, of VM_FAULT_READ "0x400000" True] f(4) by auto
  have "vm_reach k \<lparr>sys_cur = ?cur', sys_tlb = t2[i := (0x400000, tlb_elo (F1 ! 0) TEXT_SEGMENT True)]\<rparr>"
    by (rule vm_reach.step [OF r2 vm_step.fault [OF hit rnd i(2)]])
  moreover have "F1 ! 0 AND PAGE_FRAME = F1 ! 0"
    using frame_aligned [OF f(1)] as_rep_keep(2) [OF f(1,2), of k] as_page_frame [OF f(2,4)] by blast
  ultimately show thesis using that [of k _ as i "F1 ! 0"] i(1) t2(2) by simp
qed

subsection \<open>Properties\<close>

text \<open>
  C16.  Page faults are handled.  For a complete address space, a read or write fault at an address
  of the text, data or stack segment returns 0 and enters the frame that the page table of the
  segment holds for that page into one slot of the buffer, an unused one unless every slot is in
  use; for any other address the handler returns \<open>EFAULT\<close> and leaves the buffer as it was.
\<close>

theorem vm_fault_handles:
  fixes va :: vaddr and ld :: bool
  assumes inv: "heap_inv k L X" and rep: "as_rep k L X as F1 F2 F3" and lay: "as_layout as"
    and tlb: "length tlb = NUM_TLB" "rnd < NUM_TLB" and ft: "ft \<in> {VM_FAULT_READ, VM_FAULT_WRITE}"
  defines "page \<equiv> va AND PAGE_FRAME" and "cur \<equiv> \<lparr>p_addrspace = Some as, loaded = ld\<rparr>"
  shows "case as_page as F1 F2 F3 page of
      None \<Rightarrow> vm_fault ft va (Some cur) rnd k tlb = Some (Vm_return (Some EFAULT), tlb)
    | Some (pa, seg) \<Rightarrow> \<exists>s<NUM_TLB. vm_fault ft va (Some cur) rnd k tlb =
          Some (Vm_return None, tlb[s := (page, tlb_elo pa seg ld)]) \<and>
        (tlb_valid (tlb ! s) \<longrightarrow> (\<forall>j<NUM_TLB. tlb_valid (tlb ! j)))"
  unfolding page_def cur_def by (rule vm_fault_result [OF inv rep lay tlb ft])

theorem vm_fault_handles_witness:
  "\<exists>k as pa s. as_layout as \<and> s < NUM_TLB \<and>
     vm_fault VM_FAULT_READ 0x400abc (Some \<lparr>p_addrspace = Some as, loaded = True\<rparr>) 0 k tlb_empty =
       Some (Vm_return None, tlb_empty[s := (0x400000, tlb_elo pa TEXT_SEGMENT True)])"
proof (rule fault_sample)
  fix k L X as F1 F2 F3
  assume f: "heap_inv k L X" "as_rep k L X as F1 F2 F3" "as_layout as" "as_page as F1 F2 F3 0x400000 = Some (F1 ! 0, TEXT_SEGMENT)"
  have "0 < NUM_TLB" by (simp add: NUM_TLB_def)
  from vm_fault_handles [OF f(1-3) tlb_empty_length this, of VM_FAULT_READ "0x400abc" True] f(3,4)
  show ?thesis by auto
qed

text \<open>
  C15.  The buffer is safe.  In every reachable state in which the processor runs a process, each
  valid entry translates its page to the frame that the page tables of that process hold for it,
  no page has two valid entries, and once the program has been loaded an entry is writable
  exactly when its page is not in the text segment.
\<close>

theorem tlb_safe:
  assumes "vm_reach k s" and "p_addrspace (sys_cur s) = Some as" and "i < NUM_TLB" and "tlb_valid (sys_tlb s ! i)"
  shows "(\<exists>pa seg. vm_segment k as (fst (sys_tlb s ! i)) = Some (Some (pa, seg)) \<and>
      snd (sys_tlb s ! i) AND PAGE_FRAME = pa \<and>
      (tlb_writable (sys_tlb s ! i) \<longleftrightarrow> \<not> (seg = TEXT_SEGMENT \<and> loaded (sys_cur s)))) \<and>
    (\<forall>j<NUM_TLB. tlb_valid (sys_tlb s ! j) \<and> fst (sys_tlb s ! j) = fst (sys_tlb s ! i) \<longrightarrow> j = i)"
proof -
  have ok: "tlb_ok k as (loaded (sys_cur s)) (sys_tlb s)" using vm_reach_ok [OF assms(1)] assms(2) by (simp add: sys_ok_def)
  then obtain pa seg where e: "vm_segment k as (fst (sys_tlb s ! i)) = Some (Some (pa, seg))" "pa AND PAGE_FRAME = pa"
    "snd (sys_tlb s ! i) = tlb_elo pa seg (loaded (sys_cur s))"
    using assms(3,4) unfolding tlb_ok_def by blast
  have "tlb_writable (sys_tlb s ! i) \<longleftrightarrow> \<not> (seg = TEXT_SEGMENT \<and> loaded (sys_cur s))"
    using tlb_elo_flags(2) [OF e(2), of "fst (sys_tlb s ! i)"] e(3) by (metis prod.collapse)
  moreover have "snd (sys_tlb s ! i) AND PAGE_FRAME = pa" using tlb_elo_flags(3) [OF e(2)] e(3) by simp
  ultimately show ?thesis using e(1) ok assms(3,4) by (auto simp: tlb_ok_def)
qed

theorem tlb_safe_witness:
  "\<exists>k s as i. vm_reach k s \<and> p_addrspace (sys_cur s) = Some as \<and> loaded (sys_cur s) \<and> i < NUM_TLB \<and>
     tlb_valid (sys_tlb s ! i) \<and> \<not> tlb_writable (sys_tlb s ! i) \<and>
     (\<exists>pa seg. vm_segment k as (fst (sys_tlb s ! i)) = Some (Some (pa, seg)))"
proof (rule run_sample)
  fix k as s i pa
  assume r: "vm_reach k s" "p_addrspace (sys_cur s) = Some as" "loaded (sys_cur s)" "i < NUM_TLB"
    "sys_tlb s ! i = (0x400000, tlb_elo pa TEXT_SEGMENT True)" "pa AND PAGE_FRAME = pa"
  have v: "tlb_valid (sys_tlb s ! i)" "\<not> tlb_writable (sys_tlb s ! i)"
    using tlb_elo_flags(1,2) [OF r(6), of "0x400000" TEXT_SEGMENT True] r(5) by simp_all
  show ?thesis using tlb_safe [OF r(1,2,4) v(1)] r(1-4) v by blast
qed

end
