(* ===== verification/Threadlist.thy ===== *)
theory Threadlist
  imports Kernel_Prelude
begin

text \<open>
  The doubly linked thread lists of src/kern/thread/threadlist.c, at the level of the pointers.  A
  node is the one embedded in a thread or one of the two bookends of a list; the store maps nodes
  to their contents, and lists to their counts.  Following a null pointer has no defined outcome.
  The second half shows that the operations implement those on lists of threads, which is how the
  scheduler and the wait channels use them.
\<close>

subsection \<open>Model\<close>

datatype ('t, 'l) tnode = Listnode 't | Head 'l | Tail 'l

record ('t, 'l) threadlistnode =
  tln_prev :: "('t, 'l) tnode option"
  tln_next :: "('t, 'l) tnode option"
  tln_self :: "'t option"

record ('t, 'l) tlstore =
  tnodes :: "('t, 'l) tnode \<Rightarrow> ('t, 'l) threadlistnode option"
  tl_count :: "'l \<Rightarrow> u32"

definition set_prev :: "('t, 'l) tnode option \<Rightarrow> ('t, 'l) tnode option \<Rightarrow> ('t, 'l) tlstore \<Rightarrow> ('t, 'l) tlstore kres" where
  "set_prev p v s = do {
     a \<leftarrow> p;
     n \<leftarrow> tnodes s a;
     Some (s\<lparr>tnodes := (tnodes s)(a \<mapsto> n\<lparr>tln_prev := v\<rparr>)\<rparr>)
   }"

definition set_next :: "('t, 'l) tnode option \<Rightarrow> ('t, 'l) tnode option \<Rightarrow> ('t, 'l) tlstore \<Rightarrow> ('t, 'l) tlstore kres" where
  "set_next p v s = do {
     a \<leftarrow> p;
     n \<leftarrow> tnodes s a;
     Some (s\<lparr>tnodes := (tnodes s)(a \<mapsto> n\<lparr>tln_next := v\<rparr>)\<rparr>)
   }"

definition get_node :: "('t, 'l) tnode option \<Rightarrow> ('t, 'l) tlstore \<Rightarrow> ('t, 'l) threadlistnode kres" where
  "get_node p s = do { a \<leftarrow> p; tnodes s a }"

definition threadlistnode_init :: "'t \<Rightarrow> ('t, 'l) tlstore \<Rightarrow> ('t, 'l) tlstore" where
  "threadlistnode_init t s =
     s\<lparr>tnodes := (tnodes s)(Listnode t \<mapsto> \<lparr>tln_prev = None, tln_next = None, tln_self = Some t\<rparr>)\<rparr>"

definition threadlistnode_cleanup :: "'t \<Rightarrow> ('t, 'l) tlstore \<Rightarrow> unit kres" where
  "threadlistnode_cleanup t s = do {
     n \<leftarrow> tnodes s (Listnode t);
     kassert (tln_next n = None);
     kassert (tln_prev n = None);
     kassert (tln_self n \<noteq> None)
   }"

definition threadlist_init :: "'l \<Rightarrow> ('t, 'l) tlstore \<Rightarrow> ('t, 'l) tlstore" where
  "threadlist_init l s =
     s\<lparr>tnodes := (tnodes s)(Head l \<mapsto> \<lparr>tln_prev = None, tln_next = Some (Tail l), tln_self = None\<rparr>,
                        Tail l \<mapsto> \<lparr>tln_prev = Some (Head l), tln_next = None, tln_self = None\<rparr>),
       tl_count := (tl_count s)(l := 0)\<rparr>"

definition threadlist_isempty :: "'l \<Rightarrow> ('t, 'l) tlstore \<Rightarrow> bool" where
  "threadlist_isempty l s \<longleftrightarrow> tl_count s l = 0"

definition threadlist_cleanup :: "'l \<Rightarrow> ('t, 'l) tlstore \<Rightarrow> unit kres" where
  "threadlist_cleanup l s = do {
     kassert (threadlist_isempty l s);
     kassert (tl_count s l = 0)
   }"

definition threadlist_insertafternode :: "('t, 'l) tnode \<Rightarrow> 't \<Rightarrow> ('t, 'l) tlstore \<Rightarrow> ('t, 'l) tlstore kres" where
  "threadlist_insertafternode onlist t s0 = do {
     let addee = Some (Listnode t);
     s1 \<leftarrow> set_prev addee (Some onlist) s0;
     on \<leftarrow> get_node (Some onlist) s1;
     s2 \<leftarrow> set_next addee (tln_next on) s1;
     n \<leftarrow> get_node addee s2;
     s3 \<leftarrow> set_next (tln_prev n) addee s2;
     n' \<leftarrow> get_node addee s3;
     set_prev (tln_next n') addee s3
   }"

definition threadlist_insertbeforenode :: "'t \<Rightarrow> ('t, 'l) tnode \<Rightarrow> ('t, 'l) tlstore \<Rightarrow> ('t, 'l) tlstore kres" where
  "threadlist_insertbeforenode t onlist s0 = do {
     let addee = Some (Listnode t);
     on \<leftarrow> get_node (Some onlist) s0;
     s1 \<leftarrow> set_prev addee (tln_prev on) s0;
     s2 \<leftarrow> set_next addee (Some onlist) s1;
     n \<leftarrow> get_node addee s2;
     s3 \<leftarrow> set_next (tln_prev n) addee s2;
     n' \<leftarrow> get_node addee s3;
     set_prev (tln_next n') addee s3
   }"

definition threadlist_removenode :: "('t, 'l) tnode \<Rightarrow> ('t, 'l) tlstore \<Rightarrow> ('t, 'l) tlstore kres" where
  "threadlist_removenode tln s0 = do {
     n \<leftarrow> get_node (Some tln) s0;
     s1 \<leftarrow> set_next (tln_prev n) (tln_next n) s0;
     n' \<leftarrow> get_node (Some tln) s1;
     s2 \<leftarrow> set_prev (tln_next n') (tln_prev n') s1;
     s3 \<leftarrow> set_prev (Some tln) None s2;
     set_next (Some tln) None s3
   }"

definition count_add :: "'l \<Rightarrow> u32 \<Rightarrow> ('t, 'l) tlstore \<Rightarrow> ('t, 'l) tlstore" where
  "count_add l d s = s\<lparr>tl_count := (tl_count s)(l := tl_count s l + d)\<rparr>"

definition threadlist_addhead :: "'l \<Rightarrow> 't \<Rightarrow> ('t, 'l) tlstore \<Rightarrow> ('t, 'l) tlstore kres" where
  "threadlist_addhead l t s = do {
     s1 \<leftarrow> threadlist_insertafternode (Head l) t s;
     Some (count_add l 1 s1)
   }"

definition threadlist_addtail :: "'l \<Rightarrow> 't \<Rightarrow> ('t, 'l) tlstore \<Rightarrow> ('t, 'l) tlstore kres" where
  "threadlist_addtail l t s = do {
     s1 \<leftarrow> threadlist_insertbeforenode t (Tail l) s;
     Some (count_add l 1 s1)
   }"

definition threadlist_remhead :: "'l \<Rightarrow> ('t, 'l) tlstore \<Rightarrow> ('t option \<times> ('t, 'l) tlstore) kres" where
  "threadlist_remhead l s = do {
     h \<leftarrow> get_node (Some (Head l)) s;
     tln \<leftarrow> tln_next h;
     n \<leftarrow> get_node (Some tln) s;
     if tln_next n = None then Some (None, s)
     else do {
       s1 \<leftarrow> threadlist_removenode tln s;
       n' \<leftarrow> get_node (Some tln) s1;
       Some (tln_self n', count_add l (- 1) s1)
     }
   }"

definition threadlist_remtail :: "'l \<Rightarrow> ('t, 'l) tlstore \<Rightarrow> ('t option \<times> ('t, 'l) tlstore) kres" where
  "threadlist_remtail l s = do {
     h \<leftarrow> get_node (Some (Tail l)) s;
     tln \<leftarrow> tln_prev h;
     n \<leftarrow> get_node (Some tln) s;
     if tln_prev n = None then Some (None, s)
     else do {
       s1 \<leftarrow> threadlist_removenode tln s;
       n' \<leftarrow> get_node (Some tln) s1;
       Some (tln_self n', count_add l (- 1) s1)
     }
   }"

definition threadlist_insertafter :: "'l \<Rightarrow> 't \<Rightarrow> 't \<Rightarrow> ('t, 'l) tlstore \<Rightarrow> ('t, 'l) tlstore kres" where
  "threadlist_insertafter l onlist addee s = do {
     s1 \<leftarrow> threadlist_insertafternode (Listnode onlist) addee s;
     Some (count_add l 1 s1)
   }"

definition threadlist_insertbefore :: "'l \<Rightarrow> 't \<Rightarrow> 't \<Rightarrow> ('t, 'l) tlstore \<Rightarrow> ('t, 'l) tlstore kres" where
  "threadlist_insertbefore l addee onlist s = do {
     s1 \<leftarrow> threadlist_insertbeforenode addee (Listnode onlist) s;
     Some (count_add l 1 s1)
   }"

definition threadlist_remove :: "'l \<Rightarrow> 't \<Rightarrow> ('t, 'l) tlstore \<Rightarrow> ('t, 'l) tlstore kres" where
  "threadlist_remove l t s = do {
     s1 \<leftarrow> threadlist_removenode (Listnode t) s;
     Some (count_add l (- 1) s1)
   }"

text \<open>
  \<open>THREADLIST_FORALL\<close> with a body that collects the threads: the loop variable is a pointer to a
  thread, and the loop ends when the node of that thread has no successor.
\<close>

partial_function (option) forall_loop :: "('t, 'l) tlstore \<Rightarrow> 't option \<Rightarrow> 't list \<Rightarrow> 't list kres" where
  "forall_loop s itervar acc = do {
     t \<leftarrow> itervar;
     n \<leftarrow> tnodes s (Listnode t);
     if tln_next n \<noteq> None then do {
       n' \<leftarrow> get_node (tln_next n) s;
       forall_loop s (tln_self n') (acc @ [t])
     } else Some acc
   }"

definition THREADLIST_FORALL :: "'l \<Rightarrow> ('t, 'l) tlstore \<Rightarrow> 't list kres" where
  "THREADLIST_FORALL l s = do {
     h \<leftarrow> get_node (Some (Head l)) s;
     n \<leftarrow> get_node (tln_next h) s;
     forall_loop s (tln_self n) []
   }"

partial_function (option) forall_rev_loop :: "('t, 'l) tlstore \<Rightarrow> 't option \<Rightarrow> 't list \<Rightarrow> 't list kres" where
  "forall_rev_loop s itervar acc = do {
     t \<leftarrow> itervar;
     n \<leftarrow> tnodes s (Listnode t);
     if tln_prev n \<noteq> None then do {
       n' \<leftarrow> get_node (tln_prev n) s;
       forall_rev_loop s (tln_self n') (acc @ [t])
     } else Some acc
   }"

definition THREADLIST_FORALL_REV :: "'l \<Rightarrow> ('t, 'l) tlstore \<Rightarrow> 't list kres" where
  "THREADLIST_FORALL_REV l s = do {
     h \<leftarrow> get_node (Some (Tail l)) s;
     n \<leftarrow> get_node (tln_prev h) s;
     forall_rev_loop s (tln_self n) []
   }"

subsection \<open>Effects on the links\<close>

definition nxt :: "('t, 'l) tlstore \<Rightarrow> ('t, 'l) tnode \<Rightarrow> ('t, 'l) tnode option" where
  "nxt s a = (case tnodes s a of None \<Rightarrow> None | Some n \<Rightarrow> tln_next n)"

definition prv :: "('t, 'l) tlstore \<Rightarrow> ('t, 'l) tnode \<Rightarrow> ('t, 'l) tnode option" where
  "prv s a = (case tnodes s a of None \<Rightarrow> None | Some n \<Rightarrow> tln_prev n)"

definition slf :: "('t, 'l) tlstore \<Rightarrow> ('t, 'l) tnode \<Rightarrow> 't option" where
  "slf s a = (case tnodes s a of None \<Rightarrow> None | Some n \<Rightarrow> tln_self n)"

definition same_nodes :: "('t, 'l) tlstore \<Rightarrow> ('t, 'l) tlstore \<Rightarrow> bool" where
  "same_nodes s s' \<longleftrightarrow> dom (tnodes s') = dom (tnodes s) \<and> slf s' = slf s \<and> tl_count s' = tl_count s"

lemma same_nodes_refl [simp]: "same_nodes s s"
  by (simp add: same_nodes_def)

lemma same_nodes_trans: "same_nodes s s1 \<Longrightarrow> same_nodes s1 s2 \<Longrightarrow> same_nodes s s2"
  by (simp add: same_nodes_def)

lemma set_next_ok:
  assumes "a \<in> dom (tnodes s)"
  obtains s' where "set_next (Some a) v s = Some s'" and "nxt s' = (nxt s)(a := v)" and "prv s' = prv s" and "same_nodes s s'"
  using assms that by (force simp: set_next_def nxt_def prv_def slf_def same_nodes_def fun_eq_iff)

lemma set_prev_ok:
  assumes "a \<in> dom (tnodes s)"
  obtains s' where "set_prev (Some a) v s = Some s'" and "prv s' = (prv s)(a := v)" and "nxt s' = nxt s" and "same_nodes s s'"
  using assms that by (force simp: set_prev_def nxt_def prv_def slf_def same_nodes_def fun_eq_iff)

lemma get_node_ok:
  assumes "a \<in> dom (tnodes s)"
  obtains n where "get_node (Some a) s = Some n" and "tln_next n = nxt s a" and "tln_prev n = prv s a" and "tln_self n = slf s a"
  using assms that by (auto simp: get_node_def nxt_def prv_def slf_def)

text \<open>Writing one link in a store whose nodes are known.\<close>

definition linked :: "('t, 'l) tlstore \<Rightarrow> (('t, 'l) tnode \<Rightarrow> ('t, 'l) tnode option) \<Rightarrow> (('t, 'l) tnode \<Rightarrow> ('t, 'l) tnode option) \<Rightarrow>
    ('t, 'l) tlstore \<Rightarrow> bool" where
  "linked s N P s' \<longleftrightarrow> nxt s' = N \<and> prv s' = P \<and> same_nodes s s'"

lemma linked_set_next:
  assumes "linked s0 N P s" and "a \<in> dom (tnodes s0)"
  obtains s' where "set_next (Some a) v s = Some s'" and "linked s0 (N(a := v)) P s'"
proof -
  have "a \<in> dom (tnodes s)" using assms by (simp add: linked_def same_nodes_def)
  from set_next_ok [OF this, of v] obtain s' where "set_next (Some a) v s = Some s'" "nxt s' = (nxt s)(a := v)" "prv s' = prv s"
    "same_nodes s s'" by blast
  then show thesis using that assms(1) same_nodes_trans by (auto simp: linked_def)
qed

lemma linked_set_prev:
  assumes "linked s0 N P s" and "a \<in> dom (tnodes s0)"
  obtains s' where "set_prev (Some a) v s = Some s'" and "linked s0 N (P(a := v)) s'"
proof -
  have "a \<in> dom (tnodes s)" using assms by (simp add: linked_def same_nodes_def)
  from set_prev_ok [OF this, of v] obtain s' where "set_prev (Some a) v s = Some s'" "prv s' = (prv s)(a := v)" "nxt s' = nxt s"
    "same_nodes s s'" by blast
  then show thesis using that assms(1) same_nodes_trans by (auto simp: linked_def)
qed

lemma linked_get:
  assumes "linked s0 N P s" and "a \<in> dom (tnodes s0)"
  obtains n where "get_node (Some a) s = Some n" and "tln_next n = N a" and "tln_prev n = P a" and "tln_self n = slf s0 a"
proof -
  have "a \<in> dom (tnodes s)" using assms by (simp add: linked_def same_nodes_def)
  from get_node_ok [OF this] obtain n where "get_node (Some a) s = Some n" "tln_next n = nxt s a" "tln_prev n = prv s a" "tln_self n = slf s a"
    by blast
  then show thesis using that assms(1) by (simp add: linked_def same_nodes_def)
qed

lemma linked_start: "linked s (nxt s) (prv s) s"
  by (simp add: linked_def)

lemma insertafter_links:
  assumes a: "a \<in> dom (tnodes s)" and c: "Listnode t \<in> dom (tnodes s)" and b: "nxt s a = Some b" "b \<in> dom (tnodes s)"
    and ne: "Listnode t \<noteq> a"
  obtains s' where "threadlist_insertafternode a t s = Some s'"
    and "linked s ((nxt s)(Listnode t := Some b, a := Some (Listnode t))) ((prv s)(Listnode t := Some a, b := Some (Listnode t))) s'"
proof -
  let ?c = "Listnode t :: ('a, 'b) tnode"
  obtain s1 where 1: "set_prev (Some ?c) (Some a) s = Some s1" "linked s (nxt s) ((prv s)(?c := Some a)) s1"
    by (rule linked_set_prev [OF linked_start c])
  obtain n1 where n1: "get_node (Some a) s1 = Some n1" "tln_next n1 = Some b"
    by (rule linked_get [OF 1(2) a]) (use b(1) in simp)
  obtain s2 where 2: "set_next (Some ?c) (Some b) s1 = Some s2" "linked s ((nxt s)(?c := Some b)) ((prv s)(?c := Some a)) s2"
    by (rule linked_set_next [OF 1(2) c])
  obtain n2 where n2: "get_node (Some ?c) s2 = Some n2" "tln_prev n2 = Some a"
    by (rule linked_get [OF 2(2) c]) simp
  obtain s3 where 3: "set_next (Some a) (Some ?c) s2 = Some s3"
    "linked s ((nxt s)(?c := Some b, a := Some ?c)) ((prv s)(?c := Some a)) s3"
    by (rule linked_set_next [OF 2(2) a])
  obtain n3 where n3: "get_node (Some ?c) s3 = Some n3" "tln_next n3 = Some b"
    by (rule linked_get [OF 3(2) c]) (use ne in simp)
  obtain s4 where 4: "set_prev (Some b) (Some ?c) s3 = Some s4"
    "linked s ((nxt s)(?c := Some b, a := Some ?c)) ((prv s)(?c := Some a, b := Some ?c)) s4"
    by (rule linked_set_prev [OF 3(2) b(2)])
  show thesis using that 4(2) 1(1) n1 2(1) n2 3(1) n3 4(1) by (simp add: threadlist_insertafternode_def Let_def)
qed

lemma insertbefore_links:
  assumes b: "b \<in> dom (tnodes s)" and c: "Listnode t \<in> dom (tnodes s)" and a: "prv s b = Some a" "a \<in> dom (tnodes s)"
    and ne: "Listnode t \<noteq> a"
  obtains s' where "threadlist_insertbeforenode t b s = Some s'"
    and "linked s ((nxt s)(Listnode t := Some b, a := Some (Listnode t))) ((prv s)(Listnode t := Some a, b := Some (Listnode t))) s'"
proof -
  let ?c = "Listnode t :: ('a, 'b) tnode"
  obtain n0 where n0: "get_node (Some b) s = Some n0" "tln_prev n0 = Some a"
    by (rule linked_get [OF linked_start b]) (use a(1) in simp)
  obtain s1 where 1: "set_prev (Some ?c) (Some a) s = Some s1" "linked s (nxt s) ((prv s)(?c := Some a)) s1"
    by (rule linked_set_prev [OF linked_start c])
  obtain s2 where 2: "set_next (Some ?c) (Some b) s1 = Some s2" "linked s ((nxt s)(?c := Some b)) ((prv s)(?c := Some a)) s2"
    by (rule linked_set_next [OF 1(2) c])
  obtain n2 where n2: "get_node (Some ?c) s2 = Some n2" "tln_prev n2 = Some a"
    by (rule linked_get [OF 2(2) c]) simp
  obtain s3 where 3: "set_next (Some a) (Some ?c) s2 = Some s3"
    "linked s ((nxt s)(?c := Some b, a := Some ?c)) ((prv s)(?c := Some a)) s3"
    by (rule linked_set_next [OF 2(2) a(2)])
  obtain n3 where n3: "get_node (Some ?c) s3 = Some n3" "tln_next n3 = Some b"
    by (rule linked_get [OF 3(2) c]) (use ne in simp)
  obtain s4 where 4: "set_prev (Some b) (Some ?c) s3 = Some s4"
    "linked s ((nxt s)(?c := Some b, a := Some ?c)) ((prv s)(?c := Some a, b := Some ?c)) s4"
    by (rule linked_set_prev [OF 3(2) b])
  show thesis using that 4(2) n0 1(1) 2(1) n2 3(1) n3 4(1) by (simp add: threadlist_insertbeforenode_def Let_def)
qed

lemma removenode_links:
  assumes c: "c \<in> dom (tnodes s)" and a: "prv s c = Some a" "a \<in> dom (tnodes s)" and b: "nxt s c = Some b" "b \<in> dom (tnodes s)"
    and ne: "c \<noteq> a"
  obtains s' where "threadlist_removenode c s = Some s'"
    and "linked s ((nxt s)(a := Some b, c := None)) ((prv s)(b := Some a, c := None)) s'"
proof -
  obtain n0 where n0: "get_node (Some c) s = Some n0" "tln_prev n0 = Some a" "tln_next n0 = Some b"
    by (rule linked_get [OF linked_start c]) (use a(1) b(1) in simp)
  obtain s1 where 1: "set_next (Some a) (Some b) s = Some s1" "linked s ((nxt s)(a := Some b)) (prv s) s1"
    by (rule linked_set_next [OF linked_start a(2)])
  obtain n1 where n1: "get_node (Some c) s1 = Some n1" "tln_prev n1 = Some a" "tln_next n1 = Some b"
    by (rule linked_get [OF 1(2) c]) (use a(1) b(1) ne in simp)
  obtain s2 where 2: "set_prev (Some b) (Some a) s1 = Some s2" "linked s ((nxt s)(a := Some b)) ((prv s)(b := Some a)) s2"
    by (rule linked_set_prev [OF 1(2) b(2)])
  obtain s3 where 3: "set_prev (Some c) None s2 = Some s3"
    "linked s ((nxt s)(a := Some b)) ((prv s)(b := Some a, c := None)) s3"
    by (rule linked_set_prev [OF 2(2) c])
  obtain s4 where 4: "set_next (Some c) None s3 = Some s4"
    "linked s ((nxt s)(a := Some b, c := None)) ((prv s)(b := Some a, c := None)) s4"
    by (rule linked_set_next [OF 3(2) c])
  show thesis using that 4(2) n0 1(1) n1 2(1) 3(1) 4(1) by (simp add: threadlist_removenode_def Let_def)
qed

subsection \<open>Chains\<close>

fun chain :: "('n \<Rightarrow> 'n option) \<Rightarrow> ('n \<Rightarrow> 'n option) \<Rightarrow> 'n list \<Rightarrow> bool" where
  "chain N P (a # b # r) \<longleftrightarrow> N a = Some b \<and> P b = Some a \<and> chain N P (b # r)"
| "chain N P r \<longleftrightarrow> True"

lemma chain_append: "chain N P (xs @ a # ys) \<longleftrightarrow> chain N P (xs @ [a]) \<and> chain N P (a # ys)"
proof (induction xs)
  case (Cons x xs)
  then show ?case by (cases xs) auto
qed simp

lemma chain_cong:
  assumes "\<And>x. x \<in> set (butlast zs) \<Longrightarrow> N' x = N x" and "\<And>x. x \<in> set (tl zs) \<Longrightarrow> P' x = P x"
  shows "chain N' P' zs \<longleftrightarrow> chain N P zs"
  using assms
proof (induction N P zs rule: chain.induct)
  case (1 N P a b r)
  have "chain N' P' (b # r) \<longleftrightarrow> chain N P (b # r)"
    by (rule 1(1)) (use 1(2,3) in auto)
  then show ?case using 1(2) [of a] 1(3) [of b] by simp
qed simp_all

lemma in_set_tlD: "x \<in> set (tl zs) \<Longrightarrow> x \<in> set zs"
  by (cases zs) auto

lemma chain_left:
  assumes "a \<notin> set xs" and "set (xs @ [a]) \<inter> B = {}" and "\<And>x. x \<noteq> a \<Longrightarrow> x \<notin> B \<Longrightarrow> N' x = N x" and "\<And>x. x \<notin> B \<Longrightarrow> P' x = P x"
  shows "chain N' P' (xs @ [a]) \<longleftrightarrow> chain N P (xs @ [a])"
proof (rule chain_cong)
  fix x
  show "N' x = N x" if "x \<in> set (butlast (xs @ [a]))" using that assms(1,2) by (intro assms(3)) auto
  show "P' x = P x" if "x \<in> set (tl (xs @ [a]))" using in_set_tlD [OF that] assms(2) by (intro assms(4)) auto
qed

lemma chain_right:
  assumes "b \<notin> set ys" and "set (b # ys) \<inter> A = {}" and "\<And>x. x \<notin> A \<Longrightarrow> N' x = N x" and "\<And>x. x \<noteq> b \<Longrightarrow> x \<notin> A \<Longrightarrow> P' x = P x"
  shows "chain N' P' (b # ys) \<longleftrightarrow> chain N P (b # ys)"
proof (rule chain_cong)
  fix x
  show "N' x = N x" if "x \<in> set (butlast (b # ys))" using in_set_butlastD [OF that] assms(2) by (intro assms(3)) auto
  show "P' x = P x" if "x \<in> set (tl (b # ys))" using that assms(1,2) by (intro assms(4)) auto
qed

lemma chain_insert:
  assumes ch: "chain N P (xs @ a # b # ys)" and d: "distinct (xs @ a # b # ys)" and c: "c \<notin> set (xs @ a # b # ys)"
  shows "chain (N(c := Some b, a := Some c)) (P(c := Some a, b := Some c)) (xs @ a # c # b # ys)"
proof -
  let ?N = "N(c := Some b, a := Some c)" and ?P = "P(c := Some a, b := Some c)"
  have parts: "chain N P (xs @ [a])" "chain N P (b # ys)" using ch chain_append [of N P xs a "b # ys"] by auto
  have "chain ?N ?P (xs @ [a])" using parts(1) chain_left [of a xs "{b, c}" ?N N ?P P] d c by auto
  moreover have "chain ?N ?P (b # ys)" using parts(2) chain_right [of b ys "{a, c}" ?N N ?P P] d c by auto
  ultimately show ?thesis using c d chain_append [of ?N ?P xs a "c # b # ys"] by auto
qed

lemma chain_delete:
  assumes ch: "chain N P (xs @ a # c # b # ys)" and d: "distinct (xs @ a # c # b # ys)"
  shows "chain (N(a := Some b, c := None)) (P(b := Some a, c := None)) (xs @ a # b # ys)"
proof -
  let ?N = "N(a := Some b, c := None)" and ?P = "P(b := Some a, c := None)"
  have parts: "chain N P (xs @ [a])" "chain N P (b # ys)" using ch chain_append [of N P xs a "c # b # ys"] by auto
  have "chain ?N ?P (xs @ [a])" using parts(1) chain_left [of a xs "{b, c}" ?N N ?P P] d by auto
  moreover have "chain ?N ?P (b # ys)" using parts(2) chain_right [of b ys "{a, c}" ?N N ?P P] d by auto
  ultimately show ?thesis using d chain_append [of ?N ?P xs a "b # ys"] by auto
qed

lemma chain_links:
  assumes "chain N P (xs @ a # c # b # ys)"
  shows "N a = Some c" "P c = Some a" "N c = Some b" "P b = Some c"
  using assms chain_append [of N P xs a "c # b # ys"] by auto

lemma chain_link:
  assumes "chain N P (xs @ a # b # ys)"
  shows "N a = Some b" "P b = Some a"
  using assms chain_append [of N P xs a "b # ys"] by auto

subsection \<open>Lists of threads\<close>

definition tl_nodes :: "'l \<Rightarrow> 't list \<Rightarrow> ('t, 'l) tnode list" where
  "tl_nodes l ts = Head l # map Listnode ts @ [Tail l]"

definition tl_rel :: "('t, 'l) tlstore \<Rightarrow> 'l \<Rightarrow> 't list \<Rightarrow> bool" where
  "tl_rel s l ts \<longleftrightarrow> distinct ts \<and> length ts < 2 ^ 32 \<and> tl_count s l = of_nat (length ts) \<and>
     set (tl_nodes l ts) \<subseteq> dom (tnodes s) \<and> chain (nxt s) (prv s) (tl_nodes l ts) \<and>
     prv s (Head l) = None \<and> nxt s (Tail l) = None \<and> slf s (Head l) = None \<and> slf s (Tail l) = None \<and> (\<forall>t \<in> set ts. slf s (Listnode t) = Some t)"

definition thread_idle :: "('t, 'l) tlstore \<Rightarrow> 't \<Rightarrow> bool" where
  "thread_idle s t \<longleftrightarrow> Listnode t \<in> dom (tnodes s) \<and> nxt s (Listnode t) = None \<and> prv s (Listnode t) = None \<and>
     slf s (Listnode t) = Some t"

lemma distinct_tl_nodes: "distinct (tl_nodes l ts) \<longleftrightarrow> distinct ts"
  by (auto simp: tl_nodes_def distinct_map inj_on_def)

lemma set_tl_nodes: "set (tl_nodes l ts) = insert (Head l) (insert (Tail l) (Listnode ` set ts))"
  by (auto simp: tl_nodes_def)

text \<open>A position in the list: the node before it and the node after it.\<close>

definition node_before :: "'l \<Rightarrow> 't list \<Rightarrow> ('t, 'l) tnode" where
  "node_before l us = (if us = [] then Head l else Listnode (last us))"

definition node_after :: "'l \<Rightarrow> 't list \<Rightarrow> ('t, 'l) tnode" where
  "node_after l vs = (case vs of [] \<Rightarrow> Tail l | v # _ \<Rightarrow> Listnode v)"

lemma tl_nodes_at:
  "tl_nodes l (us @ vs) = butlast (Head l # map Listnode us) @ node_before l us # node_after l vs # tl (map Listnode vs @ [Tail l])"
proof -
  have "Head l # map Listnode us = butlast (Head l # map Listnode us) @ [node_before l us]"
    by (cases us rule: rev_cases) (auto simp: node_before_def butlast_append)
  moreover have "map Listnode vs @ [Tail l] = node_after l vs # tl (map Listnode vs @ [Tail l])"
    by (cases vs) (simp_all add: node_after_def)
  ultimately show ?thesis unfolding tl_nodes_def by (metis append.assoc append_Cons append_Nil map_append)
qed

lemma tl_nodes_insert:
  "tl_nodes l (us @ t # vs) =
     butlast (Head l # map Listnode us) @ node_before l us # Listnode t # node_after l vs # tl (map Listnode vs @ [Tail l])"
  using tl_nodes_at [of l us "t # vs"] tl_nodes_at [of l "us @ [t]" vs]
  by (cases vs) (simp_all add: node_after_def node_before_def butlast_append)

lemma idle_not_on_list: "thread_idle s t \<Longrightarrow> tl_rel s l ts \<Longrightarrow> t \<notin> set ts"
proof
  assume idle: "thread_idle s t" and rel: "tl_rel s l ts" and "t \<in> set ts"
  then obtain us vs where "ts = us @ t # vs" by (auto simp: in_set_conv_decomp)
  then have "nxt s (Listnode t) = Some (node_after l vs)"
    using rel chain_links(3) [of "nxt s" "prv s" "butlast (Head l # map Listnode us)" "node_before l us" "Listnode t" "node_after l vs" "tl (map Listnode vs @ [Tail l])"]
    by (simp add: tl_rel_def tl_nodes_insert)
  then show False using idle by (simp add: thread_idle_def)
qed

text \<open>What an operation on list \<open>l\<close> that touches the threads \<open>T\<close> leaves alone.\<close>

definition tq_frame :: "('s \<Rightarrow> 'l \<Rightarrow> 't list \<Rightarrow> bool) \<Rightarrow> ('s \<Rightarrow> 't \<Rightarrow> bool) \<Rightarrow> 's \<Rightarrow> 's \<Rightarrow> 'l \<Rightarrow> 't set \<Rightarrow> bool" where
  "tq_frame rel idle s s' l T \<longleftrightarrow>
     (\<forall>l' ts'. l' \<noteq> l \<longrightarrow> rel s l' ts' \<longrightarrow> set ts' \<inter> T = {} \<longrightarrow> rel s' l' ts') \<and>
     (\<forall>u. u \<notin> T \<longrightarrow> idle s u \<longrightarrow> idle s' u)"

lemma count_add_simps [simp]:
  "nxt (count_add l d s) = nxt s" "prv (count_add l d s) = prv s" "slf (count_add l d s) = slf s"
  "tnodes (count_add l d s) = tnodes s" "tl_count (count_add l d s) l' = (if l' = l then tl_count s l + d else tl_count s l')"
  by (simp_all add: count_add_def nxt_def prv_def slf_def fun_eq_iff)

lemma linked_frame:
  assumes ln: "linked s N P s'" and T: "set ts \<subseteq> T"
    and N: "\<And>x. x \<notin> set (tl_nodes l ts) \<Longrightarrow> N x = nxt s x" and P: "\<And>x. x \<notin> set (tl_nodes l ts) \<Longrightarrow> P x = prv s x"
  shows "tq_frame tl_rel thread_idle s (count_add l d s') l T"
proof -
  have e: "nxt s' = N" "prv s' = P" "slf s' = slf s" "dom (tnodes s') = dom (tnodes s)" "tl_count s' = tl_count s"
    using ln by (auto simp: linked_def same_nodes_def)
  have "tl_rel (count_add l d s') l' ts'" if l: "l' \<noteq> l" and r: "tl_rel s l' ts'" and dj: "set ts' \<inter> T = {}" for l' ts'
  proof -
    have out: "x \<notin> set (tl_nodes l ts)" if "x \<in> set (tl_nodes l' ts')" for x
      using that l dj T by (auto simp: set_tl_nodes)
    have "chain N P (tl_nodes l' ts') \<longleftrightarrow> chain (nxt s) (prv s) (tl_nodes l' ts')"
      by (rule chain_cong) (auto intro!: N P out dest: in_set_butlastD in_set_tlD)
    moreover have "P (Head l') = prv s (Head l')" "N (Tail l') = nxt s (Tail l')"
      using N P out by (auto simp: set_tl_nodes)
    ultimately show ?thesis using r l e by (simp add: tl_rel_def)
  qed
  moreover have "thread_idle (count_add l d s') u" if "u \<notin> T" "thread_idle s u" for u
  proof -
    have "Listnode u \<notin> set (tl_nodes l ts)" using that(1) T by (auto simp: set_tl_nodes)
    then show ?thesis using that(2) N P e by (simp add: thread_idle_def)
  qed
  ultimately show ?thesis by (simp add: tq_frame_def)
qed

lemma tl_rel_links:
  assumes "tl_rel s l (us @ vs)"
  shows "nxt s (node_before l us) = Some (node_after l vs)" and "prv s (node_after l vs) = Some (node_before l us)"
    and "node_before l us \<in> dom (tnodes s)" and "node_after l vs \<in> dom (tnodes s)"
proof -
  have "chain (nxt s) (prv s) (tl_nodes l (us @ vs))" "set (tl_nodes l (us @ vs)) \<subseteq> dom (tnodes s)"
    using assms by (simp_all add: tl_rel_def)
  then show "nxt s (node_before l us) = Some (node_after l vs)" "prv s (node_after l vs) = Some (node_before l us)"
    "node_before l us \<in> dom (tnodes s)" "node_after l vs \<in> dom (tnodes s)"
    unfolding tl_nodes_at by (auto dest: chain_link)
qed

lemma tl_insert:
  assumes rel: "tl_rel s l (us @ vs)" and idle: "thread_idle s t" and len: "length (us @ vs) + 1 < 2 ^ 32"
    and ln: "linked s ((nxt s)(Listnode t := Some (node_after l vs), node_before l us := Some (Listnode t)))
      ((prv s)(Listnode t := Some (node_before l us), node_after l vs := Some (Listnode t))) s'"
  shows "tl_rel (count_add l 1 s') l (us @ t # vs)"
    and "tq_frame tl_rel thread_idle s (count_add l 1 s') l (insert t (set (us @ vs)))"
proof -
  let ?N = "(nxt s)(Listnode t := Some (node_after l vs), node_before l us := Some (Listnode t))"
    and ?P = "(prv s)(Listnode t := Some (node_before l us), node_after l vs := Some (Listnode t))"
  have e: "nxt s' = ?N" "prv s' = ?P" "slf s' = slf s" "dom (tnodes s') = dom (tnodes s)" "tl_count s' = tl_count s"
    using ln by (auto simp: linked_def same_nodes_def)
  have t: "t \<notin> set (us @ vs)" by (rule idle_not_on_list [OF idle rel])
  have "chain (nxt s) (prv s) (tl_nodes l (us @ vs))" "distinct (tl_nodes l (us @ vs))" "Listnode t \<notin> set (tl_nodes l (us @ vs))"
    using rel t by (auto simp: tl_rel_def distinct_tl_nodes set_tl_nodes)
  then have ch: "chain ?N ?P (tl_nodes l (us @ t # vs))"
    unfolding tl_nodes_insert tl_nodes_at [of l us vs] by (rule chain_insert)
  have nb: "node_before l us \<in> set (tl_nodes l (t # us @ vs))" "node_after l vs \<in> set (tl_nodes l (t # us @ vs))"
    by (auto simp: node_before_def node_after_def set_tl_nodes split: list.splits)
  have ends: "?P (Head l) = None" "?N (Tail l) = None"
    using rel by (auto simp: tl_rel_def node_before_def node_after_def split: list.splits)
  show "tl_rel (count_add l 1 s') l (us @ t # vs)"
    using rel idle t len ch ends e by (auto simp: tl_rel_def thread_idle_def set_tl_nodes)
  show "tq_frame tl_rel thread_idle s (count_add l 1 s') l (insert t (set (us @ vs)))"
    by (rule linked_frame [OF ln, of "t # us @ vs"]) (use nb in \<open>auto simp: set_tl_nodes\<close>)
qed

lemma tl_delete:
  assumes rel: "tl_rel s l (us @ t # vs)"
    and ln: "linked s ((nxt s)(node_before l us := Some (node_after l vs), Listnode t := None))
      ((prv s)(node_after l vs := Some (node_before l us), Listnode t := None)) s'"
  shows "tl_rel (count_add l (- 1) s') l (us @ vs)" and "thread_idle (count_add l (- 1) s') t"
    and "tq_frame tl_rel thread_idle s (count_add l (- 1) s') l (set (us @ t # vs))"
proof -
  let ?N = "(nxt s)(node_before l us := Some (node_after l vs), Listnode t := None)"
    and ?P = "(prv s)(node_after l vs := Some (node_before l us), Listnode t := None)"
  have e: "nxt s' = ?N" "prv s' = ?P" "slf s' = slf s" "dom (tnodes s') = dom (tnodes s)" "tl_count s' = tl_count s"
    using ln by (auto simp: linked_def same_nodes_def)
  have d: "distinct (us @ t # vs)" using rel by (simp add: tl_rel_def)
  have "chain (nxt s) (prv s) (tl_nodes l (us @ t # vs))" "distinct (tl_nodes l (us @ t # vs))"
    using rel by (auto simp: tl_rel_def distinct_tl_nodes)
  then have ch: "chain ?N ?P (tl_nodes l (us @ vs))"
    unfolding tl_nodes_insert tl_nodes_at [of l us vs] by (rule chain_delete)
  have nb: "node_before l us \<in> set (tl_nodes l (us @ t # vs))" "node_after l vs \<in> set (tl_nodes l (us @ t # vs))"
    by (auto simp: node_before_def node_after_def set_tl_nodes split: list.splits)
  have ends: "?P (Head l) = None" "?N (Tail l) = None"
    using rel by (auto simp: tl_rel_def node_before_def node_after_def split: list.splits)
  show "tl_rel (count_add l (- 1) s') l (us @ vs)"
    using rel d ch ends e by (auto simp: tl_rel_def set_tl_nodes)
  show "thread_idle (count_add l (- 1) s') t"
    using rel e by (auto simp: tl_rel_def thread_idle_def set_tl_nodes)
  show "tq_frame tl_rel thread_idle s (count_add l (- 1) s') l (set (us @ t # vs))"
    by (rule linked_frame [OF ln, of "us @ t # vs"]) (use nb in \<open>auto simp: set_tl_nodes\<close>)
qed

text \<open>Adding at a position and taking away from a position, whichever internal routine does it.\<close>

definition inserted :: "('t, 'l) tlstore \<Rightarrow> 'l \<Rightarrow> 't list \<Rightarrow> 't \<Rightarrow> 't list \<Rightarrow> ('t, 'l) tlstore \<Rightarrow> bool" where
  "inserted s l us t vs s' \<longleftrightarrow> tl_rel s' l (us @ t # vs) \<and> tq_frame tl_rel thread_idle s s' l (insert t (set (us @ vs)))"

definition deleted :: "('t, 'l) tlstore \<Rightarrow> 'l \<Rightarrow> 't list \<Rightarrow> 't \<Rightarrow> 't list \<Rightarrow> ('t, 'l) tlstore \<Rightarrow> bool" where
  "deleted s l us t vs s' \<longleftrightarrow> tl_rel s' l (us @ vs) \<and> thread_idle s' t \<and> tq_frame tl_rel thread_idle s s' l (set (us @ t # vs))"

lemma insertafternode_ok:
  assumes rel: "tl_rel s l (us @ vs)" and idle: "thread_idle s t" and len: "length (us @ vs) + 1 < 2 ^ 32"
  obtains s' where "threadlist_insertafternode (node_before l us) t s = Some s'" and "inserted s l us t vs (count_add l 1 s')"
proof -
  have "t \<notin> set us" using idle_not_on_list [OF idle rel] by simp
  then have ne: "Listnode t \<noteq> node_before l us" by (auto simp: node_before_def)
  have "Listnode t \<in> dom (tnodes s)" using idle by (simp add: thread_idle_def)
  from insertafter_links [OF tl_rel_links(3) [OF rel] this tl_rel_links(1,4) [OF rel] ne] obtain s' where
    "threadlist_insertafternode (node_before l us) t s = Some s'"
    "linked s ((nxt s)(Listnode t := Some (node_after l vs), node_before l us := Some (Listnode t)))
      ((prv s)(Listnode t := Some (node_before l us), node_after l vs := Some (Listnode t))) s'" .
  then show thesis using that tl_insert [OF rel idle len] by (simp add: inserted_def)
qed

lemma insertbeforenode_ok:
  assumes rel: "tl_rel s l (us @ vs)" and idle: "thread_idle s t" and len: "length (us @ vs) + 1 < 2 ^ 32"
  obtains s' where "threadlist_insertbeforenode t (node_after l vs) s = Some s'" and "inserted s l us t vs (count_add l 1 s')"
proof -
  have "t \<notin> set us" using idle_not_on_list [OF idle rel] by simp
  then have ne: "Listnode t \<noteq> node_before l us" by (auto simp: node_before_def)
  have "Listnode t \<in> dom (tnodes s)" using idle by (simp add: thread_idle_def)
  from insertbefore_links [OF tl_rel_links(4) [OF rel] this tl_rel_links(2,3) [OF rel] ne] obtain s' where
    "threadlist_insertbeforenode t (node_after l vs) s = Some s'"
    "linked s ((nxt s)(Listnode t := Some (node_after l vs), node_before l us := Some (Listnode t)))
      ((prv s)(Listnode t := Some (node_before l us), node_after l vs := Some (Listnode t))) s'" .
  then show thesis using that tl_insert [OF rel idle len] by (simp add: inserted_def)
qed

lemma removenode_ok:
  assumes rel: "tl_rel s l (us @ t # vs)"
  obtains s' where "threadlist_removenode (Listnode t) s = Some s'" and "deleted s l us t vs (count_add l (- 1) s')"
    and "get_node (Some (Listnode t)) s' = Some \<lparr>tln_prev = None, tln_next = None, tln_self = Some t\<rparr>"
proof -
  have rel': "tl_rel s l ((us @ [t]) @ vs)" using rel by simp
  have t: "node_after l (t # vs) = Listnode t" "node_before l (us @ [t]) = Listnode t"
    by (simp_all add: node_after_def node_before_def)
  have "t \<notin> set us" using rel by (simp add: tl_rel_def)
  then have ne: "Listnode t \<noteq> node_before l us" by (auto simp: node_before_def)
  note p = tl_rel_links [OF rel, unfolded t] and n = tl_rel_links [OF rel', unfolded t]
  from removenode_links [OF p(4,2,3) n(1,4) ne] obtain s' where s': "threadlist_removenode (Listnode t) s = Some s'"
    "linked s ((nxt s)(node_before l us := Some (node_after l vs), Listnode t := None))
      ((prv s)(node_after l vs := Some (node_before l us), Listnode t := None)) s'" .
  have d: "deleted s l us t vs (count_add l (- 1) s')" using tl_delete [OF rel s'(2)] by (simp add: deleted_def)
  then have "thread_idle s' t" by (simp add: deleted_def thread_idle_def)
  then have "get_node (Some (Listnode t)) s' = Some \<lparr>tln_prev = None, tln_next = None, tln_self = Some t\<rparr>"
    by (auto simp: thread_idle_def get_node_def nxt_def prv_def slf_def)
  with s'(1) d show thesis by (rule that)
qed

lemma node_ends [simp]: "node_before l [] = Head l" "node_after l [] = Tail l" "node_after l (v # vs) = Listnode v"
  "node_before l (us @ [u]) = Listnode u"
  by (simp_all add: node_before_def node_after_def)

lemma addhead_ok:
  assumes "tl_rel s l ts" and "thread_idle s t" and "length ts + 1 < 2 ^ 32"
  obtains s' where "threadlist_addhead l t s = Some s'" and "inserted s l [] t ts s'"
  by (rule insertafternode_ok [of s l "[]" ts t]) (use assms that in \<open>simp_all add: threadlist_addhead_def\<close>)

lemma addtail_ok:
  assumes "tl_rel s l ts" and "thread_idle s t" and "length ts + 1 < 2 ^ 32"
  obtains s' where "threadlist_addtail l t s = Some s'" and "inserted s l ts t [] s'"
  by (rule insertbeforenode_ok [of s l ts "[]" t]) (use assms that in \<open>simp_all add: threadlist_addtail_def\<close>)

lemma insertafter_ok:
  assumes "tl_rel s l (us @ u # vs)" and "thread_idle s t" and "length (us @ u # vs) + 1 < 2 ^ 32"
  obtains s' where "threadlist_insertafter l u t s = Some s'" and "inserted s l (us @ [u]) t vs s'"
  by (rule insertafternode_ok [of s l "us @ [u]" vs t]) (use assms that in \<open>simp_all add: threadlist_insertafter_def\<close>)

lemma insertbefore_ok:
  assumes "tl_rel s l (us @ u # vs)" and "thread_idle s t" and "length (us @ u # vs) + 1 < 2 ^ 32"
  obtains s' where "threadlist_insertbefore l t u s = Some s'" and "inserted s l us t (u # vs) s'"
  by (rule insertbeforenode_ok [of s l us "u # vs" t]) (use assms that in \<open>simp_all add: threadlist_insertbefore_def\<close>)

lemma remove_ok:
  assumes "tl_rel s l (us @ t # vs)"
  obtains s' where "threadlist_remove l t s = Some s'" and "deleted s l us t vs s'"
  by (rule removenode_ok [OF assms]) (use that in \<open>simp_all add: threadlist_remove_def\<close>)

lemma remhead_ok:
  assumes rel: "tl_rel s l (t # vs)"
  obtains s' where "threadlist_remhead l s = Some (Some t, s')" and "deleted s l [] t vs s'"
proof -
  obtain h where h: "get_node (Some (Head l)) s = Some h" "tln_next h = Some (Listnode t)"
    using tl_rel_links [of s l "[]" "t # vs"] rel by (auto simp: get_node_def nxt_def split: option.splits)
  obtain n where n: "get_node (Some (Listnode t)) s = Some n" "tln_next n = Some (node_after l vs)"
    using tl_rel_links [of s l "[] @ [t]" vs] rel by (auto simp: get_node_def nxt_def node_before_def split: option.splits)
  show thesis by (rule removenode_ok [of s l "[]" t vs]) (use rel h n that in \<open>simp_all add: threadlist_remhead_def\<close>)
qed

lemma remhead_empty: "tl_rel s l [] \<Longrightarrow> threadlist_remhead l s = Some (None, s)"
  using tl_rel_links [of s l "[]" "[]"]
  by (auto simp: threadlist_remhead_def tl_rel_def get_node_def nxt_def split: option.splits)

lemma remtail_ok:
  assumes rel: "tl_rel s l (us @ [t])"
  obtains s' where "threadlist_remtail l s = Some (Some t, s')" and "deleted s l us t [] s'"
proof -
  obtain h where h: "get_node (Some (Tail l)) s = Some h" "tln_prev h = Some (Listnode t)"
    using tl_rel_links [of s l "us @ [t]" "[]"] rel by (auto simp: get_node_def prv_def split: option.splits)
  obtain n where n: "get_node (Some (Listnode t)) s = Some n" "tln_prev n = Some (node_before l us)"
    using tl_rel_links [of s l us "[t]"] rel by (auto simp: get_node_def prv_def split: option.splits)
  show thesis by (rule removenode_ok [of s l us t "[]"]) (use rel h n that in \<open>simp_all add: threadlist_remtail_def\<close>)
qed

lemma remtail_empty: "tl_rel s l [] \<Longrightarrow> threadlist_remtail l s = Some (None, s)"
  using tl_rel_links [of s l "[]" "[]"]
  by (auto simp: threadlist_remtail_def tl_rel_def get_node_def prv_def split: option.splits)

lemma isempty_ok: "tl_rel s l ts \<Longrightarrow> threadlist_isempty l s \<longleftrightarrow> ts = []"
  by (auto simp: threadlist_isempty_def tl_rel_def word_unat_eq_iff unat_of_nat_u32)

subsection \<open>The interface: queues of threads\<close>

text \<open>
  A system of queues: every list of \<open>L\<close> holds the threads \<open>q\<close> gives it, no thread of \<open>A\<close> is on two
  lists, and a thread on none is ready to be added.
\<close>

definition tq_all :: "('s \<Rightarrow> 'l \<Rightarrow> 't list \<Rightarrow> bool) \<Rightarrow> ('s \<Rightarrow> 't \<Rightarrow> bool) \<Rightarrow> 'l set \<Rightarrow> 't set \<Rightarrow> ('l \<Rightarrow> 't list) \<Rightarrow> 's \<Rightarrow> bool" where
  "tq_all rel idle L A q s \<longleftrightarrow>
     (\<forall>l \<in> L. rel s l (q l) \<and> set (q l) \<subseteq> A) \<and>
     (\<forall>l \<in> L. \<forall>l' \<in> L. l \<noteq> l' \<longrightarrow> set (q l) \<inter> set (q l') = {}) \<and>
     (\<forall>t \<in> A. (\<forall>l \<in> L. t \<notin> set (q l)) \<longrightarrow> idle s t) \<and> finite A \<and> card A < 2 ^ 32"

lemma tq_all_apart: "tq_all rel idle L A q s \<Longrightarrow> l \<in> L \<Longrightarrow> l' \<in> L \<Longrightarrow> l \<noteq> l' \<Longrightarrow> t \<in> set (q l) \<Longrightarrow> t \<notin> set (q l')"
  unfolding tq_all_def by blast

text \<open>The loop that empties one list into another, as \<open>wchan_wakeall\<close> does with a list of its own.\<close>

partial_function (option) move_threads :: "('l \<Rightarrow> 's \<Rightarrow> ('t option \<times> 's) kres) \<Rightarrow> ('l \<Rightarrow> 't \<Rightarrow> 's \<Rightarrow> 's kres) \<Rightarrow>
    'l \<Rightarrow> 'l \<Rightarrow> 's \<Rightarrow> 's kres" where
  "move_threads rem add src dst s = do {
     (target, s1) \<leftarrow> rem src s;
     case target of None \<Rightarrow> Some s1
     | Some t \<Rightarrow> do { s2 \<leftarrow> add dst t s1; move_threads rem add src dst s2 }
   }"

locale thread_queue =
  fixes rel :: "'s \<Rightarrow> 'l \<Rightarrow> 't list \<Rightarrow> bool" and idle :: "'s \<Rightarrow> 't \<Rightarrow> bool"
    and addhead addtail remove :: "'l \<Rightarrow> 't \<Rightarrow> 's \<Rightarrow> 's kres"
    and remhead remtail :: "'l \<Rightarrow> 's \<Rightarrow> ('t option \<times> 's) kres"
  assumes idle_off: "idle s t \<Longrightarrow> rel s l ts \<Longrightarrow> t \<notin> set ts"
    and rel_distinct: "rel s l ts \<Longrightarrow> distinct ts"
    and addhead_law: "rel s l ts \<Longrightarrow> idle s t \<Longrightarrow> length ts + 1 < 2 ^ 32 \<Longrightarrow>
      \<exists>s'. addhead l t s = Some s' \<and> rel s' l (t # ts) \<and> tq_frame rel idle s s' l (insert t (set ts))"
    and addtail_law: "rel s l ts \<Longrightarrow> idle s t \<Longrightarrow> length ts + 1 < 2 ^ 32 \<Longrightarrow>
      \<exists>s'. addtail l t s = Some s' \<and> rel s' l (ts @ [t]) \<and> tq_frame rel idle s s' l (insert t (set ts))"
    and remhead_law: "rel s l (t # ts) \<Longrightarrow>
      \<exists>s'. remhead l s = Some (Some t, s') \<and> rel s' l ts \<and> idle s' t \<and> tq_frame rel idle s s' l (insert t (set ts))"
    and remhead_none: "rel s l [] \<Longrightarrow> remhead l s = Some (None, s)"
    and remtail_law: "rel s l (ts @ [t]) \<Longrightarrow>
      \<exists>s'. remtail l s = Some (Some t, s') \<and> rel s' l ts \<and> idle s' t \<and> tq_frame rel idle s s' l (insert t (set ts))"
    and remtail_none: "rel s l [] \<Longrightarrow> remtail l s = Some (None, s)"
    and remove_law: "rel s l (us @ t # vs) \<Longrightarrow>
      \<exists>s'. remove l t s = Some s' \<and> rel s' l (us @ vs) \<and> idle s' t \<and> tq_frame rel idle s s' l (insert t (set (us @ vs)))"
begin

lemma added:
  assumes all: "tq_all rel idle L A q s" and l: "l \<in> L" and t: "t \<in> A" "\<And>l. l \<in> L \<Longrightarrow> t \<notin> set (q l)"
    and s': "rel s' l ts" "set ts = insert t (set (q l))" "tq_frame rel idle s s' l (insert t (set (q l)))"
  shows "tq_all rel idle L A (q(l := ts)) s'"
proof -
  have "rel s' l' (q l')" if "l' \<in> L" "l' \<noteq> l" for l'
    using all l t that s'(3) by (auto simp: tq_all_def tq_frame_def)
  moreover have "idle s' u" if "u \<in> A" "\<And>l'. l' \<in> L \<Longrightarrow> u \<notin> set ((q(l := ts)) l')" for u
  proof -
    have u: "u \<notin> set (q l')" if "l' \<in> L" for l'
      using \<open>\<And>l'. l' \<in> L \<Longrightarrow> u \<notin> set ((q(l := ts)) l')\<close> [OF that] s'(2) by (cases "l' = l") auto
    moreover have "u \<noteq> t" using that(2) [OF l] s'(2) by auto
    ultimately show ?thesis using all l that(1) s'(3) by (auto simp: tq_all_def tq_frame_def)
  qed
  ultimately show ?thesis using all l t s'(1,2) unfolding tq_all_def by auto
qed

lemma removed:
  assumes all: "tq_all rel idle L A q s" and l: "l \<in> L"
    and s': "rel s' l ts" "set (q l) = insert t (set ts)" "t \<notin> set ts" "idle s' t" "tq_frame rel idle s s' l (insert t (set ts))"
  shows "tq_all rel idle L A (q(l := ts)) s'"
proof -
  have "rel s' l' (q l')" if "l' \<in> L" "l' \<noteq> l" for l'
  proof -
    have "rel s l' (q l')" "set (q l') \<inter> set (q l) = {}" using all l that by (auto simp: tq_all_def)
    then show ?thesis using that(2) s'(5) unfolding tq_frame_def s'(2) by blast
  qed
  moreover have "idle s' u" if "u \<in> A" "\<And>l'. l' \<in> L \<Longrightarrow> u \<notin> set ((q(l := ts)) l')" for u
  proof (cases "u = t")
    case False
    have u: "u \<notin> set (q l')" if "l' \<in> L" for l'
      using \<open>\<And>l'. l' \<in> L \<Longrightarrow> u \<notin> set ((q(l := ts)) l')\<close> [OF that] s'(2) False by (cases "l' = l") auto
    then show ?thesis using all l that(1) s'(2,5) False by (auto simp: tq_all_def tq_frame_def)
  qed (use s'(4) in simp)
  moreover have "set ts \<subseteq> A" "\<And>l'. l' \<in> L \<Longrightarrow> l' \<noteq> l \<Longrightarrow> set (q l') \<inter> set ts = {}"
    using all l s'(2) unfolding tq_all_def by blast+
  ultimately show ?thesis using all s'(1) unfolding tq_all_def by (auto simp: Int_commute)
qed

lemma room:
  assumes "tq_all rel idle L A q s" and "l \<in> L" and "t \<in> A" and "t \<notin> set (q l)"
  shows "length (q l) + 1 < 2 ^ 32"
proof -
  have "rel s l (q l)" "insert t (set (q l)) \<subseteq> A" "finite A" "card A < 2 ^ 32"
    using assms by (auto simp: tq_all_def)
  then have "card (insert t (set (q l))) < 2 ^ 32" "distinct (q l)"
    using card_mono [of A "insert t (set (q l))"] rel_distinct by auto
  then show ?thesis using assms(4) by (simp add: distinct_card)
qed

lemma all_addhead:
  assumes "tq_all rel idle L A q s" and "l \<in> L" and "t \<in> A" and "\<And>l. l \<in> L \<Longrightarrow> t \<notin> set (q l)"
  obtains s' where "addhead l t s = Some s'" and "tq_all rel idle L A (q(l := t # q l)) s'"
  using addhead_law [of s l "q l" t] room [OF assms(1,2,3)] added [OF assms(1,2,3,4)] assms that
  by (fastforce simp: tq_all_def)

lemma all_addtail:
  assumes "tq_all rel idle L A q s" and "l \<in> L" and "t \<in> A" and "\<And>l. l \<in> L \<Longrightarrow> t \<notin> set (q l)"
  obtains s' where "addtail l t s = Some s'" and "tq_all rel idle L A (q(l := q l @ [t])) s'"
  using addtail_law [of s l "q l" t] room [OF assms(1,2,3)] added [OF assms(1,2,3,4)] assms that
  by (fastforce simp: tq_all_def)

lemma on_list:
  assumes "tq_all rel idle L A q s" and "l \<in> L"
  shows "rel s l (q l)" and "distinct (q l)" and "set (q l) \<subseteq> A"
  using assms rel_distinct by (auto simp: tq_all_def)

lemma all_remhead:
  assumes "tq_all rel idle L A q s" and "l \<in> L"
  obtains (empty) "q l = []" and "remhead l s = Some (None, s)"
  | (first) t ts s' where "q l = t # ts" and "remhead l s = Some (Some t, s')" and "tq_all rel idle L A (q(l := ts)) s'"
proof (cases "q l")
  case (Cons t ts)
  then show thesis
    using remhead_law [of s l t ts] on_list [OF assms] removed [OF assms, of _ ts t] first by auto
qed (use remhead_none on_list [OF assms] empty in auto)

lemma all_remtail:
  assumes "tq_all rel idle L A q s" and "l \<in> L"
  obtains (empty) "q l = []" and "remtail l s = Some (None, s)"
  | (final) t ts s' where "q l = ts @ [t]" and "remtail l s = Some (Some t, s')" and "tq_all rel idle L A (q(l := ts)) s'"
proof (cases "q l" rule: rev_cases)
  case (snoc ts t)
  then show thesis
    using remtail_law [of s l ts t] on_list [OF assms] removed [OF assms, of _ ts t] final by auto
qed (use remtail_none on_list [OF assms] empty in auto)

lemma all_remove:
  assumes "tq_all rel idle L A q s" and "l \<in> L" and "t \<in> set (q l)"
  obtains s' where "remove l t s = Some s'" and "tq_all rel idle L A (q(l := remove1 t (q l))) s'"
proof -
  from split_list_first [OF assms(3)] obtain us vs where q: "q l = us @ t # vs" "t \<notin> set us" by blast
  then have "remove1 t (q l) = us @ vs" by (simp add: remove1_append)
  then show thesis
    using remove_law [of s l us t vs] on_list [OF assms(1,2)] removed [OF assms(1,2), of _ "us @ vs" t] that q by auto
qed

lemma all_move:
  assumes "tq_all rel idle L A q s" and "src \<in> L" and "dst \<in> L" and "src \<noteq> dst"
  obtains s' where "move_threads remhead addtail src dst s = Some s'"
    and "tq_all rel idle L A (q(src := [], dst := q dst @ q src)) s'"
  using assms
proof (induction "q src" arbitrary: q s thesis)
  case Nil
  have "remhead src s = Some (None, s)" by (rule all_remhead [OF Nil(3,4)]) (use Nil(1) in auto)
  then have "move_threads remhead addtail src dst s = Some s" by (simp add: move_threads.simps)
  moreover have "q(src := [], dst := q dst @ q src) = q" using Nil(1) by (auto simp: fun_eq_iff)
  ultimately show ?case using Nil(3) by (intro Nil(2) [of s]) (simp_all only:)
next
  case (Cons t ts)
  let ?q = "q(src := ts)"
  obtain s1 where s1: "remhead src s = Some (Some t, s1)" "tq_all rel idle L A ?q s1"
    by (rule all_remhead [OF Cons(4,5)]) (simp_all add: Cons(2) [symmetric])
  note qs = Cons(2) [symmetric]
  have t: "t \<in> A" "t \<notin> set ts" using on_list [OF Cons(4,5)] unfolding qs by auto
  have t_src: "t \<in> set (q src)" unfolding qs by simp
  have off: "t \<notin> set (?q l)" if "l \<in> L" for l
    using tq_all_apart [OF Cons(4,5) that _ t_src] t(2) by (cases "l = src") auto
  obtain s2 where s2: "addtail dst t s1 = Some s2" "tq_all rel idle L A (?q(dst := ?q dst @ [t])) s2"
    by (rule all_addtail [OF s1(2) Cons(6) t(1) off])
  obtain s' where s': "move_threads remhead addtail src dst s2 = Some s'"
    "tq_all rel idle L A ((?q(dst := ?q dst @ [t]))(src := [], dst := (?q(dst := ?q dst @ [t])) dst @ (?q(dst := ?q dst @ [t])) src)) s'"
    by (rule Cons(1) [OF _ _ s2(2) Cons(5,6,7)]) (use Cons(7) in auto)
  have "(?q(dst := ?q dst @ [t]))(src := [], dst := (?q(dst := ?q dst @ [t])) dst @ (?q(dst := ?q dst @ [t])) src) =
      q(src := [], dst := q dst @ q src)"
    using Cons(7) by (auto simp: fun_eq_iff qs)
  moreover have "move_threads remhead addtail src dst s = Some s'" using s1(1) s2(1) s'(1) by (simp add: move_threads.simps)
  ultimately show ?case using s'(2) by (intro Cons(3) [of s']) (simp_all only:)
qed

end

interpretation tlq: thread_queue tl_rel thread_idle threadlist_addhead threadlist_addtail threadlist_remove
  threadlist_remhead threadlist_remtail
proof unfold_locales
  fix s :: "('a, 'b) tlstore" and l :: 'b and t :: 'a and ts us vs :: "'a list"
  show "thread_idle s t \<Longrightarrow> tl_rel s l ts \<Longrightarrow> t \<notin> set ts" by (rule idle_not_on_list)
  show "tl_rel s l ts \<Longrightarrow> distinct ts" by (simp add: tl_rel_def)
  show "tl_rel s l ts \<Longrightarrow> thread_idle s t \<Longrightarrow> length ts + 1 < 2 ^ 32 \<Longrightarrow> \<exists>s'. threadlist_addhead l t s = Some s' \<and>
      tl_rel s' l (t # ts) \<and> tq_frame tl_rel thread_idle s s' l (insert t (set ts))"
    by (rule addhead_ok) (auto simp: inserted_def)
  show "tl_rel s l ts \<Longrightarrow> thread_idle s t \<Longrightarrow> length ts + 1 < 2 ^ 32 \<Longrightarrow> \<exists>s'. threadlist_addtail l t s = Some s' \<and>
      tl_rel s' l (ts @ [t]) \<and> tq_frame tl_rel thread_idle s s' l (insert t (set ts))"
    by (rule addtail_ok) (auto simp: inserted_def)
  show "tl_rel s l (t # ts) \<Longrightarrow> \<exists>s'. threadlist_remhead l s = Some (Some t, s') \<and> tl_rel s' l ts \<and>
      thread_idle s' t \<and> tq_frame tl_rel thread_idle s s' l (insert t (set ts))"
    by (rule remhead_ok) (auto simp: deleted_def)
  show "tl_rel s l (ts @ [t]) \<Longrightarrow> \<exists>s'. threadlist_remtail l s = Some (Some t, s') \<and> tl_rel s' l ts \<and>
      thread_idle s' t \<and> tq_frame tl_rel thread_idle s s' l (insert t (set ts))"
    by (rule remtail_ok) (auto simp: deleted_def)
  show "tl_rel s l (us @ t # vs) \<Longrightarrow> \<exists>s'. threadlist_remove l t s = Some s' \<and> tl_rel s' l (us @ vs) \<and>
      thread_idle s' t \<and> tq_frame tl_rel thread_idle s s' l (insert t (set (us @ vs)))"
    by (rule remove_ok) (auto simp: deleted_def)
qed (simp_all add: remhead_empty remtail_empty)

definition tl_sys :: "'l set \<Rightarrow> 't set \<Rightarrow> ('l \<Rightarrow> 't list) \<Rightarrow> ('t, 'l) tlstore \<Rightarrow> bool" where
  "tl_sys = tq_all tl_rel thread_idle"

definition tl_example :: "(nat, nat) tlstore" where
  "tl_example = fold threadlist_init [0, 1] (fold threadlistnode_init [0, 1, 2] \<lparr>tnodes = \<lambda>_. None, tl_count = \<lambda>_. 0\<rparr>)"

lemma tl_example_sys: "tl_sys {0, 1} {0, 1, 2} (\<lambda>_. []) tl_example"
  by (simp add: tl_sys_def tq_all_def tl_rel_def thread_idle_def tl_example_def threadlist_init_def threadlistnode_init_def
    tl_nodes_def nxt_def prv_def slf_def)

lemma insertafter_sys:
  assumes sys: "tl_sys L A q s" and l: "l \<in> L" "q l = us @ u # vs" and t: "t \<in> A" "\<And>l. l \<in> L \<Longrightarrow> t \<notin> set (q l)"
  obtains s' where "threadlist_insertafter l u t s = Some s'" and "tl_sys L A (q(l := us @ u # t # vs)) s'"
proof -
  have "thread_idle s t" "tl_rel s l (us @ u # vs)" using sys l t by (auto simp: tl_sys_def tq_all_def)
  moreover have "length (us @ u # vs) + 1 < 2 ^ 32"
    using tlq.room [OF sys [unfolded tl_sys_def] l(1) t(1) t(2) [OF l(1)]] by (simp add: l(2))
  ultimately obtain s' where s': "threadlist_insertafter l u t s = Some s'" "inserted s l (us @ [u]) t vs s'"
    using insertafter_ok [of s l us u vs t] by auto
  have "tl_sys L A (q(l := us @ u # t # vs)) s'"
    unfolding tl_sys_def by (rule tlq.added [OF sys [unfolded tl_sys_def] l(1) t]) (use s'(2) l(2) in \<open>auto simp: inserted_def\<close>)
  with s'(1) show thesis by (rule that)
qed

lemma insertbefore_sys:
  assumes sys: "tl_sys L A q s" and l: "l \<in> L" "q l = us @ u # vs" and t: "t \<in> A" "\<And>l. l \<in> L \<Longrightarrow> t \<notin> set (q l)"
  obtains s' where "threadlist_insertbefore l t u s = Some s'" and "tl_sys L A (q(l := us @ t # u # vs)) s'"
proof -
  have "thread_idle s t" "tl_rel s l (us @ u # vs)" using sys l t by (auto simp: tl_sys_def tq_all_def)
  moreover have "length (us @ u # vs) + 1 < 2 ^ 32"
    using tlq.room [OF sys [unfolded tl_sys_def] l(1) t(1) t(2) [OF l(1)]] by (simp add: l(2))
  ultimately obtain s' where s': "threadlist_insertbefore l t u s = Some s'" "inserted s l us t (u # vs) s'"
    using insertbefore_ok [of s l us u vs t] by auto
  have "tl_sys L A (q(l := us @ t # u # vs)) s'"
    unfolding tl_sys_def by (rule tlq.added [OF sys [unfolded tl_sys_def] l(1) t]) (use s'(2) l(2) in \<open>auto simp: inserted_def\<close>)
  with s'(1) show thesis by (rule that)
qed

lemmas sys_addhead = tlq.all_addhead [folded tl_sys_def]
lemmas sys_addtail = tlq.all_addtail [folded tl_sys_def]
lemmas sys_remhead = tlq.all_remhead [folded tl_sys_def]
lemmas sys_remtail = tlq.all_remtail [folded tl_sys_def]
lemmas sys_remove = tlq.all_remove [folded tl_sys_def]
lemmas sys_move = tlq.all_move [folded tl_sys_def]

lemma tl_sys_cong: "(\<And>l. l \<in> L \<Longrightarrow> q' l = q l) \<Longrightarrow> tl_sys L A q' s = tl_sys L A q s"
  unfolding tl_sys_def tq_all_def by (intro conj_cong ball_cong refl) auto

lemma tl_sys_rel: "tl_sys L A q s \<Longrightarrow> l \<in> L \<Longrightarrow> tl_rel s l (q l)"
  "tl_sys L A q s \<Longrightarrow> l \<in> L \<Longrightarrow> t \<in> set (q l) \<Longrightarrow> t \<in> A"
  by (auto simp: tl_sys_def tq_all_def)

lemma tl_sys_drop: "tl_sys (insert l L) A q s \<Longrightarrow> q l = [] \<Longrightarrow> tl_sys L A q s"
  by (auto simp: tl_sys_def tq_all_def)

text \<open>Changes to nodes that are on no list of the system.\<close>

lemma tl_rel_other:
  assumes rel: "tl_rel s l ts" and dom: "\<And>x. x \<in> set (tl_nodes l ts) \<Longrightarrow> tnodes s' x = tnodes s x" and count: "tl_count s' l = tl_count s l"
  shows "tl_rel s' l ts"
proof -
  have e: "nxt s' x = nxt s x" "prv s' x = prv s x" "slf s' x = slf s x" if "x \<in> set (tl_nodes l ts)" for x
    using dom [OF that] by (simp_all add: nxt_def prv_def slf_def)
  have "chain (nxt s') (prv s') (tl_nodes l ts) \<longleftrightarrow> chain (nxt s) (prv s) (tl_nodes l ts)"
    by (rule chain_cong) (auto intro!: e dest: in_set_butlastD in_set_tlD)
  moreover have "set (tl_nodes l ts) \<subseteq> dom (tnodes s') \<longleftrightarrow> set (tl_nodes l ts) \<subseteq> dom (tnodes s)"
    using dom by (auto simp: dom_def subset_iff)
  moreover have "slf s' (Listnode t) = slf s (Listnode t)" if "t \<in> set ts" for t using e(3) that by (simp add: set_tl_nodes)
  ultimately show ?thesis using rel e count by (simp add: tl_rel_def set_tl_nodes)
qed

lemma sys_init:
  assumes sys: "tl_sys L A q s" and l: "l \<notin> L"
  shows "tl_sys (insert l L) A (q(l := [])) (threadlist_init l s)"
proof -
  have "tl_rel (threadlist_init l s) l' (q l')" if "l' \<in> L" for l'
    by (rule tl_rel_other [OF tl_sys_rel(1) [OF sys that]]) (use l that in \<open>auto simp: threadlist_init_def set_tl_nodes\<close>)
  moreover have "tl_rel (threadlist_init l s) l []"
    by (simp add: tl_rel_def tl_nodes_def threadlist_init_def nxt_def prv_def slf_def)
  moreover have "thread_idle (threadlist_init l s) t \<longleftrightarrow> thread_idle s t" for t
    by (auto simp: thread_idle_def threadlist_init_def nxt_def prv_def slf_def)
  ultimately show ?thesis using sys l unfolding tl_sys_def tq_all_def by auto
qed

lemma sys_node_init:
  assumes sys: "tl_sys L A q s" and t: "t \<notin> A" and card: "card (insert t A) < 2 ^ 32"
  shows "tl_sys L (insert t A) q (threadlistnode_init t s)"
proof -
  have "tl_rel (threadlistnode_init t s) l (q l)" if "l \<in> L" for l
    by (rule tl_rel_other [OF tl_sys_rel(1) [OF sys that]])
      (use t tl_sys_rel(2) [OF sys that] in \<open>auto simp: threadlistnode_init_def set_tl_nodes\<close>)
  moreover have "thread_idle (threadlistnode_init t s) u \<longleftrightarrow> u = t \<or> thread_idle s u" for u
    by (auto simp: thread_idle_def threadlistnode_init_def nxt_def prv_def slf_def)
  ultimately show ?thesis using sys card unfolding tl_sys_def tq_all_def by auto
qed

lemma sys_node_free:
  assumes sys: "tl_sys L A q s" and t: "\<And>l. l \<in> L \<Longrightarrow> t \<notin> set (q l)"
  shows "tl_sys L (A - {t}) q (s\<lparr>tnodes := (tnodes s)(Listnode t := None)\<rparr>)"
proof -
  let ?s = "s\<lparr>tnodes := (tnodes s)(Listnode t := None)\<rparr>"
  have "tl_rel ?s l (q l)" if "l \<in> L" for l
    by (rule tl_rel_other [OF tl_sys_rel(1) [OF sys that]]) (use t [OF that] in \<open>auto simp: set_tl_nodes\<close>)
  moreover have "thread_idle ?s u \<longleftrightarrow> thread_idle s u" if "u \<noteq> t" for u
    using that by (auto simp: thread_idle_def nxt_def prv_def slf_def)
  moreover have "card (A - {t}) < 2 ^ 32" if "finite A" "card A < 2 ^ 32"
    using card_mono [of A "A - {t}"] that by simp
  moreover have "set (q l) \<subseteq> A - {t}" if "l \<in> L" for l using t [OF that] tl_sys_rel(2) [OF sys that] by auto
  ultimately show ?thesis using sys unfolding tl_sys_def tq_all_def by auto
qed

text \<open>
  C23. The pointer operations of thread lists refine those of ordinary lists.  In a system of lists
  that share no thread, adding a thread that is on no list puts it at the head, at the tail, or
  right after or right before a given thread; taking away a thread removes exactly that one; and
  every other list of the system is as before.  The first loop of \<open>wchan_wakeall\<close>, which moves all
  threads of one list to another, ends and keeps their order.
\<close>

theorem threadlist_refines_lists:
  assumes sys: "tl_sys L A q s" and l: "l \<in> L"
  shows "(t \<in> A \<and> (\<forall>l \<in> L. t \<notin> set (q l)) \<longrightarrow>
      (\<exists>s'. threadlist_addhead l t s = Some s' \<and> tl_sys L A (q(l := t # q l)) s') \<and>
      (\<exists>s'. threadlist_addtail l t s = Some s' \<and> tl_sys L A (q(l := q l @ [t])) s') \<and>
      (\<forall>us u vs. q l = us @ u # vs \<longrightarrow>
        (\<exists>s'. threadlist_insertafter l u t s = Some s' \<and> tl_sys L A (q(l := us @ u # t # vs)) s') \<and>
        (\<exists>s'. threadlist_insertbefore l t u s = Some s' \<and> tl_sys L A (q(l := us @ t # u # vs)) s'))) \<and>
    (if q l = [] then threadlist_remhead l s = Some (None, s) \<and> threadlist_remtail l s = Some (None, s)
     else (\<exists>s'. threadlist_remhead l s = Some (Some (hd (q l)), s') \<and> tl_sys L A (q(l := tl (q l))) s') \<and>
       (\<exists>s'. threadlist_remtail l s = Some (Some (last (q l)), s') \<and> tl_sys L A (q(l := butlast (q l))) s')) \<and>
    (t \<in> set (q l) \<longrightarrow> (\<exists>s'. threadlist_remove l t s = Some s' \<and> tl_sys L A (q(l := remove1 t (q l))) s')) \<and>
    (threadlist_isempty l s \<longleftrightarrow> q l = []) \<and>
    (l' \<in> L \<and> l' \<noteq> l \<longrightarrow>
      (\<exists>s'. move_threads threadlist_remhead threadlist_addtail l l' s = Some s' \<and> tl_sys L A (q(l := [], l' := q l' @ q l)) s'))"
    (is "?add \<and> ?rem \<and> ?del \<and> ?emp \<and> ?move")
proof -
  have ?add
  proof (rule impI, elim conjE)
    assume t: "t \<in> A" "\<forall>l \<in> L. t \<notin> set (q l)"
    then have "\<And>l. l \<in> L \<Longrightarrow> t \<notin> set (q l)" by simp
    note t' = t(1) this
    show "(\<exists>s'. threadlist_addhead l t s = Some s' \<and> tl_sys L A (q(l := t # q l)) s') \<and>
      (\<exists>s'. threadlist_addtail l t s = Some s' \<and> tl_sys L A (q(l := q l @ [t])) s') \<and>
      (\<forall>us u vs. q l = us @ u # vs \<longrightarrow>
        (\<exists>s'. threadlist_insertafter l u t s = Some s' \<and> tl_sys L A (q(l := us @ u # t # vs)) s') \<and>
        (\<exists>s'. threadlist_insertbefore l t u s = Some s' \<and> tl_sys L A (q(l := us @ t # u # vs)) s'))"
      using sys_addhead [OF sys l t'] sys_addtail [OF sys l t'] insertafter_sys [OF sys l _ t'] insertbefore_sys [OF sys l _ t']
      by metis
  qed
  moreover have ?rem
  proof (cases "q l = []")
    case True
    then show ?thesis using sys_remhead [OF sys l] sys_remtail [OF sys l] by (metis list.distinct(1) snoc_eq_iff_butlast)
  next
    case False
    then have "(\<exists>s'. threadlist_remhead l s = Some (Some (hd (q l)), s') \<and> tl_sys L A (q(l := tl (q l))) s') \<and>
       (\<exists>s'. threadlist_remtail l s = Some (Some (last (q l)), s') \<and> tl_sys L A (q(l := butlast (q l))) s')"
      using sys_remhead [OF sys l] sys_remtail [OF sys l] by (metis butlast_snoc last_snoc list.sel(1,3))
    with False show ?thesis by (simp only: if_False)
  qed
  moreover have ?del using sys_remove [OF sys l] by metis
  moreover have ?emp using sys l by (simp add: isempty_ok tl_sys_def tq_all_def)
  moreover have ?move using sys_move [OF sys l] by metis
  ultimately show ?thesis by blast
qed

theorem threadlist_refines_lists_witness:
  "tl_sys {0, 1} {0, 1, 2} (\<lambda>_. []) tl_example \<and>
   (\<exists>s'. threadlist_addtail 0 2 tl_example = Some s' \<and> tl_sys {0, 1} {0, 1, 2} ((\<lambda>_. [])(0 := [2])) s' \<and>
     (\<exists>s''. threadlist_remhead 0 s' = Some (Some 2, s'')))"
proof -
  obtain s' where s': "threadlist_addtail 0 2 tl_example = Some s'" "tl_sys {0, 1} {0, 1, 2} ((\<lambda>_. [])(0 := [2])) s'"
    using threadlist_refines_lists [OF tl_example_sys, of 0 2] by auto
  then show ?thesis using threadlist_refines_lists [OF s'(2), of 0 0 1] tl_example_sys by auto
qed

lemma forall_loop_fails:
  assumes rel: "tl_rel s l ts"
  shows "ts = us @ vs \<Longrightarrow> forall_loop s (slf s (node_after l vs)) acc = None"
proof (induction vs arbitrary: us acc)
  case Nil
  then show ?case using rel by (simp add: tl_rel_def forall_loop.simps)
next
  case (Cons v vs)
  have rel': "tl_rel s l ((us @ [v]) @ vs)" using rel Cons(2) by simp
  have v: "slf s (Listnode v) = Some v" using rel Cons(2) by (simp add: tl_rel_def)
  obtain n n' where "tnodes s (Listnode v) = Some n" "tln_next n = Some (node_after l vs)"
    "tnodes s (node_after l vs) = Some n'" "tln_self n' = slf s (node_after l vs)"
    using tl_rel_links [OF rel'] by (auto simp: nxt_def slf_def)
  then show ?case using v Cons(1) [of "us @ [v]"] Cons(2) by (simp add: forall_loop.simps get_node_def)
qed

lemma forall_rev_loop_fails:
  assumes rel: "tl_rel s l ts"
  shows "ts = us @ vs \<Longrightarrow> forall_rev_loop s (slf s (node_before l us)) acc = None"
proof (induction us arbitrary: vs acc rule: rev_induct)
  case Nil
  then show ?case using rel by (simp add: tl_rel_def forall_rev_loop.simps)
next
  case (snoc v us)
  have rel': "tl_rel s l (us @ v # vs)" using rel snoc(2) by simp
  have v: "slf s (Listnode v) = Some v" using rel snoc(2) by (simp add: tl_rel_def)
  obtain n n' where "tnodes s (Listnode v) = Some n" "tln_prev n = Some (node_before l us)"
    "tnodes s (node_before l us) = Some n'" "tln_self n' = slf s (node_before l us)"
    using tl_rel_links [OF rel'] by (auto simp: prv_def slf_def)
  then show ?case using v snoc(1) [of "v # vs"] snoc(2) by (simp add: forall_rev_loop.simps get_node_def)
qed

text \<open>
  C24. The iteration macros never finish on a well-formed list, not even on an empty one: the bookend
  they must reach has no thread of its own, and the loop condition reads through that null pointer.
\<close>

theorem THREADLIST_FORALL_fails:
  assumes "tl_rel s l ts"
  shows "THREADLIST_FORALL l s = None \<and> THREADLIST_FORALL_REV l s = None"
proof

  obtain h n where "tnodes s (Head l) = Some h" "tln_next h = Some (node_after l ts)"
    "tnodes s (node_after l ts) = Some n" "tln_self n = slf s (node_after l ts)"
    using tl_rel_links [of s l "[]" ts] assms by (auto simp: nxt_def slf_def)
  then show "THREADLIST_FORALL l s = None"
    using forall_loop_fails [OF assms, of "[]" ts] by (simp add: THREADLIST_FORALL_def get_node_def)
  obtain h n where "tnodes s (Tail l) = Some h" "tln_prev h = Some (node_before l ts)"
    "tnodes s (node_before l ts) = Some n" "tln_self n = slf s (node_before l ts)"
    using tl_rel_links [of s l ts "[]"] assms by (auto simp: prv_def slf_def)
  then show "THREADLIST_FORALL_REV l s = None"
    using forall_rev_loop_fails [OF assms, of ts "[]"] by (simp add: THREADLIST_FORALL_REV_def get_node_def)
qed

theorem THREADLIST_FORALL_fails_witness:
  "tl_rel tl_example 0 [] \<and> THREADLIST_FORALL 0 tl_example = None \<and> THREADLIST_FORALL_REV 0 tl_example = None"
proof -
  have "tl_rel tl_example 0 []" using tl_example_sys by (simp add: tl_sys_def tq_all_def)
  with THREADLIST_FORALL_fails [OF this] show ?thesis by simp
qed

end
