(* ===== verification/Spinlock.thy ===== *)
theory Spinlock
  imports Kernel_Prelude
begin

text \<open>
  Interrupt levels (src/kern/thread/spl.c) and spinlocks (src/kern/thread/spinlock.c), with the
  thread structure of src/kern/include/thread.h whose interrupt fields they use.

  The state has the threads by address, the interrupt switch of every processor, and the spinlocks.
  Every function takes \<open>cur\<close>, the register that holds \<open>curthread\<close>; it is the null pointer before
  the first thread exists, which is what \<open>CURCPU_EXISTS\<close> tests.  A processor that spins on a lock
  nobody releases does not come back, so the outcome is \<open>None\<close>.  The interleaving of several
  processors on one lock is the step relation \<open>spin_step\<close>.
\<close>

subsection \<open>Threads and the machine\<close>

type_synonym tid = u32
type_synonym cpuid = nat

datatype threadstate = S_RUN | S_READY | S_SLEEP | S_ZOMBIE

text \<open>
  What \<open>t_context\<close> resumes: nothing yet, \<open>thread_startup\<close> with its arguments, or the middle of \<open>thread_switch\<close> with the
  value of its local variable \<open>spl\<close>.
\<close>

datatype switchframe = No_frame | Startup u32 u32 u32 | Switch int

record thread =
  t_name :: u32
  t_wchan_name :: "string option"
  t_state :: threadstate
  t_stack :: u32
  t_guard :: "u32 list"
  t_badfaultfunc :: u32
  t_context :: switchframe
  t_cpu :: "cpuid option"
  t_proc :: u32
  t_in_interrupt :: bool
  t_curspl :: int
  t_iplhigh_count :: int

record spinlock =
  lk_lock :: u32
  lk_holder :: "cpuid option"

datatype lkid = Lk_runqueue cpuid | Lk_ipi cpuid | Lk_wchan u32 | Lk_sem u32 | Lk_lock u32

record ksync =
  thr :: "tid \<Rightarrow> thread option"
  irq :: "cpuid \<Rightarrow> bool"
  lks :: "lkid \<Rightarrow> spinlock"

definition IPL_NONE :: int where
  "IPL_NONE = 0"

definition IPL_HIGH :: int where
  "IPL_HIGH = 1"

definition put_thr :: "tid \<Rightarrow> thread \<Rightarrow> ('a) ksync_scheme \<Rightarrow> ('a) ksync_scheme" where
  "put_thr t th s = s\<lparr>thr := (thr s)(t \<mapsto> th)\<rparr>"

definition put_lk :: "lkid \<Rightarrow> spinlock \<Rightarrow> ('a) ksync_scheme \<Rightarrow> ('a) ksync_scheme" where
  "put_lk lk l s = s\<lparr>lks := (lks s)(lk := l)\<rparr>"

definition set_irq :: "cpuid \<Rightarrow> bool \<Rightarrow> ('a) ksync_scheme \<Rightarrow> ('a) ksync_scheme" where
  "set_irq c b s = s\<lparr>irq := (irq s)(c := b)\<rparr>"

text \<open>\<open>curcpu\<close>: the processor of the current thread.\<close>

definition curcpu :: "tid \<Rightarrow> ('a) ksync_scheme \<Rightarrow> cpuid kres" where
  "curcpu cur s = do { th \<leftarrow> thr s cur; t_cpu th }"

subsection \<open>Interrupt priority levels\<close>

definition splraise :: "tid \<Rightarrow> int \<Rightarrow> int \<Rightarrow> ('a) ksync_scheme \<Rightarrow> ('a) ksync_scheme kres" where
  "splraise cur oldspl newspl s = do {
     kassert (oldspl = IPL_NONE);
     kassert (newspl = IPL_HIGH);
     if cur = 0 then Some s
     else do {
       th \<leftarrow> thr s cur;
       c \<leftarrow> curcpu cur s;
       let s1 = (if t_iplhigh_count th = 0 then set_irq c False s else s);
       Some (put_thr cur (th\<lparr>t_iplhigh_count := t_iplhigh_count th + 1\<rparr>) s1)
     }
   }"

definition spllower :: "tid \<Rightarrow> int \<Rightarrow> int \<Rightarrow> ('a) ksync_scheme \<Rightarrow> ('a) ksync_scheme kres" where
  "spllower cur oldspl newspl s = do {
     kassert (oldspl = IPL_HIGH);
     kassert (newspl = IPL_NONE);
     if cur = 0 then Some s
     else do {
       th \<leftarrow> thr s cur;
       c \<leftarrow> curcpu cur s;
       let s1 = put_thr cur (th\<lparr>t_iplhigh_count := t_iplhigh_count th - 1\<rparr>) s;
       Some (if t_iplhigh_count th - 1 = 0 then set_irq c True s1 else s1)
     }
   }"

definition splx :: "tid \<Rightarrow> int \<Rightarrow> ('a) ksync_scheme \<Rightarrow> (int \<times> ('a) ksync_scheme) kres" where
  "splx cur spl s = do {
     th \<leftarrow> thr s cur;
     if t_curspl th < spl then do {
       s1 \<leftarrow> splraise cur (t_curspl th) spl s;
       th1 \<leftarrow> thr s1 cur;
       Some (t_curspl th1, put_thr cur (th1\<lparr>t_curspl := spl\<rparr>) s1)
     } else if t_curspl th > spl then do {
       let ret = t_curspl th;
       s2 \<leftarrow> spllower cur ret spl (put_thr cur (th\<lparr>t_curspl := spl\<rparr>) s);
       Some (ret, s2)
     } else Some (spl, s)
   }"

definition spl0 :: "tid \<Rightarrow> ('a) ksync_scheme \<Rightarrow> (int \<times> ('a) ksync_scheme) kres" where
  "spl0 cur s = splx cur IPL_NONE s"

definition splhigh :: "tid \<Rightarrow> ('a) ksync_scheme \<Rightarrow> (int \<times> ('a) ksync_scheme) kres" where
  "splhigh cur s = splx cur IPL_HIGH s"

subsection \<open>Spinlocks\<close>

definition spinlock_init :: "lkid \<Rightarrow> ('a) ksync_scheme \<Rightarrow> ('a) ksync_scheme" where
  "spinlock_init lk s = put_lk lk \<lparr>lk_lock = 0, lk_holder = None\<rparr> s"

definition spinlock_cleanup :: "lkid \<Rightarrow> ('a) ksync_scheme \<Rightarrow> unit kres" where
  "spinlock_cleanup lk s = do {
     kassert (lk_holder (lks s lk) = None);
     kassert (lk_lock (lks s lk) = 0)
   }"

definition spinlock_data_get :: "spinlock \<Rightarrow> u32" where
  "spinlock_data_get l = lk_lock l"

definition spinlock_data_set :: "u32 \<Rightarrow> spinlock \<Rightarrow> spinlock" where
  "spinlock_data_set v l = l\<lparr>lk_lock := v\<rparr>"

text \<open>
  Load-linked and store-conditional; \<open>sc\<close> says whether the store succeeded.  A failed store changes
  nothing and reports the lock as taken.
\<close>

definition spinlock_data_testandset :: "bool \<Rightarrow> spinlock \<Rightarrow> u32 \<times> spinlock" where
  "spinlock_data_testandset sc l = (if sc then (lk_lock l, l\<lparr>lk_lock := 1\<rparr>) else (1, l))"

partial_function (option) spin_loop :: "spinlock \<Rightarrow> spinlock kres" where
  "spin_loop l =
     (if spinlock_data_get l \<noteq> 0 then spin_loop l
      else let (old, l') = spinlock_data_testandset True l in if old \<noteq> 0 then spin_loop l' else Some l')"

definition spinlock_acquire :: "lkid \<Rightarrow> tid \<Rightarrow> ('a) ksync_scheme \<Rightarrow> ('a) ksync_scheme kres" where
  "spinlock_acquire lk cur s0 = do {
     s \<leftarrow> splraise cur IPL_NONE IPL_HIGH s0;
     mycpu \<leftarrow> (if cur \<noteq> 0 then do {
                 c \<leftarrow> curcpu cur s;
                 kassert (lk_holder (lks s lk) \<noteq> Some c);
                 Some (Some c)
               } else Some None);
     l \<leftarrow> spin_loop (lks s lk);
     Some (put_lk lk (l\<lparr>lk_holder := mycpu\<rparr>) s)
   }"

definition spinlock_release :: "lkid \<Rightarrow> tid \<Rightarrow> ('a) ksync_scheme \<Rightarrow> ('a) ksync_scheme kres" where
  "spinlock_release lk cur s = do {
     (if cur \<noteq> 0 then do {
        c \<leftarrow> curcpu cur s;
        kassert (lk_holder (lks s lk) = Some c)
      } else Some ());
     spllower cur IPL_HIGH IPL_NONE (put_lk lk (spinlock_data_set 0 ((lks s lk)\<lparr>lk_holder := None\<rparr>)) s)
   }"

definition spinlock_do_i_hold :: "lkid \<Rightarrow> tid \<Rightarrow> ('a) ksync_scheme \<Rightarrow> bool kres" where
  "spinlock_do_i_hold lk cur s =
     (if cur = 0 then Some True else do { c \<leftarrow> curcpu cur s; Some (lk_holder (lks s lk) = Some c) })"

subsection \<open>One processor: what the calls do\<close>

lemma put_simps [simp]:
  "thr (put_thr t th s) = (thr s)(t \<mapsto> th)" "irq (put_thr t th s) = irq s" "lks (put_thr t th s) = lks s"
  "thr (put_lk lk l s) = thr s" "irq (put_lk lk l s) = irq s" "lks (put_lk lk l s) = (lks s)(lk := l)"
  "thr (set_irq c b s) = thr s" "irq (set_irq c b s) = (irq s)(c := b)" "lks (set_irq c b s) = lks s"
  "ksync.more (put_thr t th s) = ksync.more s" "ksync.more (put_lk lk l s) = ksync.more s" "ksync.more (set_irq c b s) = ksync.more s"
  by (simp_all add: put_thr_def put_lk_def set_irq_def)

text \<open>The loop ends exactly when it finds the lock free.\<close>

lemma spin_loop_free: "lk_lock l = 0 \<Longrightarrow> spin_loop l = Some (l\<lparr>lk_lock := 1\<rparr>)"
  by (subst spin_loop.simps) (simp add: spinlock_data_get_def spinlock_data_testandset_def)

lemma spin_loop_returns:
  assumes "spin_loop l = Some l'"
  shows "lk_lock l = 0 \<and> l' = l\<lparr>lk_lock := 1\<rparr>"
proof (rule spin_loop.raw_induct [OF _ assms])
  fix f :: "spinlock \<Rightarrow> spinlock kres" and l r
  assume IH: "\<And>l r. f l = Some r \<Longrightarrow> lk_lock l = 0 \<and> r = l\<lparr>lk_lock := 1\<rparr>"
    and step: "(if spinlock_data_get l \<noteq> 0 then f l
      else let (old, l') = spinlock_data_testandset True l in if old \<noteq> 0 then f l' else Some l') = Some r"
  show "lk_lock l = 0 \<and> r = l\<lparr>lk_lock := 1\<rparr>"
    using IH [of l r] step by (cases "lk_lock l = 0") (auto simp: spinlock_data_get_def spinlock_data_testandset_def)
qed

text \<open>The current thread runs on a processor; its level and the processor's switch agree with the locks the processor holds.\<close>

definition held :: "cpuid \<Rightarrow> ('a) ksync_scheme \<Rightarrow> lkid set" where
  "held c s = {lk. lk_holder (lks s lk) = Some c}"

definition lks_ok :: "('a) ksync_scheme \<Rightarrow> bool" where
  "lks_ok s \<longleftrightarrow> (\<forall>lk. lk_holder (lks s lk) = None \<longleftrightarrow> lk_lock (lks s lk) = 0)"

definition ipl_ok :: "tid \<Rightarrow> cpuid \<Rightarrow> ('a) ksync_scheme \<Rightarrow> bool" where
  "ipl_ok cur c s \<longleftrightarrow> cur \<noteq> 0 \<and> finite (held c s) \<and>
     (\<exists>th. thr s cur = Some th \<and> t_cpu th = Some c \<and> t_curspl th \<in> {IPL_NONE, IPL_HIGH} \<and>
       t_iplhigh_count th = t_curspl th + int (card (held c s)) \<and> (irq s c \<longleftrightarrow> t_iplhigh_count th = 0))"

lemma ipl_okE:
  assumes "ipl_ok cur c s"
  obtains th where "cur \<noteq> 0" "finite (held c s)" "thr s cur = Some th" "t_cpu th = Some c"
    "t_curspl th = 0 \<or> t_curspl th = 1" "t_iplhigh_count th = t_curspl th + int (card (held c s))"
    "irq s c \<longleftrightarrow> t_iplhigh_count th = 0"
  using assms that by (auto simp: ipl_ok_def IPL_NONE_def IPL_HIGH_def)

lemma spinlock_acquire_eq:
  assumes "cur \<noteq> 0" and "thr s cur = Some th" and "t_cpu th = Some c" and "lk_lock (lks s lk) = 0" and "lk_holder (lks s lk) = None"
  shows "spinlock_acquire lk cur s = Some (put_lk lk \<lparr>lk_lock = 1, lk_holder = Some c\<rparr>
    (put_thr cur (th\<lparr>t_iplhigh_count := t_iplhigh_count th + 1\<rparr>) (if t_iplhigh_count th = 0 then set_irq c False s else s)))"
proof -
  obtain l where "lks s lk = l" "spin_loop l = Some (l\<lparr>lk_lock := 1\<rparr>)" using spin_loop_free assms(4) by blast
  then show ?thesis using assms
    by (cases "lks s lk") (auto simp: spinlock_acquire_def splraise_def curcpu_def IPL_NONE_def IPL_HIGH_def)
qed

lemma spinlock_release_eq:
  assumes "cur \<noteq> 0" and "thr s cur = Some th" and "t_cpu th = Some c" and "lk_holder (lks s lk) = Some c"
  shows "spinlock_release lk cur s = Some ((if t_iplhigh_count th = 1 then set_irq c True else id)
    (put_thr cur (th\<lparr>t_iplhigh_count := t_iplhigh_count th - 1\<rparr>) (put_lk lk \<lparr>lk_lock = 0, lk_holder = None\<rparr> s)))"
  using assms by (cases "lks s lk") (simp add: spinlock_release_def spllower_def curcpu_def spinlock_data_set_def IPL_NONE_def IPL_HIGH_def)

lemma splhigh_eq:
  assumes "cur \<noteq> 0" and "thr s cur = Some th" and "t_cpu th = Some c" and "t_curspl th = 0"
  shows "splhigh cur s = Some (0, put_thr cur (th\<lparr>t_iplhigh_count := t_iplhigh_count th + 1, t_curspl := 1\<rparr>)
    (put_thr cur (th\<lparr>t_iplhigh_count := t_iplhigh_count th + 1\<rparr>) (if t_iplhigh_count th = 0 then set_irq c False s else s)))"
  using assms by (simp add: splhigh_def splx_def splraise_def curcpu_def IPL_NONE_def IPL_HIGH_def)

lemma splhigh_same: "thr s cur = Some th \<Longrightarrow> t_curspl th = 1 \<Longrightarrow> splhigh cur s = Some (1, s)"
  by (simp add: splhigh_def splx_def IPL_HIGH_def)

lemma splx_same: "thr s cur = Some th \<Longrightarrow> t_curspl th = spl \<Longrightarrow> splx cur spl s = Some (spl, s)"
  by (simp add: splx_def)

lemma splx_lower_eq:
  assumes "cur \<noteq> 0" and "thr s cur = Some th" and "t_cpu th = Some c" and "t_curspl th = 1"
  shows "splx cur 0 s = Some (1, (if t_iplhigh_count th = 1 then set_irq c True else id)
    (put_thr cur (th\<lparr>t_curspl := 0, t_iplhigh_count := t_iplhigh_count th - 1\<rparr>) (put_thr cur (th\<lparr>t_curspl := 0\<rparr>) s)))"
  using assms by (simp add: splx_def spllower_def curcpu_def IPL_NONE_def IPL_HIGH_def)

lemma held_put_lk:
  "held c (put_lk lk l s) = (if lk_holder l = Some c then insert lk (held c s) else held c s - {lk})"
  by (auto simp: held_def)

lemma held_other [simp]: "held c (put_thr t th s) = held c s" "held c (set_irq d b s) = held c s"
  by (simp_all add: held_def)

lemma spinlock_acquire_ok:
  assumes ok: "ipl_ok cur c s" and free: "lk_lock (lks s lk) = 0" "lk_holder (lks s lk) = None"
  obtains s' where "spinlock_acquire lk cur s = Some s'" and "ipl_ok cur c s'" and "held c s' = insert lk (held c s)"
proof -
  from ok obtain th where th: "cur \<noteq> 0" "finite (held c s)" "thr s cur = Some th" "t_cpu th = Some c"
    "t_curspl th = 0 \<or> t_curspl th = 1" "t_iplhigh_count th = t_curspl th + int (card (held c s))" "irq s c \<longleftrightarrow> t_iplhigh_count th = 0"
    by (rule ipl_okE)
  have new: "lk \<notin> held c s" using free(2) by (simp add: held_def)
  show thesis
    by (rule that [OF spinlock_acquire_eq [OF th(1,3,4) free]])
      (use th new in \<open>auto simp: ipl_ok_def held_put_lk IPL_NONE_def IPL_HIGH_def\<close>)
qed

lemma spinlock_release_ok:
  assumes ok: "ipl_ok cur c s" and mine: "lk \<in> held c s"
  obtains s' where "spinlock_release lk cur s = Some s'" and "ipl_ok cur c s'" and "held c s' = held c s - {lk}"
proof -
  from ok obtain th where th: "cur \<noteq> 0" "finite (held c s)" "thr s cur = Some th" "t_cpu th = Some c"
    "t_curspl th = 0 \<or> t_curspl th = 1" "t_iplhigh_count th = t_curspl th + int (card (held c s))" "irq s c \<longleftrightarrow> t_iplhigh_count th = 0"
    by (rule ipl_okE)
  have pos: "card (held c s) > 0" using mine th(2) card_gt_0_iff by blast
  then have card: "int (card (held c s - {lk})) = int (card (held c s)) - 1"
    using card_Diff_singleton [OF mine] by simp
  have lk: "lk_holder (lks s lk) = Some c" using mine by (simp add: held_def)
  show thesis
    by (rule that [OF spinlock_release_eq [OF th(1,3,4) lk]])
      (use th card pos in \<open>auto simp: ipl_ok_def held_put_lk IPL_NONE_def IPL_HIGH_def\<close>)
qed

lemma splx_ok:
  assumes ok: "ipl_ok cur c s" and spl: "spl \<in> {IPL_NONE, IPL_HIGH}"
  obtains s' th where "thr s cur = Some th" and "splx cur spl s = Some (t_curspl th, s')" and "ipl_ok cur c s'" and "held c s' = held c s"
    and "\<exists>th'. thr s' cur = Some th' \<and> t_curspl th' = spl"
proof -
  from ok obtain th where th: "cur \<noteq> 0" "finite (held c s)" "thr s cur = Some th" "t_cpu th = Some c"
    "t_curspl th = 0 \<or> t_curspl th = 1" "t_iplhigh_count th = t_curspl th + int (card (held c s))" "irq s c \<longleftrightarrow> t_iplhigh_count th = 0"
    by (rule ipl_okE)
  have sp: "spl = 0 \<or> spl = 1" using spl by (auto simp: IPL_NONE_def IPL_HIGH_def)
  consider "t_curspl th = spl" | "t_curspl th = 0" "spl = 1" | "t_curspl th = 1" "spl = 0" using sp th(5) by auto
  then show thesis
  proof cases
    case 1
    then show thesis using that [OF th(3)] splx_same [OF th(3)] ok th(3) by auto
  next
    case 2
    show thesis
      by (rule that [OF th(3)], unfold 2, rule splhigh_eq [OF th(1,3,4) 2(1), unfolded splhigh_def IPL_HIGH_def])
        (use th 2 in \<open>auto simp: ipl_ok_def IPL_NONE_def IPL_HIGH_def\<close>)
  next
    case 3
    show thesis
      by (rule that [OF th(3)], unfold 3, rule splx_lower_eq [OF th(1,3,4) 3(1)])
        (use th 3 in \<open>auto simp: ipl_ok_def IPL_NONE_def IPL_HIGH_def\<close>)
  qed
qed

subsection \<open>Any sequence of lock and level operations\<close>

datatype ipl_op = Acquire lkid | Release lkid | Setspl int

fun ipl_run :: "ipl_op list \<Rightarrow> tid \<Rightarrow> ('a) ksync_scheme \<Rightarrow> ('a) ksync_scheme kres" where
  "ipl_run [] cur s = Some s"
| "ipl_run (Acquire lk # ops) cur s = do { s' \<leftarrow> spinlock_acquire lk cur s; ipl_run ops cur s' }"
| "ipl_run (Release lk # ops) cur s = do { s' \<leftarrow> spinlock_release lk cur s; ipl_run ops cur s' }"
| "ipl_run (Setspl spl # ops) cur s = do { (_, s') \<leftarrow> splx cur spl s; ipl_run ops cur s' }"

text \<open>The locks a sequence leaves held and the level it leaves set, and when a sequence is legal.\<close>

fun ipl_spec :: "ipl_op list \<Rightarrow> lkid set \<Rightarrow> int \<Rightarrow> lkid set \<times> int" where
  "ipl_spec [] H v = (H, v)"
| "ipl_spec (Acquire lk # ops) H v = ipl_spec ops (insert lk H) v"
| "ipl_spec (Release lk # ops) H v = ipl_spec ops (H - {lk}) v"
| "ipl_spec (Setspl spl # ops) H v = ipl_spec ops H spl"

fun ipl_legal :: "ipl_op list \<Rightarrow> lkid set \<Rightarrow> bool" where
  "ipl_legal [] H \<longleftrightarrow> True"
| "ipl_legal (Acquire lk # ops) H \<longleftrightarrow> lk \<notin> H \<and> ipl_legal ops (insert lk H)"
| "ipl_legal (Release lk # ops) H \<longleftrightarrow> lk \<in> H \<and> ipl_legal ops (H - {lk})"
| "ipl_legal (Setspl spl # ops) H \<longleftrightarrow> spl \<in> {IPL_NONE, IPL_HIGH} \<and> ipl_legal ops H"

definition curspl_of :: "tid \<Rightarrow> ('a) ksync_scheme \<Rightarrow> int" where
  "curspl_of cur s = (case thr s cur of None \<Rightarrow> 0 | Some th \<Rightarrow> t_curspl th)"

definition only_mine :: "cpuid \<Rightarrow> ('a) ksync_scheme \<Rightarrow> bool" where
  "only_mine c s \<longleftrightarrow> lks_ok s \<and> (\<forall>lk d. lk_holder (lks s lk) = Some d \<longrightarrow> d = c)"

lemma only_mine_put: "only_mine c s \<Longrightarrow> only_mine c (put_lk lk \<lparr>lk_lock = 1, lk_holder = Some c\<rparr> s)"
  "only_mine c s \<Longrightarrow> only_mine c (put_lk lk \<lparr>lk_lock = 0, lk_holder = None\<rparr> s)"
  "only_mine c (put_thr t th s) = only_mine c s" "only_mine c (set_irq d b s) = only_mine c s"
  by (auto simp: only_mine_def lks_ok_def)

lemma only_mine_free:
  assumes "only_mine c s" and "lk \<notin> held c s"
  shows "lk_lock (lks s lk) = 0" and "lk_holder (lks s lk) = None"
proof -
  show h: "lk_holder (lks s lk) = None" using assms by (cases "lk_holder (lks s lk)") (auto simp: only_mine_def held_def)
  then show "lk_lock (lks s lk) = 0" using assms(1) by (simp add: only_mine_def lks_ok_def)
qed

lemma ipl_acquire_step:
  assumes "ipl_ok cur c s" and "only_mine c s" and "lk \<notin> held c s"
  obtains s' where "spinlock_acquire lk cur s = Some s'" and "ipl_ok cur c s'" and "only_mine c s'"
    and "held c s' = insert lk (held c s)" and "curspl_of cur s' = curspl_of cur s"
proof -
  note free = only_mine_free [OF assms(2,3)]
  from assms(1) obtain th where th: "cur \<noteq> 0" "thr s cur = Some th" "t_cpu th = Some c" by (rule ipl_okE)
  obtain s' where s': "spinlock_acquire lk cur s = Some s'" "ipl_ok cur c s'" "held c s' = insert lk (held c s)"
    by (rule spinlock_acquire_ok [OF assms(1) free])
  have "only_mine c s'" "curspl_of cur s' = curspl_of cur s"
    using s'(1) spinlock_acquire_eq [OF th free] assms(2) th by (auto simp: only_mine_put curspl_of_def)
  with s' show thesis by (intro that)
qed

lemma ipl_release_step:
  assumes "ipl_ok cur c s" and "only_mine c s" and "lk \<in> held c s"
  obtains s' where "spinlock_release lk cur s = Some s'" and "ipl_ok cur c s'" and "only_mine c s'"
    and "held c s' = held c s - {lk}" and "curspl_of cur s' = curspl_of cur s"
proof -
  have h: "lk_holder (lks s lk) = Some c" using assms(3) by (simp add: held_def)
  from assms(1) obtain th where th: "cur \<noteq> 0" "thr s cur = Some th" "t_cpu th = Some c" by (rule ipl_okE)
  obtain s' where s': "spinlock_release lk cur s = Some s'" "ipl_ok cur c s'" "held c s' = held c s - {lk}"
    by (rule spinlock_release_ok [OF assms(1,3)])
  have "only_mine c s'" "curspl_of cur s' = curspl_of cur s"
    using s'(1) spinlock_release_eq [OF th h] assms(2) th by (auto simp: only_mine_put curspl_of_def split: if_splits)
  with s' show thesis by (intro that)
qed

lemma ipl_splx_step:
  assumes "ipl_ok cur c s" and "only_mine c s" and "spl \<in> {IPL_NONE, IPL_HIGH}"
  obtains s' r where "splx cur spl s = Some (r, s')" and "ipl_ok cur c s'" and "only_mine c s'"
    and "held c s' = held c s" and "curspl_of cur s' = spl"
proof -
  obtain s' r where s': "splx cur spl s = Some (r, s')" "ipl_ok cur c s'" "held c s' = held c s"
    "curspl_of cur s' = spl"
    by (rule splx_ok [OF assms(1,3)]) (auto simp: curspl_of_def)
  have "lks s' = lks s" using s'(1)
    by (auto simp: splx_def splraise_def spllower_def bind_Some_iff Let_def split: if_splits)
  then have "only_mine c s'" using assms(2) by (simp add: only_mine_def lks_ok_def)
  with s' show thesis by (intro that)
qed

text \<open>
  C26.  Spinlocks and \<open>splx\<close> need not nest: after any legal sequence of acquires, releases and level
  changes by a thread, the call has returned, exactly the expected locks are held, and interrupts
  are on if and only if no lock is held and the level is \<open>IPL_NONE\<close>.
\<close>

theorem ipl_run_correct:
  assumes "ipl_ok cur c s" and "only_mine c s" and "ipl_legal ops (held c s)"
    and "ipl_spec ops (held c s) (curspl_of cur s) = (H, v)"
  shows "\<exists>s'. ipl_run ops cur s = Some s' \<and> held c s' = H \<and> curspl_of cur s' = v \<and> only_mine c s' \<and>
    (irq s' c \<longleftrightarrow> H = {} \<and> v = IPL_NONE)"
  using assms
proof (induction ops arbitrary: s)
  case Nil
  then show ?case by (auto simp: curspl_of_def IPL_NONE_def elim!: ipl_okE)
next
  case (Cons x ops)
  show ?case
  proof (cases x)
    case (Acquire lk)
    then have "lk \<notin> held c s" using Cons(4) by simp
    with Cons(2,3) obtain s' where s': "spinlock_acquire lk cur s = Some s'" "ipl_ok cur c s'" "only_mine c s'"
      "held c s' = insert lk (held c s)" "curspl_of cur s' = curspl_of cur s"
      by (rule ipl_acquire_step)
    then show ?thesis using Cons(1) [of s'] Cons(4,5) Acquire by simp
  next
    case (Release lk)
    then have "lk \<in> held c s" using Cons(4) by simp
    with Cons(2,3) obtain s' where s': "spinlock_release lk cur s = Some s'" "ipl_ok cur c s'" "only_mine c s'"
      "held c s' = held c s - {lk}" "curspl_of cur s' = curspl_of cur s"
      by (rule ipl_release_step)
    then show ?thesis using Cons(1) [of s'] Cons(4,5) Release by simp
  next
    case (Setspl spl)
    then have "spl \<in> {IPL_NONE, IPL_HIGH}" using Cons(4) by simp
    with Cons(2,3) obtain s' r where s': "splx cur spl s = Some (r, s')" "ipl_ok cur c s'" "only_mine c s'"
      "held c s' = held c s" "curspl_of cur s' = spl"
      by (rule ipl_splx_step)
    then show ?thesis using Cons(1) [of s'] Cons(4,5) Setspl by simp
  qed
qed

text \<open>A thread alone on processor 0, with interrupts on and no lock held.\<close>

definition thread_sample :: thread where
  "thread_sample = \<lparr>t_name = 0, t_wchan_name = None, t_state = S_RUN, t_stack = 0, t_guard = [], t_badfaultfunc = 0, t_context = No_frame,
     t_cpu = Some 0, t_proc = 0, t_in_interrupt = False, t_curspl = 0, t_iplhigh_count = 0\<rparr>"

definition ksync_sample :: ksync where
  "ksync_sample = \<lparr>thr = [8 \<mapsto> thread_sample], irq = \<lambda>_. True, lks = \<lambda>_. \<lparr>lk_lock = 0, lk_holder = None\<rparr>\<rparr>"

theorem ipl_run_correct_witness:
  "\<exists>s'. ipl_run [Acquire (Lk_wchan 1), Setspl IPL_HIGH, Acquire (Lk_wchan 2), Setspl IPL_NONE, Release (Lk_wchan 1), Release (Lk_wchan 2)]
      8 ksync_sample = Some s' \<and> irq s' 0"
proof -
  have held: "held 0 ksync_sample = {}" by (simp add: held_def ksync_sample_def)
  have "ipl_ok 8 0 ksync_sample" unfolding ipl_ok_def held by (simp add: ksync_sample_def thread_sample_def IPL_NONE_def)
  moreover have "only_mine 0 ksync_sample" by (simp add: only_mine_def lks_ok_def ksync_sample_def)
  moreover have "curspl_of 8 ksync_sample = 0" by (simp add: curspl_of_def ksync_sample_def thread_sample_def)
  ultimately show ?thesis
    using ipl_run_correct [of 8 0 ksync_sample "[Acquire (Lk_wchan 1), Setspl IPL_HIGH, Acquire (Lk_wchan 2), Setspl IPL_NONE,
      Release (Lk_wchan 1), Release (Lk_wchan 2)]" "{}" IPL_NONE] by (auto simp: held)
qed

subsection \<open>Several processors on one lock\<close>

datatype spin_pc = Outside | Getting | Setting | Won | Holding | Clearing

text \<open>One access to the lock's memory is one step; \<open>pcs\<close> says where each processor is in \<open>spinlock_acquire\<close> or \<open>spinlock_release\<close>.\<close>

inductive spin_step :: "spinlock \<times> (cpuid \<Rightarrow> spin_pc) \<Rightarrow> spinlock \<times> (cpuid \<Rightarrow> spin_pc) \<Rightarrow> bool" where
  enter: "pcs c = Outside \<Longrightarrow> lk_holder l \<noteq> Some c \<Longrightarrow> spin_step (l, pcs) (l, pcs(c := Getting))"
| get: "pcs c = Getting \<Longrightarrow>
    spin_step (l, pcs) (l, pcs(c := if spinlock_data_get l \<noteq> 0 then Getting else Setting))"
| testandset: "pcs c = Setting \<Longrightarrow> spinlock_data_testandset sc l = (old, l') \<Longrightarrow>
    spin_step (l, pcs) (l', pcs(c := if old \<noteq> 0 then Getting else Won))"
| own: "pcs c = Won \<Longrightarrow> spin_step (l, pcs) (l\<lparr>lk_holder := Some c\<rparr>, pcs(c := Holding))"
| disown: "pcs c = Holding \<Longrightarrow> lk_holder l = Some c \<Longrightarrow> spin_step (l, pcs) (l\<lparr>lk_holder := None\<rparr>, pcs(c := Clearing))"
| clear: "pcs c = Clearing \<Longrightarrow> spin_step (l, pcs) (spinlock_data_set 0 l, pcs(c := Outside))"

inductive spin_reach :: "spinlock \<times> (cpuid \<Rightarrow> spin_pc) \<Rightarrow> bool" where
  spin_start: "spin_reach (\<lparr>lk_lock = 0, lk_holder = None\<rparr>, \<lambda>_. Outside)"
| spin_next: "spin_reach s \<Longrightarrow> spin_step s s' \<Longrightarrow> spin_reach s'"

inductive_cases spin_stepE: "spin_step s s'"

definition inside :: "spin_pc \<Rightarrow> bool" where
  "inside p \<longleftrightarrow> p \<in> {Won, Holding, Clearing}"

fun spin_inv :: "spinlock \<times> (cpuid \<Rightarrow> spin_pc) \<Rightarrow> bool" where
  "spin_inv (l, pcs) \<longleftrightarrow>
     (\<forall>c d. inside (pcs c) \<and> inside (pcs d) \<longrightarrow> c = d) \<and>
     (lk_lock l = 0 \<longleftrightarrow> (\<forall>c. \<not> inside (pcs c))) \<and>
     (\<forall>c. lk_holder l = Some c \<longleftrightarrow> pcs c = Holding)"

lemma spin_inv_same:
  assumes "spin_inv (l, pcs)" and "pcs c \<in> {Outside, Getting, Setting}" and "p \<in> {Outside, Getting, Setting}"
    and "lk_holder l' = lk_holder l" and "lk_lock l' = 0 \<longleftrightarrow> lk_lock l = 0"
  shows "spin_inv (l', pcs(c := p))"
proof -
  have in_c: "inside ((pcs(c := p)) x) = inside (pcs x)" "(pcs(c := p)) x = Holding \<longleftrightarrow> pcs x = Holding" for x
    using assms(2,3) by (auto simp: inside_def)
  show ?thesis using assms(1,4,5) unfolding spin_inv.simps in_c by simp
qed

lemma spin_inv_inside:
  assumes "spin_inv (l, pcs)" and "inside (pcs c)"
  shows "\<And>d. inside (pcs d) \<longleftrightarrow> d = c" and "lk_lock l \<noteq> 0"
  using assms by auto

lemma spin_step_inv: "spin_step s s' \<Longrightarrow> spin_inv s \<Longrightarrow> spin_inv s'"
proof (induction rule: spin_step.induct)
  case (enter pcs c l)
  then show ?case by (intro spin_inv_same) auto
next
  case (get pcs c l)
  then show ?case by (intro spin_inv_same) auto
next
  case (testandset pcs c sc l old l')
  show ?case
  proof (cases "sc \<and> lk_lock l = 0")
    case True
    then have "\<And>c. \<not> inside (pcs c)" "\<And>c. lk_holder l = Some c \<longleftrightarrow> pcs c = Holding" using testandset by auto
    moreover have "old = 0" "l' = l\<lparr>lk_lock := 1\<rparr>" using testandset(2) True by (auto simp: spinlock_data_testandset_def)
    ultimately show ?thesis using testandset(1) by (auto simp: inside_def)
  next
    case False
    then have "old \<noteq> 0" "lk_holder l' = lk_holder l" "lk_lock l' = 0 \<longleftrightarrow> lk_lock l = 0"
      using testandset(2) by (auto simp: spinlock_data_testandset_def split: if_splits)
    then show ?thesis using testandset(1,3) by (intro spin_inv_same) auto
  qed
next
  case (own pcs c l)
  then have "inside (pcs c)" by (simp add: inside_def)
  from spin_inv_inside [OF own(2) this] own show ?case by (auto simp: inside_def)
next
  case (disown pcs c l)
  then have "inside (pcs c)" by (simp add: inside_def)
  from spin_inv_inside [OF disown(3) this] disown show ?case by (auto simp: inside_def)
next
  case (clear pcs c l)
  then have "inside (pcs c)" by (simp add: inside_def)
  from spin_inv_inside [OF clear(2) this] clear show ?case by (auto simp: inside_def spinlock_data_set_def)
qed

lemma spin_reach_inv: "spin_reach s \<Longrightarrow> spin_inv s"
  by (induction rule: spin_reach.induct) (auto simp: inside_def intro: spin_step_inv)

text \<open>
  C25.  Spinlocks exclude: whatever the order in which the processors' memory accesses interleave,
  and whichever conditional stores fail, at most one processor is past its test-and-set; the holder
  field names a processor only while that processor holds the lock, so neither the deadlock check of
  \<open>spinlock_acquire\<close> nor the assertion of \<open>spinlock_release\<close> fails; and when no processor is inside, the lock word is free.
\<close>

theorem spinlock_excludes:
  assumes "spin_reach (l, pcs)"
  shows "(\<forall>c d. inside (pcs c) \<and> inside (pcs d) \<longrightarrow> c = d) \<and>
    (\<forall>c. pcs c = Outside \<longrightarrow> lk_holder l \<noteq> Some c) \<and> (\<forall>c. pcs c = Holding \<longrightarrow> lk_holder l = Some c) \<and>
    ((\<forall>c. \<not> inside (pcs c)) \<longrightarrow> lk_lock l = 0)"
  using spin_reach_inv [OF assms] by auto

theorem spinlock_excludes_witness:
  "\<exists>pcs. spin_reach (\<lparr>lk_lock = 1, lk_holder = Some 1\<rparr>, pcs) \<and> pcs 1 = Holding \<and> \<not> inside (pcs 0)"
proof -
  let ?l = "\<lparr>lk_lock = 0, lk_holder = None\<rparr> :: spinlock" and ?p = "\<lambda>_ :: cpuid. Outside"
  have 1: "spin_reach (?l, ?p(1 := Getting))" by (rule spin_next [OF spin_start]) (rule enter; simp)
  have 2: "spin_reach (?l, ?p(1 := Setting))"
    using spin_next [OF 1 get [of "?p(1 := Getting)" 1 ?l]] by (simp add: spinlock_data_get_def)
  have 3: "spin_reach (?l\<lparr>lk_lock := 1\<rparr>, ?p(1 := Won))"
    using spin_next [OF 2 testandset [of "?p(1 := Setting)" 1 True ?l]] by (simp add: spinlock_data_testandset_def)
  have 4: "spin_reach (?l\<lparr>lk_lock := 1, lk_holder := Some 1\<rparr>, ?p(1 := Holding))"
    using spin_next [OF 3 own [of "?p(1 := Won)" 1]] by simp
  then have "spin_reach (\<lparr>lk_lock = 1, lk_holder = Some 1\<rparr>, ?p(1 := Holding))" by simp
  with spinlock_excludes [OF this] show ?thesis by (intro exI [of _ "?p(1 := Holding)"]) (simp add: inside_def)
qed

end
