(* ===== verification/Threads.thy ===== *)
theory Threads
  imports Spinlock Threadlist Arrays Vm_Fault
begin

text \<open>
  The thread system of src/kern/thread/thread.c: creation and destruction of threads, the run queues
  and the context switch, wait channels, migration between processors and interprocessor interrupts,
  and the clock of src/kern/thread/clock.c that drives it.

  A thread is known by the address of its structure, a processor by its index in \<open>allcpus\<close>, a wait
  channel by its address.  The lists of threads are those of \<open>Threadlist\<close>, in one store; the memory
  of threads, names and stacks comes from the kernel heap; address spaces are activated as in
  \<open>Vm_Fault\<close>.  Every function takes \<open>cur\<close>, the current thread.  A context switch returns which thread
  runs next: the saved context of a thread says whether it continues inside \<open>thread_switch\<close>, with the
  saved value of the local variable \<open>spl\<close>, or starts in \<open>thread_startup\<close>.  A processor with an empty run queue idles: the function returns
  \<open>Idling\<close>, and \<open>idle_poll\<close> is one more turn of the idle loop.
\<close>

subsection \<open>State\<close>

record cpu =
  c_hardware_number :: u32
  c_curthread :: tid
  c_hardclocks :: u32
  c_isidle :: bool
  c_ipi_pending :: u32
  c_shootdown :: "(u32 \<times> vaddr) list"
  c_numshootdown :: int

datatype tlist = Runqueue cpuid | Zombies cpuid | Waiters u32 | Victims cpuid | Wakelist cpuid

record sched = ksync +
  allcpus :: "cpu list"
  tls :: "(tid, tlist) tlstore"
  wc_name :: "u32 \<Rightarrow> string option"
  heap :: kstate
  strs :: "u32 \<Rightarrow> string"
  kproc :: u32
  p_threads :: "u32 \<Rightarrow> tid arr option"
  p_vm :: "u32 \<Rightarrow> vm_cur"
  tlbs :: "cpuid \<Rightarrow> tlb"
  ipi_line :: "cpuid \<Rightarrow> bool"
  lbolt :: u32

definition THREAD_STACK_MAGIC :: u32 where
  "THREAD_STACK_MAGIC = 0xbaadf00d"

definition STACK_SIZE :: nat where
  "STACK_SIZE = 4096"

text \<open>\<open>sizeof(struct thread)\<close> and \<open>sizeof(struct wchan)\<close> on this machine.\<close>

definition sizeof_thread :: nat where
  "sizeof_thread = 56"

definition sizeof_wchan :: nat where
  "sizeof_wchan = 40"

definition upd_thr :: "tid \<Rightarrow> (thread \<Rightarrow> thread) \<Rightarrow> sched \<Rightarrow> sched kres" where
  "upd_thr t f s = do { th \<leftarrow> thr s t; Some (put_thr t (f th) s) }"

definition upd_cpu :: "cpuid \<Rightarrow> (cpu \<Rightarrow> cpu) \<Rightarrow> sched \<Rightarrow> sched kres" where
  "upd_cpu c f s = do { cp \<leftarrow> aget (allcpus s) c; cs \<leftarrow> aput (allcpus s) c (f cp); Some (s\<lparr>allcpus := cs\<rparr>) }"

definition do_kmalloc :: "nat \<Rightarrow> sched \<Rightarrow> (u32 \<times> sched) kres" where
  "do_kmalloc sz s = do { (p, h) \<leftarrow> kmalloc sz (heap s); Some (p, s\<lparr>heap := h\<rparr>) }"

definition do_kfree :: "u32 \<Rightarrow> sched \<Rightarrow> sched kres" where
  "do_kfree p s = do { h \<leftarrow> kfree p (heap s); Some (s\<lparr>heap := h\<rparr>) }"

definition on_tls :: "((tid, tlist) tlstore \<Rightarrow> (tid, tlist) tlstore kres) \<Rightarrow> sched \<Rightarrow> sched kres" where
  "on_tls f s = do { l \<leftarrow> f (tls s); Some (s\<lparr>tls := l\<rparr>) }"

definition tls_rem :: "(tlist \<Rightarrow> (tid, tlist) tlstore \<Rightarrow> (tid option \<times> (tid, tlist) tlstore) kres) \<Rightarrow> tlist \<Rightarrow> sched \<Rightarrow>
    (tid option \<times> sched) kres" where
  "tls_rem f l s = do { (t, x) \<leftarrow> f l (tls s); Some (t, s\<lparr>tls := x\<rparr>) }"

definition kstrdup :: "string \<Rightarrow> sched \<Rightarrow> (u32 \<times> sched) kres" where
  "kstrdup str s = do {
     (z, s1) \<leftarrow> do_kmalloc (length str + 1) s;
     if z = 0 then Some (0, s1) else Some (z, s1\<lparr>strs := (strs s1)(z := str)\<rparr>)
   }"

subsection \<open>Threads\<close>

definition thread_checkstack_init :: "tid \<Rightarrow> sched \<Rightarrow> sched kres" where
  "thread_checkstack_init t s =
     upd_thr t (\<lambda>th. th\<lparr>t_guard := [THREAD_STACK_MAGIC, THREAD_STACK_MAGIC, THREAD_STACK_MAGIC, THREAD_STACK_MAGIC]\<rparr>) s"

definition thread_checkstack :: "tid \<Rightarrow> sched \<Rightarrow> unit kres" where
  "thread_checkstack t s = do {
     th \<leftarrow> thr s t;
     if t_stack th \<noteq> 0 then
       kassert (t_guard th = [THREAD_STACK_MAGIC, THREAD_STACK_MAGIC, THREAD_STACK_MAGIC, THREAD_STACK_MAGIC])
     else Some ()
   }"

definition thread_create :: "string \<Rightarrow> sched \<Rightarrow> (tid \<times> sched) kres" where
  "thread_create name s0 = do {
     (t, s1) \<leftarrow> do_kmalloc sizeof_thread s0;
     if t = 0 then Some (0, s1)
     else do {
       (nm, s2) \<leftarrow> kstrdup name s1;
       if nm = 0 then do { s3 \<leftarrow> do_kfree t s2; Some (0, s3) }
       else Some (t, put_thr t
         \<lparr>t_name = nm, t_wchan_name = Some ''NEW'', t_state = S_READY, t_stack = 0, t_guard = [], t_badfaultfunc = 0,
          t_context = No_frame, t_cpu = None, t_proc = 0, t_in_interrupt = False, t_curspl = IPL_HIGH, t_iplhigh_count = 1\<rparr>
         (s2\<lparr>tls := threadlistnode_init t (tls s2)\<rparr>))
     }
   }"

definition thread_destroy :: "tid \<Rightarrow> tid \<Rightarrow> sched \<Rightarrow> sched kres" where
  "thread_destroy cur t s0 = do {
     kassert (t \<noteq> cur);
     th \<leftarrow> thr s0 t;
     kassert (t_state th \<noteq> S_RUN);
     kassert (t_proc th = 0);
     s1 \<leftarrow> (if t_stack th \<noteq> 0 then do_kfree (t_stack th) s0 else Some s0);
     threadlistnode_cleanup t (tls s1);
     kassert (t_badfaultfunc th = 0);
     s2 \<leftarrow> upd_thr t (\<lambda>th. th\<lparr>t_wchan_name := Some ''DESTROYED''\<rparr>) s1;
     s3 \<leftarrow> do_kfree (t_name th) s2;
     s4 \<leftarrow> do_kfree t s3;
     Some (s4\<lparr>thr := (thr s4)(t := None), tls := (tls s4)\<lparr>tnodes := (tnodes (tls s4))(Listnode t := None)\<rparr>\<rparr>)
   }"

partial_function (option) exorcise :: "tid \<Rightarrow> sched \<Rightarrow> sched kres" where
  "exorcise cur s = do {
     c \<leftarrow> curcpu cur s;
     (z, s1) \<leftarrow> tls_rem threadlist_remhead (Zombies c) s;
     case z of None \<Rightarrow> Some s1
     | Some t \<Rightarrow> do {
         kassert (t \<noteq> cur);
         th \<leftarrow> thr s1 t;
         kassert (t_state th = S_ZOMBIE);
         s2 \<leftarrow> thread_destroy cur t s1;
         exorcise cur s2
       }
   }"

subsection \<open>Interprocessor interrupts\<close>

definition IPI_PANIC :: nat where
  "IPI_PANIC = 0"

definition IPI_OFFLINE :: nat where
  "IPI_OFFLINE = 1"

definition IPI_UNIDLE :: nat where
  "IPI_UNIDLE = 2"

definition IPI_TLBSHOOTDOWN :: nat where
  "IPI_TLBSHOOTDOWN = 3"

definition TLBSHOOTDOWN_MAX :: nat where
  "TLBSHOOTDOWN_MAX = 16"

definition TLBSHOOTDOWN_ALL :: int where
  "TLBSHOOTDOWN_ALL = - 1"

definition mainbus_send_ipi :: "cpuid \<Rightarrow> sched \<Rightarrow> sched" where
  "mainbus_send_ipi c s = s\<lparr>ipi_line := (ipi_line s)(c := True)\<rparr>"

definition ipi_send :: "tid \<Rightarrow> cpuid \<Rightarrow> nat \<Rightarrow> sched \<Rightarrow> sched kres" where
  "ipi_send cur target code s = do {
     kassert (code < 32);
     s1 \<leftarrow> spinlock_acquire (Lk_ipi target) cur s;
     s2 \<leftarrow> upd_cpu target (\<lambda>c. c\<lparr>c_ipi_pending := c_ipi_pending c OR push_bit code 1\<rparr>) s1;
     spinlock_release (Lk_ipi target) cur (mainbus_send_ipi target s2)
   }"

partial_function (option) ipi_broadcast_loop :: "tid \<Rightarrow> nat \<Rightarrow> nat \<Rightarrow> sched \<Rightarrow> sched kres" where
  "ipi_broadcast_loop cur code i s =
     (if i < length (allcpus s) then do {
        me \<leftarrow> curcpu cur s;
        s1 \<leftarrow> (if i \<noteq> me then ipi_send cur i code s else Some s);
        ipi_broadcast_loop cur code (i + 1) s1
      } else Some s)"

definition ipi_broadcast :: "tid \<Rightarrow> nat \<Rightarrow> sched \<Rightarrow> sched kres" where
  "ipi_broadcast cur code s = ipi_broadcast_loop cur code 0 s"

definition ipi_tlbshootdown :: "tid \<Rightarrow> cpuid \<Rightarrow> u32 \<times> vaddr \<Rightarrow> sched \<Rightarrow> sched kres" where
  "ipi_tlbshootdown cur target mapping s = do {
     s1 \<leftarrow> spinlock_acquire (Lk_ipi target) cur s;
     cp \<leftarrow> aget (allcpus s1) target;
     let n = c_numshootdown cp;
     s2 \<leftarrow> (if n = int TLBSHOOTDOWN_MAX then upd_cpu target (\<lambda>c. c\<lparr>c_numshootdown := TLBSHOOTDOWN_ALL\<rparr>) s1
           else do {
             kassert (0 \<le> n);
             sd \<leftarrow> aput (c_shootdown cp) (nat n) mapping;
             upd_cpu target (\<lambda>c. c\<lparr>c_shootdown := sd, c_numshootdown := n + 1\<rparr>) s1
           });
     s3 \<leftarrow> upd_cpu target (\<lambda>c. c\<lparr>c_ipi_pending := c_ipi_pending c OR push_bit IPI_TLBSHOOTDOWN 1\<rparr>) s2;
     spinlock_release (Lk_ipi target) cur (mainbus_send_ipi target s3)
   }"

text \<open>
  \<open>cpu_halt\<close> does not return, and both \<open>vm_tlbshootdown\<close> and \<open>vm_tlbshootdown_all\<close> panic, so the
  handler comes back only when none of them is called.
\<close>

definition interprocessor_interrupt :: "tid \<Rightarrow> sched \<Rightarrow> sched kres" where
  "interprocessor_interrupt cur s = do {
     c \<leftarrow> curcpu cur s;
     s1 \<leftarrow> spinlock_acquire (Lk_ipi c) cur s;
     cp \<leftarrow> aget (allcpus s1) c;
     let bits = c_ipi_pending cp;
     kassert (\<not> bit bits IPI_PANIC);
     kassert (\<not> bit bits IPI_OFFLINE);
     s2 \<leftarrow> (if bit bits IPI_TLBSHOOTDOWN then do {
              kassert (c_numshootdown cp \<noteq> TLBSHOOTDOWN_ALL);
              kassert (\<not> 0 < c_numshootdown cp);
              upd_cpu c (\<lambda>c. c\<lparr>c_numshootdown := 0\<rparr>) s1
            } else Some s1);
     s3 \<leftarrow> upd_cpu c (\<lambda>c. c\<lparr>c_ipi_pending := 0\<rparr>) s2;
     spinlock_release (Lk_ipi c) cur s3
   }"

definition thread_shutdown :: "tid \<Rightarrow> sched \<Rightarrow> sched kres" where
  "thread_shutdown cur s = ipi_broadcast cur IPI_OFFLINE s"

definition thread_panic :: "tid \<Rightarrow> sched \<Rightarrow> sched kres" where
  "thread_panic cur s = do {
     s1 \<leftarrow> ipi_broadcast cur IPI_PANIC s;
     c \<leftarrow> curcpu cur s1;
     let l1 = (tls s1)\<lparr>tl_count := (tl_count (tls s1))(Runqueue c := 0)\<rparr>;
     l2 \<leftarrow> set_next (Some (Head (Runqueue c))) None l1;
     l3 \<leftarrow> set_prev (Some (Tail (Runqueue c))) None l2;
     Some (s1\<lparr>tls := l3\<rparr>)
   }"

subsection \<open>Processes of threads\<close>

definition proc_addthread :: "u32 \<Rightarrow> tid \<Rightarrow> sched \<Rightarrow> ((errno + unit) \<times> sched) kres" where
  "proc_addthread proc t s = do {
     th \<leftarrow> thr s t;
     kassert (t_proc th = 0);
     a \<leftarrow> p_threads s proc;
     (a1, result, h) \<leftarrow> array_add kmalloc kfree a t (heap s);
     let s1 = s\<lparr>heap := h, p_threads := (p_threads s)(proc \<mapsto> a1)\<rparr>;
     case result of
       Inl e \<Rightarrow> Some (Inl e, s1)
     | Inr _ \<Rightarrow> do { s2 \<leftarrow> upd_thr t (\<lambda>th. th\<lparr>t_proc := proc\<rparr>) s1; Some (Inr (), s2) }
   }"

function remthread_find :: "tid \<Rightarrow> tid arr \<Rightarrow> nat \<Rightarrow> nat \<Rightarrow> nat option kres" where
  "remthread_find t a i num =
     (if i < num then do {
        x \<leftarrow> array_get a i;
        if x = t then Some (Some i) else remthread_find t a (i + 1) num
      } else Some None)"
  by auto
termination
  by (relation "measure (\<lambda>(t, a, i, num). num - i)") auto

definition proc_remthread :: "tid \<Rightarrow> sched \<Rightarrow> sched kres" where
  "proc_remthread t s = do {
     th \<leftarrow> thr s t;
     let proc = t_proc th;
     kassert (proc \<noteq> 0);
     a \<leftarrow> p_threads s proc;
     found \<leftarrow> remthread_find t a 0 (array_num a);
     i \<leftarrow> found;
     a1 \<leftarrow> array_remove a i;
     upd_thr t (\<lambda>th. th\<lparr>t_proc := 0\<rparr>) (s\<lparr>p_threads := (p_threads s)(proc \<mapsto> a1)\<rparr>)
   }"

text \<open>\<open>as_activate\<close> for the current thread: \<open>curproc_getas\<close> gives nothing for a thread without a process.\<close>

definition cur_vm :: "tid \<Rightarrow> sched \<Rightarrow> vm_cur kres" where
  "cur_vm cur s = do {
     th \<leftarrow> thr s cur;
     Some (if t_proc th = 0 then \<lparr>p_addrspace = None, loaded = False\<rparr> else p_vm s (t_proc th))
   }"

definition cur_activate :: "tid \<Rightarrow> sched \<Rightarrow> sched kres" where
  "cur_activate cur s = do {
     c \<leftarrow> curcpu cur s;
     v \<leftarrow> cur_vm cur s;
     tlb \<leftarrow> as_activate v (tlbs s c);
     Some (s\<lparr>tlbs := (tlbs s)(c := tlb)\<rparr>)
   }"

subsection \<open>Run queues and the context switch\<close>

definition thread_make_runnable :: "tid \<Rightarrow> tid \<Rightarrow> bool \<Rightarrow> sched \<Rightarrow> sched kres" where
  "thread_make_runnable cur target already_have_lock s = do {
     th \<leftarrow> thr s target;
     targetcpu \<leftarrow> t_cpu th;
     s1 \<leftarrow> (if already_have_lock then do {
              b \<leftarrow> spinlock_do_i_hold (Lk_runqueue targetcpu) cur s;
              kassert b;
              Some s
            } else spinlock_acquire (Lk_runqueue targetcpu) cur s);
     cp \<leftarrow> aget (allcpus s1) targetcpu;
     let isidle = c_isidle cp;
     s2 \<leftarrow> on_tls (threadlist_addtail (Runqueue targetcpu) target) s1;
     s3 \<leftarrow> (if isidle then ipi_send cur targetcpu IPI_UNIDLE s2 else Some s2);
     if already_have_lock then Some s3 else spinlock_release (Lk_runqueue targetcpu) cur s3
   }"

definition wchan_lock :: "u32 \<Rightarrow> tid \<Rightarrow> sched \<Rightarrow> sched kres" where
  "wchan_lock wc cur s = spinlock_acquire (Lk_wchan wc) cur s"

definition wchan_unlock :: "u32 \<Rightarrow> tid \<Rightarrow> sched \<Rightarrow> sched kres" where
  "wchan_unlock wc cur s = spinlock_release (Lk_wchan wc) cur s"

definition thread_fork :: "tid \<Rightarrow> string \<Rightarrow> u32 \<Rightarrow> u32 \<Rightarrow> u32 \<Rightarrow> u32 \<Rightarrow> sched \<Rightarrow> ((errno + unit) \<times> sched) kres" where
  "thread_fork cur name proc0 entrypoint data1 data2 s0 = do {
     (new, s1) \<leftarrow> thread_create name s0;
     if new = 0 then Some (Inl ENOMEM, s1)
     else do {
       (stack, s2) \<leftarrow> do_kmalloc STACK_SIZE s1;
       s3 \<leftarrow> upd_thr new (\<lambda>th. th\<lparr>t_stack := stack\<rparr>) s2;
       if stack = 0 then do { s4 \<leftarrow> thread_destroy cur new s3; Some (Inl ENOMEM, s4) }
       else do {
         s4 \<leftarrow> thread_checkstack_init new s3;
         cth \<leftarrow> thr s4 cur;
         s5 \<leftarrow> upd_thr new (\<lambda>th. th\<lparr>t_cpu := t_cpu cth\<rparr>) s4;
         let proc = (if proc0 = 0 then t_proc cth else proc0);
         (result, s6) \<leftarrow> proc_addthread proc new s5;
         case result of
           Inl e \<Rightarrow> do { s7 \<leftarrow> thread_destroy cur new s6; Some (Inl e, s7) }
         | Inr _ \<Rightarrow> do {
             s7 \<leftarrow> upd_thr new (\<lambda>th. th\<lparr>t_iplhigh_count := t_iplhigh_count th + 1\<rparr>) s6;
             s8 \<leftarrow> upd_thr new (\<lambda>th. th\<lparr>t_context := Startup entrypoint data1 data2\<rparr>) s7;
             s9 \<leftarrow> thread_make_runnable cur new False s8;
             Some (Inr (), s9)
           }
       }
     }
   }"

datatype switched = Same | Idling | To tid

text \<open>What the resumed thread does after \<open>switchframe_switch\<close>: the end of \<open>thread_switch\<close>, or the start of \<open>thread_startup\<close>.\<close>

definition switch_resume :: "tid \<Rightarrow> sched \<Rightarrow> sched kres" where
  "switch_resume cur s = do {
     s1 \<leftarrow> upd_thr cur (\<lambda>th. th\<lparr>t_wchan_name := None, t_state := S_RUN\<rparr>) s;
     c \<leftarrow> curcpu cur s1;
     s2 \<leftarrow> spinlock_release (Lk_runqueue c) cur s1;
     s3 \<leftarrow> cur_activate cur s2;
     exorcise cur s3
   }"

definition switch_finish :: "tid \<Rightarrow> int \<Rightarrow> sched \<Rightarrow> sched kres" where
  "switch_finish cur spl s = do {
     s1 \<leftarrow> switch_resume cur s;
     (_, s2) \<leftarrow> splx cur spl s1;
     Some s2
   }"

definition thread_startup :: "tid \<Rightarrow> sched \<Rightarrow> sched kres" where
  "thread_startup cur s = do {
     s1 \<leftarrow> switch_resume cur s;
     (_, s2) \<leftarrow> spl0 cur s1;
     Some s2
   }"

definition switch_to :: "tid \<Rightarrow> sched \<Rightarrow> sched kres" where
  "switch_to next s = do {
     th \<leftarrow> thr s next;
     case t_context th of
       No_frame \<Rightarrow> None
     | Startup _ _ _ \<Rightarrow> thread_startup next s
     | Switch spl \<Rightarrow> switch_finish next spl s
   }"

text \<open>One turn of the loop that looks for the next thread, with the run queue locked.\<close>

definition switch_next :: "tid \<Rightarrow> sched \<Rightarrow> (switched \<times> sched) kres" where
  "switch_next cur s = do {
     c \<leftarrow> curcpu cur s;
     (next, s1) \<leftarrow> tls_rem threadlist_remhead (Runqueue c) s;
     case next of
       None \<Rightarrow> do { s2 \<leftarrow> spinlock_release (Lk_runqueue c) cur s1; Some (Idling, s2) }
     | Some n \<Rightarrow> do {
         s2 \<leftarrow> upd_cpu c (\<lambda>cp. cp\<lparr>c_isidle := False, c_curthread := n\<rparr>) s1;
         s3 \<leftarrow> switch_to n s2;
         Some (To n, s3)
       }
   }"

definition idle_poll :: "tid \<Rightarrow> sched \<Rightarrow> (switched \<times> sched) kres" where
  "idle_poll cur s = do {
     c \<leftarrow> curcpu cur s;
     s1 \<leftarrow> spinlock_acquire (Lk_runqueue c) cur s;
     switch_next cur s1
   }"

definition switch_queue :: "tid \<Rightarrow> threadstate \<Rightarrow> u32 \<Rightarrow> cpuid \<Rightarrow> sched \<Rightarrow> sched kres" where
  "switch_queue cur newstate wc c s =
     (case newstate of
        S_RUN \<Rightarrow> None
      | S_READY \<Rightarrow> thread_make_runnable cur cur True s
      | S_SLEEP \<Rightarrow> do {
          nm \<leftarrow> wc_name s wc;
          s1 \<leftarrow> upd_thr cur (\<lambda>th. th\<lparr>t_wchan_name := Some nm\<rparr>) s;
          s2 \<leftarrow> on_tls (threadlist_addtail (Waiters wc) cur) s1;
          wchan_unlock wc cur s2
        }
      | S_ZOMBIE \<Rightarrow> do {
          s1 \<leftarrow> upd_thr cur (\<lambda>th. th\<lparr>t_wchan_name := Some ''ZOMBIE''\<rparr>) s;
          on_tls (threadlist_addtail (Zombies c) cur) s1
        })"

definition thread_switch :: "tid \<Rightarrow> threadstate \<Rightarrow> u32 \<Rightarrow> sched \<Rightarrow> (switched \<times> sched) kres" where
  "thread_switch cur newstate wc s = do {
     (spl, s1) \<leftarrow> splhigh cur s;
     c \<leftarrow> curcpu cur s1;
     cp \<leftarrow> aget (allcpus s1) c;
     if c_isidle cp then do { (_, s2) \<leftarrow> splx cur spl s1; Some (Same, s2) }
     else do {
       thread_checkstack cur s1;
       s2 \<leftarrow> spinlock_acquire (Lk_runqueue c) cur s1;
       if newstate = S_READY \<and> threadlist_isempty (Runqueue c) (tls s2) then do {
         s3 \<leftarrow> spinlock_release (Lk_runqueue c) cur s2;
         (_, s4) \<leftarrow> splx cur spl s3;
         Some (Same, s4)
       } else do {
         s3 \<leftarrow> switch_queue cur newstate wc c s2;
         s4 \<leftarrow> upd_thr cur (\<lambda>th. th\<lparr>t_state := newstate, t_context := Switch spl\<rparr>) s3;
         s5 \<leftarrow> upd_cpu c (\<lambda>cp. cp\<lparr>c_isidle := True\<rparr>) s4;
         switch_next cur s5
       }
     }
   }"

definition thread_yield :: "tid \<Rightarrow> sched \<Rightarrow> (switched \<times> sched) kres" where
  "thread_yield cur s = thread_switch cur S_READY 0 s"

definition thread_exit :: "tid \<Rightarrow> sched \<Rightarrow> (switched \<times> sched) kres" where
  "thread_exit cur s = do {
     th \<leftarrow> thr s cur;
     kassert (t_proc th = kproc s \<or> t_proc th = 0);
     s1 \<leftarrow> (if t_proc th = kproc s then proc_remthread cur s else Some s);
     th1 \<leftarrow> thr s1 cur;
     kassert (t_proc th1 = 0);
     thread_checkstack cur s1;
     (_, s2) \<leftarrow> splhigh cur s1;
     (r, s3) \<leftarrow> thread_switch cur S_ZOMBIE 0 s2;
     if r = Same then None else Some (r, s3)
   }"

subsection \<open>Wait channels\<close>

definition wchan_create :: "string \<Rightarrow> sched \<Rightarrow> (u32 \<times> sched) kres" where
  "wchan_create name s = do {
     (wc, s1) \<leftarrow> do_kmalloc sizeof_wchan s;
     if wc = 0 then Some (0, s1)
     else do {
       let s2 = spinlock_init (Lk_wchan wc) s1;
       Some (wc, s2\<lparr>tls := threadlist_init (Waiters wc) (tls s2), wc_name := (wc_name s2)(wc \<mapsto> name)\<rparr>)
     }
   }"

definition wchan_destroy :: "u32 \<Rightarrow> sched \<Rightarrow> sched kres" where
  "wchan_destroy wc s = do {
     spinlock_cleanup (Lk_wchan wc) s;
     threadlist_cleanup (Waiters wc) (tls s);
     s1 \<leftarrow> do_kfree wc s;
     Some (s1\<lparr>wc_name := (wc_name s1)(wc := None)\<rparr>)
   }"

definition wchan_sleep :: "u32 \<Rightarrow> tid \<Rightarrow> sched \<Rightarrow> (switched \<times> sched) kres" where
  "wchan_sleep wc cur s = do {
     th \<leftarrow> thr s cur;
     kassert (\<not> t_in_interrupt th);
     thread_switch cur S_SLEEP wc s
   }"

definition wchan_wakeone :: "u32 \<Rightarrow> tid \<Rightarrow> sched \<Rightarrow> sched kres" where
  "wchan_wakeone wc cur s = do {
     s1 \<leftarrow> spinlock_acquire (Lk_wchan wc) cur s;
     (target, s2) \<leftarrow> tls_rem threadlist_remhead (Waiters wc) s1;
     s3 \<leftarrow> spinlock_release (Lk_wchan wc) cur s2;
     case target of None \<Rightarrow> Some s3 | Some t \<Rightarrow> thread_make_runnable cur t False s3
   }"

partial_function (option) wake_list :: "tlist \<Rightarrow> tid \<Rightarrow> sched \<Rightarrow> sched kres" where
  "wake_list l cur s = do {
     (target, s1) \<leftarrow> tls_rem threadlist_remhead l s;
     case target of None \<Rightarrow> Some s1
     | Some t \<Rightarrow> do { s2 \<leftarrow> thread_make_runnable cur t False s1; wake_list l cur s2 }
   }"

definition wchan_wakeall :: "u32 \<Rightarrow> tid \<Rightarrow> sched \<Rightarrow> sched kres" where
  "wchan_wakeall wc cur s = do {
     c \<leftarrow> curcpu cur s;
     let list = Wakelist c;
     s1 \<leftarrow> spinlock_acquire (Lk_wchan wc) cur (s\<lparr>tls := threadlist_init list (tls s)\<rparr>);
     s2 \<leftarrow> on_tls (move_threads threadlist_remhead threadlist_addtail (Waiters wc) list) s1;
     s3 \<leftarrow> spinlock_release (Lk_wchan wc) cur s2;
     s4 \<leftarrow> wake_list list cur s3;
     threadlist_cleanup list (tls s4);
     Some s4
   }"

definition wchan_isempty :: "u32 \<Rightarrow> tid \<Rightarrow> sched \<Rightarrow> (bool \<times> sched) kres" where
  "wchan_isempty wc cur s = do {
     s1 \<leftarrow> spinlock_acquire (Lk_wchan wc) cur s;
     let ret = threadlist_isempty (Waiters wc) (tls s1);
     s2 \<leftarrow> spinlock_release (Lk_wchan wc) cur s1;
     Some (ret, s2)
   }"

subsection \<open>Migration\<close>

text \<open>The first loop: the total length of the run queues and the length of our own.\<close>

function count_runqueues :: "tid \<Rightarrow> nat \<Rightarrow> nat \<Rightarrow> u32 \<Rightarrow> u32 \<Rightarrow> sched \<Rightarrow> (u32 \<times> u32 \<times> sched) kres" where
  "count_runqueues cur i numcpus my tot s =
     (if i < numcpus then do {
        aget (allcpus s) i;
        me \<leftarrow> curcpu cur s;
        s1 \<leftarrow> spinlock_acquire (Lk_runqueue i) cur s;
        let tot' = tot + tl_count (tls s1) (Runqueue i);
        let my' = (if i = me then tl_count (tls s1) (Runqueue i) else my);
        s2 \<leftarrow> spinlock_release (Lk_runqueue i) cur s1;
        count_runqueues cur (i + 1) numcpus my' tot' s2
      } else Some (my, tot, s))"
  by auto
termination
  by (relation "measure (\<lambda>(cur, i, numcpus, my, tot, s). numcpus - i)") auto

text \<open>Taking the last \<open>n\<close> threads of our own queue; the loop adds whatever \<open>threadlist_remtail\<close> returned, and a null thread has no list node.\<close>

fun take_victims :: "nat \<Rightarrow> cpuid \<Rightarrow> sched \<Rightarrow> sched kres" where
  "take_victims 0 me s = Some s"
| "take_victims (Suc n) me s = do {
     (t, s1) \<leftarrow> tls_rem threadlist_remtail (Runqueue me) s;
     v \<leftarrow> t;
     s2 \<leftarrow> on_tls (threadlist_addhead (Victims me) v) s1;
     take_victims n me s2
   }"

text \<open>Filling the run queue of processor \<open>c\<close> up to its share; every turn lowers \<open>to_send\<close>.\<close>

fun send_victims :: "tid \<Rightarrow> cpuid \<Rightarrow> u32 \<Rightarrow> cpuid \<Rightarrow> nat \<Rightarrow> sched \<Rightarrow> (nat \<times> sched) kres" where
  "send_victims cur me one_share c 0 s = Some (0, s)"
| "send_victims cur me one_share c (Suc to_send) s =
     (if tl_count (tls s) (Runqueue c) < one_share then do {
        (t0, s1) \<leftarrow> tls_rem threadlist_remhead (Victims me) s;
        t \<leftarrow> t0;
        if t = cur then do {
          s2 \<leftarrow> on_tls (threadlist_addtail (Victims me) t) s1;
          send_victims cur me one_share c to_send s2
        } else do {
          s2 \<leftarrow> upd_thr t (\<lambda>th. th\<lparr>t_cpu := Some c\<rparr>) s1;
          s3 \<leftarrow> on_tls (threadlist_addtail (Runqueue c) t) s2;
          cp \<leftarrow> aget (allcpus s3) c;
          s4 \<leftarrow> (if c_isidle cp then ipi_send cur c IPI_UNIDLE s3 else Some s3);
          send_victims cur me one_share c to_send s4
        }
      } else Some (Suc to_send, s))"

function spread_victims :: "tid \<Rightarrow> cpuid \<Rightarrow> u32 \<Rightarrow> nat \<Rightarrow> nat \<Rightarrow> nat \<Rightarrow> sched \<Rightarrow> sched kres" where
  "spread_victims cur me one_share i numcpus to_send s =
     (if i < numcpus \<and> 0 < to_send then do {
        aget (allcpus s) i;
        if i = me then spread_victims cur me one_share (i + 1) numcpus to_send s
        else do {
          s1 \<leftarrow> spinlock_acquire (Lk_runqueue i) cur s;
          (to_send', s2) \<leftarrow> send_victims cur me one_share i to_send s1;
          s3 \<leftarrow> spinlock_release (Lk_runqueue i) cur s2;
          spread_victims cur me one_share (i + 1) numcpus to_send' s3
        }
      } else Some s)"
  by auto
termination
  by (relation "measure (\<lambda>(cur, me, one_share, i, numcpus, to_send, s). numcpus - i)") auto

declare count_runqueues.simps [simp del] spread_victims.simps [simp del]

definition thread_consider_migration :: "tid \<Rightarrow> sched \<Rightarrow> sched kres" where
  "thread_consider_migration cur s = do {
     let numcpus = length (allcpus s);
     me \<leftarrow> curcpu cur s;
     (my_count, total_count, s1) \<leftarrow> count_runqueues cur 0 numcpus 0 0 s;
     let one_share = (total_count + of_nat numcpus - 1) div of_nat numcpus;
     if my_count < one_share then Some s1
     else do {
       let to_send = unat (my_count - one_share);
       s2 \<leftarrow> spinlock_acquire (Lk_runqueue me) cur (s1\<lparr>tls := threadlist_init (Victims me) (tls s1)\<rparr>);
       s3 \<leftarrow> take_victims to_send me s2;
       s4 \<leftarrow> spinlock_release (Lk_runqueue me) cur s3;
       s5 \<leftarrow> spread_victims cur me one_share 0 numcpus to_send s4;
       s8 \<leftarrow> (if \<not> threadlist_isempty (Victims me) (tls s5) then do {
                s6 \<leftarrow> spinlock_acquire (Lk_runqueue me) cur s5;
                s7 \<leftarrow> on_tls (move_threads threadlist_remhead threadlist_addtail (Victims me) (Runqueue me)) s6;
                spinlock_release (Lk_runqueue me) cur s7
              } else Some s5);
       kassert (threadlist_isempty (Victims me) (tls s8));
       threadlist_cleanup (Victims me) (tls s8);
       Some s8
     }
   }"

subsection \<open>The clock\<close>

definition SCHEDULE_HARDCLOCKS :: u32 where
  "SCHEDULE_HARDCLOCKS = 4"

definition MIGRATE_HARDCLOCKS :: u32 where
  "MIGRATE_HARDCLOCKS = 16"

definition schedule :: "sched \<Rightarrow> sched" where
  "schedule s = s"

definition hardclock_bootstrap :: "sched \<Rightarrow> sched kres" where
  "hardclock_bootstrap s = do {
     (wc, s1) \<leftarrow> wchan_create ''lbolt'' s;
     kassert (wc \<noteq> 0);
     Some (s1\<lparr>lbolt := wc\<rparr>)
   }"

definition timerclock :: "tid \<Rightarrow> sched \<Rightarrow> sched kres" where
  "timerclock cur s = wchan_wakeall (lbolt s) cur s"

definition hardclock :: "tid \<Rightarrow> sched \<Rightarrow> (switched \<times> sched) kres" where
  "hardclock cur s = do {
     c \<leftarrow> curcpu cur s;
     s1 \<leftarrow> upd_cpu c (\<lambda>cp. cp\<lparr>c_hardclocks := c_hardclocks cp + 1\<rparr>) s;
     cp \<leftarrow> aget (allcpus s1) c;
     let s2 = (if c_hardclocks cp mod SCHEDULE_HARDCLOCKS = 0 then schedule s1 else s1);
     s3 \<leftarrow> (if c_hardclocks cp mod MIGRATE_HARDCLOCKS = 0 then thread_consider_migration cur s2 else Some s2);
     thread_yield cur s3
   }"

text \<open>One turn of the loop of \<open>clocksleep\<close>; the thread goes on with one second less when it is woken.\<close>

definition clocksleep :: "int \<Rightarrow> tid \<Rightarrow> sched \<Rightarrow> (int \<times> switched \<times> sched) kres" where
  "clocksleep num_secs cur s =
     (if num_secs > 0 then do {
        s1 \<leftarrow> wchan_lock (lbolt s) cur s;
        (r, s2) \<leftarrow> wchan_sleep (lbolt s) cur s1;
        Some (num_secs - 1, r, s2)
      } else Some (num_secs, Same, s))"

end
