(* ===== verification/Synch.thy ===== *)
theory Synch
  imports Threads Ring_Queue
begin

text \<open>
  The synchronization primitives of src/kern/thread/synch.c: semaphores, locks and condition
  variables, on top of the spinlocks and the wait channels of the thread system.

  A call that may sleep is cut where the thread sleeps: \<open>P\<close>, \<open>lock_acquire\<close> and \<open>cv_wait\<close> run up to the
  end of the call or to the context switch inside \<open>wchan_sleep\<close>, and \<open>P_again\<close> and \<open>lock_again\<close> are what
  the thread does when it continues after \<open>wchan_sleep\<close>: it takes the spinlock and tests the condition
  of the loop again.
\<close>

subsection \<open>State\<close>

record semaphore =
  sem_name :: u32
  sem_wchan :: u32
  sem_count :: int

record lock =
  lk_name :: u32
  lk_wchan :: u32
  lk_owner :: tid

record cv =
  cv_name :: u32
  cv_wchan :: u32

record synch =
  sch :: sched
  sems :: "u32 \<rightharpoonup> semaphore"
  slocks :: "u32 \<rightharpoonup> lock"
  cvs :: "u32 \<rightharpoonup> cv"

definition sizeof_semaphore :: nat where
  "sizeof_semaphore = 20"

definition sizeof_lock :: nat where
  "sizeof_lock = 20"

definition sizeof_cv :: nat where
  "sizeof_cv = 8"

definition on_sch :: "(sched \<Rightarrow> sched kres) \<Rightarrow> synch \<Rightarrow> synch kres" where
  "on_sch f y = do { s \<leftarrow> f (sch y); Some (y\<lparr>sch := s\<rparr>) }"

text \<open>How a call that may sleep ends.\<close>

datatype outcome = Went_on | Slept switched

subsection \<open>Semaphores\<close>

definition sem_create :: "string \<Rightarrow> int \<Rightarrow> synch \<Rightarrow> (u32 \<times> synch) kres" where
  "sem_create name initial_count y = do {
     kassert (0 \<le> initial_count);
     (sem, s1) \<leftarrow> do_kmalloc sizeof_semaphore (sch y);
     if sem = 0 then Some (0, y\<lparr>sch := s1\<rparr>)
     else do {
       (nm, s2) \<leftarrow> kstrdup name s1;
       if nm = 0 then do { s3 \<leftarrow> do_kfree sem s2; Some (0, y\<lparr>sch := s3\<rparr>) }
       else do {
         (wc, s3) \<leftarrow> wchan_create name s2;
         if wc = 0 then do { s4 \<leftarrow> do_kfree nm s3; s5 \<leftarrow> do_kfree sem s4; Some (0, y\<lparr>sch := s5\<rparr>) }
         else Some (sem, y\<lparr>sch := spinlock_init (Lk_sem sem) s3,
           sems := (sems y)(sem \<mapsto> \<lparr>sem_name = nm, sem_wchan = wc, sem_count = initial_count\<rparr>)\<rparr>)
       }
     }
   }"

definition sem_destroy :: "u32 \<Rightarrow> synch \<Rightarrow> synch kres" where
  "sem_destroy sem y = do {
     x \<leftarrow> sems y sem;
     spinlock_cleanup (Lk_sem sem) (sch y);
     s1 \<leftarrow> wchan_destroy (sem_wchan x) (sch y);
     s2 \<leftarrow> do_kfree (sem_name x) s1;
     s3 \<leftarrow> do_kfree sem s2;
     Some (y\<lparr>sch := s3, sems := (sems y)(sem := None)\<rparr>)
   }"

text \<open>From the test of the loop, with the spinlock held.\<close>

definition P_loop :: "u32 \<Rightarrow> tid \<Rightarrow> synch \<Rightarrow> (outcome \<times> synch) kres" where
  "P_loop sem cur y = do {
     x \<leftarrow> sems y sem;
     if sem_count x = 0 then do {
       y1 \<leftarrow> on_sch (wchan_lock (sem_wchan x) cur) y;
       y2 \<leftarrow> on_sch (spinlock_release (Lk_sem sem) cur) y1;
       (r, s) \<leftarrow> wchan_sleep (sem_wchan x) cur (sch y2);
       Some (Slept r, y2\<lparr>sch := s\<rparr>)
     } else do {
       kassert (sem_count x > 0);
       let y1 = y\<lparr>sems := (sems y)(sem \<mapsto> x\<lparr>sem_count := sem_count x - 1\<rparr>)\<rparr>;
       y2 \<leftarrow> on_sch (spinlock_release (Lk_sem sem) cur) y1;
       Some (Went_on, y2)
     }
   }"

definition P_again :: "u32 \<Rightarrow> tid \<Rightarrow> synch \<Rightarrow> (outcome \<times> synch) kres" where
  "P_again sem cur y = do { y1 \<leftarrow> on_sch (spinlock_acquire (Lk_sem sem) cur) y; P_loop sem cur y1 }"

definition P :: "u32 \<Rightarrow> tid \<Rightarrow> synch \<Rightarrow> (outcome \<times> synch) kres" where
  "P sem cur y = do {
     kassert (sem \<noteq> 0);
     th \<leftarrow> thr (sch y) cur;
     kassert (\<not> t_in_interrupt th);
     P_again sem cur y
   }"

definition V :: "u32 \<Rightarrow> tid \<Rightarrow> synch \<Rightarrow> synch kres" where
  "V sem cur y = do {
     kassert (sem \<noteq> 0);
     y1 \<leftarrow> on_sch (spinlock_acquire (Lk_sem sem) cur) y;
     x \<leftarrow> sems y1 sem;
     let n = int32 (sem_count x + 1);
     let y2 = y1\<lparr>sems := (sems y1)(sem \<mapsto> x\<lparr>sem_count := n\<rparr>)\<rparr>;
     kassert (n > 0);
     y3 \<leftarrow> on_sch (wchan_wakeone (sem_wchan x) cur) y2;
     on_sch (spinlock_release (Lk_sem sem) cur) y3
   }"

subsection \<open>Locks\<close>

definition lock_create :: "string \<Rightarrow> synch \<Rightarrow> (u32 \<times> synch) kres" where
  "lock_create name y = do {
     (lk, s1) \<leftarrow> do_kmalloc sizeof_lock (sch y);
     if lk = 0 then Some (0, y\<lparr>sch := s1\<rparr>)
     else do {
       (nm, s2) \<leftarrow> kstrdup name s1;
       if nm = 0 then do { s3 \<leftarrow> do_kfree lk s2; Some (0, y\<lparr>sch := s3\<rparr>) }
       else do {
         (wc, s3) \<leftarrow> wchan_create name (spinlock_init (Lk_lock lk) s2);
         if wc = 0 then do { s4 \<leftarrow> do_kfree nm s3; s5 \<leftarrow> do_kfree lk s4; Some (0, y\<lparr>sch := s5\<rparr>) }
         else Some (lk, y\<lparr>sch := s3, slocks := (slocks y)(lk \<mapsto> \<lparr>lk_name = nm, lk_wchan = wc, lk_owner = 0\<rparr>)\<rparr>)
       }
     }
   }"

definition lock_destroy :: "u32 \<Rightarrow> synch \<Rightarrow> synch kres" where
  "lock_destroy lk y = do {
     x \<leftarrow> slocks y lk;
     spinlock_cleanup (Lk_lock lk) (sch y);
     s1 \<leftarrow> wchan_destroy (lk_wchan x) (sch y);
     s2 \<leftarrow> do_kfree (lk_name x) s1;
     s3 \<leftarrow> do_kfree lk s2;
     Some (y\<lparr>sch := s3, slocks := (slocks y)(lk := None)\<rparr>)
   }"

definition lock_do_i_hold :: "u32 \<Rightarrow> tid \<Rightarrow> synch \<Rightarrow> bool kres" where
  "lock_do_i_hold lk cur y = do {
     kassert (lk \<noteq> 0);
     x \<leftarrow> slocks y lk;
     Some (lk_owner x = cur)
   }"

definition lock_loop :: "u32 \<Rightarrow> tid \<Rightarrow> synch \<Rightarrow> (outcome \<times> synch) kres" where
  "lock_loop lk cur y = do {
     x \<leftarrow> slocks y lk;
     if lk_owner x \<noteq> 0 then do {
       y1 \<leftarrow> on_sch (wchan_lock (lk_wchan x) cur) y;
       y2 \<leftarrow> on_sch (spinlock_release (Lk_lock lk) cur) y1;
       (r, s) \<leftarrow> wchan_sleep (lk_wchan x) cur (sch y2);
       Some (Slept r, y2\<lparr>sch := s\<rparr>)
     } else do {
       let y1 = y\<lparr>slocks := (slocks y)(lk \<mapsto> x\<lparr>lk_owner := cur\<rparr>)\<rparr>;
       y2 \<leftarrow> on_sch (spinlock_release (Lk_lock lk) cur) y1;
       Some (Went_on, y2)
     }
   }"

definition lock_again :: "u32 \<Rightarrow> tid \<Rightarrow> synch \<Rightarrow> (outcome \<times> synch) kres" where
  "lock_again lk cur y = do { y1 \<leftarrow> on_sch (spinlock_acquire (Lk_lock lk) cur) y; lock_loop lk cur y1 }"

definition lock_acquire :: "u32 \<Rightarrow> tid \<Rightarrow> synch \<Rightarrow> (outcome \<times> synch) kres" where
  "lock_acquire lk cur y = do {
     kassert (lk \<noteq> 0);
     mine \<leftarrow> lock_do_i_hold lk cur y;
     kassert (\<not> mine);
     th \<leftarrow> thr (sch y) cur;
     kassert (\<not> t_in_interrupt th);
     lock_again lk cur y
   }"

definition lock_release :: "u32 \<Rightarrow> tid \<Rightarrow> synch \<Rightarrow> synch kres" where
  "lock_release lk cur y = do {
     kassert (lk \<noteq> 0);
     mine \<leftarrow> lock_do_i_hold lk cur y;
     kassert mine;
     y1 \<leftarrow> on_sch (spinlock_acquire (Lk_lock lk) cur) y;
     x \<leftarrow> slocks y1 lk;
     let y2 = y1\<lparr>slocks := (slocks y1)(lk \<mapsto> x\<lparr>lk_owner := 0\<rparr>)\<rparr>;
     y3 \<leftarrow> on_sch (wchan_wakeone (lk_wchan x) cur) y2;
     on_sch (spinlock_release (Lk_lock lk) cur) y3
   }"

subsection \<open>Condition variables\<close>

definition cv_create :: "string \<Rightarrow> synch \<Rightarrow> (u32 \<times> synch) kres" where
  "cv_create name y = do {
     (cv, s1) \<leftarrow> do_kmalloc sizeof_cv (sch y);
     if cv = 0 then Some (0, y\<lparr>sch := s1\<rparr>)
     else do {
       (nm, s2) \<leftarrow> kstrdup name s1;
       if nm = 0 then do { s3 \<leftarrow> do_kfree cv s2; Some (0, y\<lparr>sch := s3\<rparr>) }
       else do {
         (wc, s3) \<leftarrow> wchan_create name s2;
         if wc = 0 then do { s4 \<leftarrow> do_kfree nm s3; s5 \<leftarrow> do_kfree cv s4; Some (0, y\<lparr>sch := s5\<rparr>) }
         else Some (cv, y\<lparr>sch := s3, cvs := (cvs y)(cv \<mapsto> \<lparr>cv_name = nm, cv_wchan = wc\<rparr>)\<rparr>)
       }
     }
   }"

definition cv_destroy :: "u32 \<Rightarrow> synch \<Rightarrow> synch kres" where
  "cv_destroy cv y = do {
     x \<leftarrow> cvs y cv;
     s1 \<leftarrow> wchan_destroy (cv_wchan x) (sch y);
     s2 \<leftarrow> do_kfree (cv_name x) s1;
     s3 \<leftarrow> do_kfree cv s2;
     Some (y\<lparr>sch := s3, cvs := (cvs y)(cv := None)\<rparr>)
   }"

text \<open>Up to the sleep; the thread continues with \<open>lock_acquire\<close>.\<close>

definition cv_wait :: "u32 \<Rightarrow> u32 \<Rightarrow> tid \<Rightarrow> synch \<Rightarrow> (outcome \<times> synch) kres" where
  "cv_wait cv lk cur y = do {
     kassert (cv \<noteq> 0);
     kassert (lk \<noteq> 0);
     x \<leftarrow> cvs y cv;
     y1 \<leftarrow> on_sch (wchan_lock (cv_wchan x) cur) y;
     y2 \<leftarrow> lock_release lk cur y1;
     (r, s) \<leftarrow> wchan_sleep (cv_wchan x) cur (sch y2);
     Some (Slept r, y2\<lparr>sch := s\<rparr>)
   }"

definition cv_signal :: "u32 \<Rightarrow> u32 \<Rightarrow> tid \<Rightarrow> synch \<Rightarrow> synch kres" where
  "cv_signal cv lk cur y = do {
     kassert (cv \<noteq> 0);
     mine \<leftarrow> lock_do_i_hold lk cur y;
     kassert mine;
     x \<leftarrow> cvs y cv;
     on_sch (wchan_wakeone (cv_wchan x) cur) y
   }"

definition cv_broadcast :: "u32 \<Rightarrow> u32 \<Rightarrow> tid \<Rightarrow> synch \<Rightarrow> synch kres" where
  "cv_broadcast cv lk cur y = do {
     kassert (cv \<noteq> 0);
     mine \<leftarrow> lock_do_i_hold lk cur y;
     kassert mine;
     x \<leftarrow> cvs y cv;
     on_sch (wchan_wakeall (cv_wchan x) cur) y
   }"

end
