(* ===== verification/Threads_Inv.thy ===== *)
theory Threads_Inv
  imports Threads
begin

text \<open>
  The invariant of the thread system: where every thread is, what its state, interrupt level and
  saved context are there, and that no lock is held between the operations.  The first part shows
  that a lock taken and released around a few writes leaves only the writes.
\<close>

subsection \<open>Locks taken and released\<close>

abbreviation unlocked :: spinlock where
  "unlocked \<equiv> \<lparr>lk_lock = 0, lk_holder = None\<rparr>"

abbreviation locked_by :: "cpuid \<Rightarrow> spinlock" where
  "locked_by c \<equiv> \<lparr>lk_lock = 1, lk_holder = Some c\<rparr>"

text \<open>The current thread is \<open>th\<close>, on processor \<open>c\<close>, and the interrupt switch follows its count.\<close>

definition running :: "tid \<Rightarrow> cpuid \<Rightarrow> thread \<Rightarrow> ('a) ksync_scheme \<Rightarrow> bool" where
  "running cur c th s \<longleftrightarrow> cur \<noteq> 0 \<and> thr s cur = Some th \<and> t_cpu th = Some c \<and> 0 \<le> t_iplhigh_count th \<and>
     (irq s c \<longleftrightarrow> t_iplhigh_count th = 0)"

definition locked :: "lkid \<Rightarrow> tid \<Rightarrow> cpuid \<Rightarrow> thread \<Rightarrow> ('a) ksync_scheme \<Rightarrow> ('a) ksync_scheme" where
  "locked lk cur c th s = s\<lparr>thr := (thr s)(cur \<mapsto> th\<lparr>t_iplhigh_count := t_iplhigh_count th + 1\<rparr>),
     irq := (irq s)(c := False), lks := (lks s)(lk := locked_by c)\<rparr>"

lemma running_cur: "running cur c th s \<Longrightarrow> curcpu cur s = Some c" "running cur c th s \<Longrightarrow> thr s cur = Some th"
  by (auto simp: running_def curcpu_def)

lemma acquire_locked:
  assumes "running cur c th s" and "lks s lk = unlocked"
  shows "spinlock_acquire lk cur s = Some (locked lk cur c th s)"
proof -
  have "(irq s)(c := False) = irq s" if "t_iplhigh_count th \<noteq> 0" using assms(1) that by (auto simp: running_def fun_eq_iff)
  then show ?thesis using assms
    by (auto simp: spinlock_acquire_eq [where th = th and c = c] running_def locked_def put_lk_def put_thr_def set_irq_def
      intro!: ksync.equality)
qed

lemma running_locked: "running cur c th s \<Longrightarrow> running cur c (th\<lparr>t_iplhigh_count := t_iplhigh_count th + 1\<rparr>) (locked lk cur c th s)"
  by (auto simp: running_def locked_def)

lemma release_locked:
  assumes run: "running cur c th s" and free: "lks s lk = unlocked"
    and same: "thr s' = thr (locked lk cur c th s)" "irq s' = irq (locked lk cur c th s)" "lks s' = lks (locked lk cur c th s)"
  shows "spinlock_release lk cur s' = Some (s'\<lparr>thr := thr s, irq := irq s, lks := lks s\<rparr>)"
proof -
  have "thr s' cur = Some (th\<lparr>t_iplhigh_count := t_iplhigh_count th + 1\<rparr>)" "lk_holder (lks s' lk) = Some c"
    using same by (simp_all add: locked_def)
  moreover have "(thr s)(cur \<mapsto> th) = thr s" "(lks s)(lk := unlocked) = lks s"
    using run free by (auto simp: running_def fun_eq_iff)
  moreover have "(irq s)(c := True) = irq s" if "t_iplhigh_count th = 0" using run that by (auto simp: running_def fun_eq_iff)
  moreover have "(irq s)(c := False) = irq s" if "t_iplhigh_count th \<noteq> 0" using run that by (auto simp: running_def fun_eq_iff)
  ultimately show ?thesis using run same
    by (auto simp: spinlock_release_eq [where th = "th\<lparr>t_iplhigh_count := t_iplhigh_count th + 1\<rparr>" and c = c] running_def
      put_lk_def put_thr_def set_irq_def locked_def intro!: ksync.equality)
qed

lemma locked_more [simp]: "ksync.more (locked lk cur c th s) = ksync.more s"
  by (simp add: locked_def)

lemma locked_sched [simp]:
  "allcpus (locked lk cur c th s) = allcpus s" "tls (locked lk cur c th s) = tls s" "wc_name (locked lk cur c th s) = wc_name s"
  "heap (locked lk cur c th s) = heap s" "strs (locked lk cur c th s) = strs s" "kproc (locked lk cur c th s) = kproc s"
  "p_threads (locked lk cur c th s) = p_threads s" "p_vm (locked lk cur c th s) = p_vm s" "tlbs (locked lk cur c th s) = tlbs s"
  "ipi_line (locked lk cur c th s) = ipi_line s" "lbolt (locked lk cur c th s) = lbolt s"
  by (simp_all add: locked_def)

lemma locked_restore [simp]:
  "locked lk cur c th s\<lparr>thr := thr s, irq := irq s, lks := lks s\<rparr> = s"
  "locked lk cur c th s\<lparr>tls := l, thr := thr s, irq := irq s, lks := lks s\<rparr> = s\<lparr>tls := l\<rparr>"
  by (simp_all add: locked_def)

text \<open>Posting an interprocessor interrupt.\<close>

definition posted :: "cpuid \<Rightarrow> nat \<Rightarrow> sched \<Rightarrow> sched" where
  "posted c code s = s\<lparr>allcpus := (allcpus s)[c := (allcpus s ! c)\<lparr>c_ipi_pending := c_ipi_pending (allcpus s ! c) OR push_bit code 1\<rparr>],
     ipi_line := (ipi_line s)(c := True)\<rparr>"

lemma ipi_send_eq:
  assumes "running cur c th s" and "lks s (Lk_ipi d) = unlocked" and "d < length (allcpus s)" and "code < 32"
  shows "ipi_send cur d code s = Some (posted d code s)"
  using assms
  by (simp add: ipi_send_def acquire_locked upd_cpu_def mainbus_send_ipi_def release_locked [OF assms(1,2)] posted_def)

text \<open>Making a thread runnable on processor \<open>d\<close>, once it is on that processor's run queue.\<close>

definition made_runnable :: "cpuid \<Rightarrow> (tid, tlist) tlstore \<Rightarrow> sched \<Rightarrow> sched" where
  "made_runnable d l s = (if c_isidle (allcpus s ! d) then posted d IPI_UNIDLE (s\<lparr>tls := l\<rparr>) else s\<lparr>tls := l\<rparr>)"

lemma posted_ksync [simp]: "thr (posted d code s) = thr s" "irq (posted d code s) = irq s" "lks (posted d code s) = lks s"
  "length (allcpus (posted d code s)) = length (allcpus s)" "tls (posted d code s) = tls s" "heap (posted d code s) = heap s"
  "wc_name (posted d code s) = wc_name s" "p_threads (posted d code s) = p_threads s" "tlbs (posted d code s) = tlbs s"
  "p_vm (posted d code s) = p_vm s" "kproc (posted d code s) = kproc s" "strs (posted d code s) = strs s" "lbolt (posted d code s) = lbolt s"
  by (simp_all add: posted_def)

lemma posted_cpus [simp]: "c_curthread (allcpus (posted d code s) ! c) = c_curthread (allcpus s ! c) \<and>
  c_isidle (allcpus (posted d code s) ! c) = c_isidle (allcpus s ! c)"
  by (cases "c = d \<and> d < length (allcpus s)", auto simp: posted_def nth_list_update list_update_beyond not_less)

lemma make_runnable_eq:
  assumes run: "running cur c th s" and target: "thr s target = Some tt" "t_cpu tt = Some d" and d: "d < length (allcpus s)"
    and free: "lks s (Lk_runqueue d) = unlocked" "lks s (Lk_ipi d) = unlocked"
    and add: "threadlist_addtail (Runqueue d) target (tls s) = Some l"
  shows "thread_make_runnable cur target False s = Some (made_runnable d l s)"
proof -
  let ?s1 = "locked (Lk_runqueue d) cur c th s"
  have run1: "running cur c (th\<lparr>t_iplhigh_count := t_iplhigh_count th + 1\<rparr>) (?s1\<lparr>tls := l\<rparr>)"
    using running_locked [OF run, of "Lk_runqueue d"] by (simp add: running_def)
  have free1: "lks (?s1\<lparr>tls := l\<rparr>) (Lk_ipi d) = unlocked" using free by (simp add: locked_def)
  have ipi: "ipi_send cur d IPI_UNIDLE (?s1\<lparr>tls := l\<rparr>) = Some (posted d IPI_UNIDLE (?s1\<lparr>tls := l\<rparr>))"
    by (rule ipi_send_eq [OF run1 free1]) (use d in \<open>simp_all add: IPI_UNIDLE_def\<close>)
  show ?thesis
    using target d add
    by (simp add: thread_make_runnable_def acquire_locked [OF run free(1)] on_tls_def ipi release_locked [OF run free(1)]
      made_runnable_def posted_def)
qed

lemma make_runnable_self_eq:
  assumes run: "running cur c th s" and c: "c < length (allcpus s)" and busy: "\<not> c_isidle (allcpus s ! c)"
    and mine: "lk_holder (lks s (Lk_runqueue c)) = Some c"
    and add: "threadlist_addtail (Runqueue c) cur (tls s) = Some l"
  shows "thread_make_runnable cur cur True s = Some (s\<lparr>tls := l\<rparr>)"
  using assms running_cur [OF run] by (auto simp: thread_make_runnable_def spinlock_do_i_hold_def on_tls_def running_def)

lemma wakeone_eq:
  assumes run: "running cur c th s" and free: "lks s (Lk_wchan wc) = unlocked" "lks s (Lk_runqueue d) = unlocked" "lks s (Lk_ipi d) = unlocked"
    and head: "threadlist_remhead (Waiters wc) (tls s) = Some (Some t, l)" and target: "thr s t = Some tt" "t_cpu tt = Some d"
    and d: "d < length (allcpus s)" and add: "threadlist_addtail (Runqueue d) t l = Some l'"
  shows "wchan_wakeone wc cur s = Some (made_runnable d l' s)"
proof -
  have run1: "running cur c th (s\<lparr>tls := l\<rparr>)" using run by (simp add: running_def)
  have "thread_make_runnable cur t False (s\<lparr>tls := l\<rparr>) = Some (made_runnable d l' (s\<lparr>tls := l\<rparr>))"
    by (rule make_runnable_eq [OF run1]) (use target d free add in simp_all)
  moreover have "made_runnable d l' (s\<lparr>tls := l\<rparr>) = made_runnable d l' s" by (simp add: made_runnable_def posted_def)
  ultimately show ?thesis
    using head by (simp add: wchan_wakeone_def acquire_locked [OF run free(1)] tls_rem_def release_locked [OF run free(1)])
qed

lemma wakeone_none_eq:
  assumes run: "running cur c th s" and free: "lks s (Lk_wchan wc) = unlocked"
    and head: "threadlist_remhead (Waiters wc) (tls s) = Some (None, tls s)"
  shows "wchan_wakeone wc cur s = Some s"
  using head by (simp add: wchan_wakeone_def acquire_locked [OF run free(1)] tls_rem_def release_locked [OF run free(1)])

subsection \<open>The invariant\<close>

text \<open>
  The lists of the system.  \<open>E\<close> names those that exist only while an operation runs: the local lists of
  \<open>wchan_wakeall\<close> and of \<open>thread_consider_migration\<close>.
\<close>

definition sys_lists :: "tlist set \<Rightarrow> sched \<Rightarrow> tlist set" where
  "sys_lists E s = Runqueue ` {..< length (allcpus s)} \<union> Zombies ` {..< length (allcpus s)} \<union> Waiters ` dom (wc_name s) \<union> E"

definition on_list :: "tlist set \<Rightarrow> sched \<Rightarrow> (tlist \<Rightarrow> tid list) \<Rightarrow> tid \<Rightarrow> bool" where
  "on_list E s q t \<longleftrightarrow> (\<exists>l \<in> sys_lists E s. t \<in> set (q l))"

definition runs_on :: "sched \<Rightarrow> tid \<Rightarrow> cpuid \<Rightarrow> bool" where
  "runs_on s t c \<longleftrightarrow> c < length (allcpus s) \<and> c_curthread (allcpus s ! c) = t"

text \<open>
  The current thread of a processor.  While the processor is idle it is the thread that was queued
  last, suspended inside \<open>thread_switch\<close>; when \<open>K\<close> names the processor, it also holds its run queue.
\<close>

definition cpu_ok :: "tlist set \<Rightarrow> cpuid option \<Rightarrow> sched \<Rightarrow> (tlist \<Rightarrow> tid list) \<Rightarrow> cpuid \<Rightarrow> bool" where
  "cpu_ok E K s q c \<longleftrightarrow> (\<exists>th. thr s (c_curthread (allcpus s ! c)) = Some th \<and> t_cpu th = Some c \<and>
     (if c_isidle (allcpus s ! c)
      then on_list E s q (c_curthread (allcpus s ! c)) \<and> t_curspl th = 1 \<and> \<not> irq s c \<and> t_iplhigh_count th = (if K = Some c then 2 else 1)
      else \<not> on_list E s q (c_curthread (allcpus s ! c)) \<and> t_state th \<in> {S_RUN, S_READY} \<and> t_curspl th \<in> {0, 1} \<and>
        t_iplhigh_count th = t_curspl th \<and> (irq s c \<longleftrightarrow> t_curspl th = 0)))"

definition thread_ok :: "nat \<Rightarrow> thread \<Rightarrow> bool" where
  "thread_ok n th \<longleftrightarrow> t_badfaultfunc th = 0 \<and> (t_stack th \<noteq> 0 \<longrightarrow> t_guard th = replicate 4 THREAD_STACK_MAGIC) \<and>
     (\<exists>c < n. t_cpu th = Some c)"

definition parked :: "thread \<Rightarrow> bool" where
  "parked th \<longleftrightarrow> t_curspl th = 1 \<and> t_iplhigh_count th = 2"

fun resumable :: "switchframe \<Rightarrow> bool" where
  "resumable No_frame \<longleftrightarrow> False"
| "resumable (Startup _ _ _) \<longleftrightarrow> True"
| "resumable (Switch spl) \<longleftrightarrow> spl \<in> {0, 1}"

text \<open>What a thread on a list looks like.  A woken thread keeps the state \<open>S_SLEEP\<close> until it runs.\<close>

fun fits :: "tlist \<Rightarrow> thread \<Rightarrow> bool" where
  "fits (Runqueue c) th \<longleftrightarrow> t_cpu th = Some c \<and> t_state th \<in> {S_READY, S_SLEEP}"
| "fits (Zombies c) th \<longleftrightarrow> t_cpu th = Some c \<and> t_state th = S_ZOMBIE \<and> t_proc th = 0"
| "fits (Waiters w) th \<longleftrightarrow> t_state th = S_SLEEP"
| "fits (Victims c) th \<longleftrightarrow> t_cpu th = Some c \<and> t_state th \<in> {S_READY, S_SLEEP}"
| "fits (Wakelist c) th \<longleftrightarrow> t_state th = S_SLEEP"

definition sinv :: "tlist set \<Rightarrow> cpuid option \<Rightarrow> sched \<Rightarrow> (tlist \<Rightarrow> tid list) \<Rightarrow> bool" where
  "sinv E K s q \<longleftrightarrow>
     tl_sys (sys_lists E s) (dom (thr s)) q (tls s) \<and> thr s 0 = None \<and>
     lks s = (case K of None \<Rightarrow> \<lambda>_. unlocked | Some c \<Rightarrow> (\<lambda>_. unlocked)(Lk_runqueue c := locked_by c)) \<and>
     (\<forall>c < length (allcpus s). cpu_ok E K s q c \<and> length (tlbs s c) = NUM_TLB) \<and>
     (\<forall>t th. thr s t = Some th \<longrightarrow> thread_ok (length (allcpus s)) th \<and>
       (\<not> on_list E s q t \<longrightarrow> (\<exists>c. runs_on s t c \<and> \<not> c_isidle (allcpus s ! c))) \<and>
       (on_list E s q t \<longrightarrow> resumable (t_context th) \<and> ((\<exists>c. runs_on s t c) \<or> parked th))) \<and>
     (\<forall>l \<in> sys_lists E s. \<forall>t \<in> set (q l). \<forall>th. thr s t = Some th \<longrightarrow> fits l th)"

lemma sinvD:
  assumes "sinv E K s q"
  shows "tl_sys (sys_lists E s) (dom (thr s)) q (tls s)" and "thr s 0 = None"
    and "\<And>c. c < length (allcpus s) \<Longrightarrow> cpu_ok E K s q c" and "\<And>c. c < length (allcpus s) \<Longrightarrow> length (tlbs s c) = NUM_TLB"
    and "\<And>t th. thr s t = Some th \<Longrightarrow> thread_ok (length (allcpus s)) th"
    and "\<And>t th. thr s t = Some th \<Longrightarrow> \<not> on_list E s q t \<Longrightarrow> \<exists>c. runs_on s t c \<and> \<not> c_isidle (allcpus s ! c)"
    and "\<And>t th. thr s t = Some th \<Longrightarrow> on_list E s q t \<Longrightarrow> resumable (t_context th)"
    and "\<And>t th. thr s t = Some th \<Longrightarrow> on_list E s q t \<Longrightarrow> \<forall>c. \<not> runs_on s t c \<Longrightarrow> parked th"
    and "\<And>l t th. l \<in> sys_lists E s \<Longrightarrow> t \<in> set (q l) \<Longrightarrow> thr s t = Some th \<Longrightarrow> fits l th"
  using assms unfolding sinv_def by blast+

lemma sinv_lks: "sinv E None s q \<Longrightarrow> lks s lk = unlocked"
  "sinv E (Some c) s q \<Longrightarrow> lks s = (\<lambda>_. unlocked)(Lk_runqueue c := locked_by c)"
  by (simp_all add: sinv_def)

text \<open>The invariant depends on the lists only through who is on which, and on a processor only through its current thread and idle flag.\<close>

definition same_cpus :: "sched \<Rightarrow> sched \<Rightarrow> bool" where
  "same_cpus s s' \<longleftrightarrow> length (allcpus s') = length (allcpus s) \<and>
     (\<forall>c < length (allcpus s). c_curthread (allcpus s' ! c) = c_curthread (allcpus s ! c) \<and> c_isidle (allcpus s' ! c) = c_isidle (allcpus s ! c))"

lemma sinv_lists:
  assumes inv: "sinv E K s q" and sys: "tl_sys (sys_lists E s) (dom (thr s)) q' (tls s')"
    and same: "thr s' = thr s" "irq s' = irq s" "lks s' = lks s" "dom (wc_name s') = dom (wc_name s)" "same_cpus s s'"
      "\<And>c. c < length (allcpus s) \<Longrightarrow> length (tlbs s' c) = NUM_TLB"
    and on: "\<And>t. t \<in> dom (thr s) \<Longrightarrow> on_list E s q' t = on_list E s q t"
    and fit: "\<And>l t th. l \<in> sys_lists E s \<Longrightarrow> t \<in> set (q' l) \<Longrightarrow> thr s t = Some th \<Longrightarrow> fits l th"
  shows "sinv E K s' q'"
proof -
  have len: "length (allcpus s') = length (allcpus s)" using same(5) by (simp add: same_cpus_def)
  have li: "sys_lists E s' = sys_lists E s" using same(4) len by (simp add: sys_lists_def)
  have on': "on_list E s' q' t = on_list E s q t" if "t \<in> dom (thr s)" for t using on [OF that] by (simp add: on_list_def li)
  have runs: "runs_on s' t c = runs_on s t c" for t c using same(5) by (auto simp: runs_on_def same_cpus_def)
  have idle: "c_isidle (allcpus s' ! c) = c_isidle (allcpus s ! c)" if "runs_on s t c" for t c
    using same(5) that by (auto simp: runs_on_def same_cpus_def)
  have cpu: "cpu_ok E K s' q' c" if "c < length (allcpus s)" for c
  proof -
    have ok: "cpu_ok E K s q c" by (rule sinvD(3) [OF inv that])
    have e: "c_curthread (allcpus s' ! c) = c_curthread (allcpus s ! c)" "c_isidle (allcpus s' ! c) = c_isidle (allcpus s ! c)"
      using same(5) that by (auto simp: same_cpus_def)
    have o: "on_list E s' q' (c_curthread (allcpus s ! c)) = on_list E s q (c_curthread (allcpus s ! c))"
      by (rule on') (use ok in \<open>auto simp: cpu_ok_def\<close>)
    show ?thesis using ok unfolding cpu_ok_def e o same(1,2) .
  qed
  show ?thesis
    unfolding sinv_def li len same(1,3)
  proof (intro conjI allI impI ballI)
    fix t th assume t: "thr s t = Some th"
    then have o: "on_list E s' q' t = on_list E s q t" by (intro on') auto
    show "thread_ok (length (allcpus s)) th" by (rule sinvD(5) [OF inv t])
    show "\<exists>c. runs_on s' t c \<and> \<not> c_isidle (allcpus s' ! c)" if "\<not> on_list E s' q' t"
      using sinvD(6) [OF inv t] that o runs idle by blast
    show "resumable (t_context th)" if "on_list E s' q' t" using sinvD(7) [OF inv t] that o by simp
    show "(\<exists>c. runs_on s' t c) \<or> parked th" if "on_list E s' q' t" using sinvD(8) [OF inv t] that o runs by blast
  qed (use sys inv same cpu fit in \<open>auto simp: sinv_def\<close>)
qed

lemma sinv_cur:
  assumes inv: "sinv E None s q" and on: "runs_on s cur c"
  obtains th where "running cur c th s" and "thr s cur = Some th" and "t_curspl th \<in> {0, 1}" and "c < length (allcpus s)"
    and "c_isidle (allcpus s ! c) \<Longrightarrow> t_curspl th = 1 \<and> t_iplhigh_count th = 1"
    and "\<not> c_isidle (allcpus s ! c) \<Longrightarrow> t_iplhigh_count th = t_curspl th \<and> \<not> on_list E s q cur \<and> t_state th \<in> {S_RUN, S_READY}"
proof -
  have c: "c < length (allcpus s)" "c_curthread (allcpus s ! c) = cur" using on by (auto simp: runs_on_def)
  have "cpu_ok E None s q c" by (rule sinvD(3) [OF inv c(1)])
  then obtain th where th: "thr s cur = Some th" "t_cpu th = Some c"
     "if c_isidle (allcpus s ! c) then on_list E s q cur \<and> t_curspl th = 1 \<and> \<not> irq s c \<and> t_iplhigh_count th = (if None = Some c then 2 else 1)
      else \<not> on_list E s q cur \<and> t_state th \<in> {S_RUN, S_READY} \<and> t_curspl th \<in> {0, 1} \<and> t_iplhigh_count th = t_curspl th \<and> (irq s c \<longleftrightarrow> t_curspl th = 0)"
    unfolding cpu_ok_def c(2) by blast
  have "cur \<noteq> 0" using th(1) sinvD(2) [OF inv] by auto
  then have "running cur c th s" using th by (auto simp: running_def split: if_splits)
  then show thesis using that th c(1) by (auto split: if_splits)
qed

lemma in_lists: "c < length (allcpus s) \<Longrightarrow> Runqueue c \<in> sys_lists E s" "c < length (allcpus s) \<Longrightarrow> Zombies c \<in> sys_lists E s"
  "wc_name s w \<noteq> None \<Longrightarrow> Waiters w \<in> sys_lists E s" "l \<in> E \<Longrightarrow> l \<in> sys_lists E s"
  by (auto simp: sys_lists_def)

lemma on_listI: "l \<in> sys_lists E s \<Longrightarrow> t \<in> set (q l) \<Longrightarrow> on_list E s q t"
  by (auto simp: on_list_def)

lemma sinv_on: "sinv E K s q \<Longrightarrow> l \<in> sys_lists E s \<Longrightarrow> t \<in> set (q l) \<Longrightarrow>
    \<exists>th c. thr s t = Some th \<and> t_cpu th = Some c \<and> c < length (allcpus s) \<and> fits l th"
  using sinvD(1,5,9) [of E K s q] tl_sys_rel(2) [of "sys_lists E s" "dom (thr s)" q "tls s" l t] by (fastforce simp: thread_ok_def)

lemma tl_sys_apart: "tl_sys L A q s \<Longrightarrow> l \<in> L \<Longrightarrow> l' \<in> L \<Longrightarrow> l \<noteq> l' \<Longrightarrow> t \<in> set (q l) \<Longrightarrow> t \<notin> set (q l')"
  unfolding tl_sys_def by (rule tq_all_apart)

lemma tl_sys_distinct: "tl_sys L A q s \<Longrightarrow> l \<in> L \<Longrightarrow> distinct (q l)"
  using tl_sys_rel(1) [of L A q s l] by (simp add: tl_rel_def)

text \<open>Taking the first thread of a list leaves it on none.\<close>

lemma off_lists:
  assumes sys: "tl_sys L A q s" and l: "l \<in> L" "q l = t # ts" and l': "l' \<in> L"
  shows "t \<notin> set ((q(l := ts)) l')"
  using tl_sys_apart [OF sys l(1) l'] tl_sys_distinct [OF sys l(1)] l(2) by (cases "l' = l") auto

subsection \<open>Waking threads\<close>

lemma made_runnable_simps [simp]:
  "thr (made_runnable d l s) = thr s" "irq (made_runnable d l s) = irq s" "lks (made_runnable d l s) = lks s"
  "length (allcpus (made_runnable d l s)) = length (allcpus s)" "tls (made_runnable d l s) = l" "heap (made_runnable d l s) = heap s"
  "wc_name (made_runnable d l s) = wc_name s" "p_threads (made_runnable d l s) = p_threads s" "tlbs (made_runnable d l s) = tlbs s"
  "p_vm (made_runnable d l s) = p_vm s" "kproc (made_runnable d l s) = kproc s" "strs (made_runnable d l s) = strs s"
  "lbolt (made_runnable d l s) = lbolt s" "same_cpus s (made_runnable d l s)"
  by (simp_all add: made_runnable_def same_cpus_def)

lemma on_list_move:
  assumes l: "l \<in> sys_lists E s" "l' \<in> sys_lists E s" "l \<noteq> l'" "q l = t # ts"
  shows "on_list E s (q(l := ts, l' := q l' @ [t])) u = on_list E s q u"
proof -
  have "u \<in> set ((q(l := ts, l' := q l' @ [t])) x) \<Longrightarrow> u \<in> set (q x) \<or> u = t" for x using l(4) by (auto split: if_splits)
  then show ?thesis
    unfolding on_list_def using l by (metis fun_upd_other fun_upd_same in_set_conv_decomp list.set_intros(1) set_ConsD Un_iff set_append)
qed

lemma sinv_move:
  assumes inv: "sinv E K s q" and l: "l \<in> sys_lists E s" "l' \<in> sys_lists E s" "l \<noteq> l'" "q l = t # ts"
    and sys: "tl_sys (sys_lists E s) (dom (thr s)) (q(l := ts, l' := q l' @ [t])) (tls s')" and th: "thr s t = Some th" "fits l' th"
    and same: "thr s' = thr s" "irq s' = irq s" "lks s' = lks s" "wc_name s' = wc_name s" "tlbs s' = tlbs s" "same_cpus s s'"
  shows "sinv E K s' (q(l := ts, l' := q l' @ [t]))"
proof (rule sinv_lists [OF inv sys])
  show "on_list E s (q(l := ts, l' := q l' @ [t])) u = on_list E s q u" for u by (rule on_list_move [where q = q, OF l])
next
  fix x u uh assume x: "x \<in> sys_lists E s" "u \<in> set ((q(l := ts, l' := q l' @ [t])) x)" "thr s u = Some uh"
  show "fits x uh"
    using sinvD(9) [OF inv x(1) _ x(3)] x(2,3) th l(4) by (auto split: if_splits)
qed (use same sinvD(4) [OF inv] in auto)

lemma wake_lists:
  assumes inv: "sinv E None s q" and l: "l \<in> sys_lists E s" "l = Waiters w \<or> l = Wakelist e"
  obtains (none) "q l = []" and "threadlist_remhead l (tls s) = Some (None, tls s)"
  | (some) t ts x d tt x' where "q l = t # ts" and "threadlist_remhead l (tls s) = Some (Some t, x)"
      and "thr s t = Some tt" and "t_cpu tt = Some d" and "d < length (allcpus s)" and "threadlist_addtail (Runqueue d) t x = Some x'"
      and "sinv E None (made_runnable d x' s) (q(l := ts, Runqueue d := q (Runqueue d) @ [t]))"
proof -
  note sys = sinvD(1) [OF inv]
  show thesis
  proof (rule sys_remhead [OF sys l(1)], goal_cases)
    case 1
    then show ?thesis by (rule none)
  next
    case (2 t ts x)
    note first = 2
    have "t \<in> set (q l)" using first(1) by simp
    with sinv_on [OF inv l(1) this] l(2) obtain tt d where tt: "thr s t = Some tt" "t_cpu tt = Some d" "d < length (allcpus s)" "t_state tt = S_SLEEP"
      by auto
    have "t \<in> dom (thr s)" using tt(1) by auto
    with first(3) in_lists(1) [OF tt(3)] obtain x' where
      x': "threadlist_addtail (Runqueue d) t x = Some x'" "tl_sys (sys_lists E s) (dom (thr s)) ((q(l := ts))(Runqueue d := (q(l := ts)) (Runqueue d) @ [t])) x'"
      using off_lists [OF sys l(1) first(1)] by (rule sys_addtail)
    have "sinv E None (made_runnable d x' s) (q(l := ts, Runqueue d := q (Runqueue d) @ [t]))"
      by (rule sinv_move [OF inv l(1) in_lists(1) [OF tt(3)] _ first(1) _ tt(1)]) (use x'(2) tt l(2) in auto)
    then show ?thesis using some first(1,2) tt x'(1) by blast
  qed
qed

subsection \<open>Leaving the processor\<close>

definition raised :: "tid \<Rightarrow> cpuid \<Rightarrow> thread \<Rightarrow> sched \<Rightarrow> sched" where
  "raised cur c th s = s\<lparr>thr := (thr s)(cur \<mapsto> th\<lparr>t_iplhigh_count := t_iplhigh_count th + 1 - t_curspl th, t_curspl := 1\<rparr>),
     irq := (irq s)(c := False)\<rparr>"

text \<open>The state when the current thread is queued on a list, with the run queue locked and the processor marked idle.\<close>

definition left :: "tid \<Rightarrow> cpuid \<Rightarrow> thread \<Rightarrow> threadstate \<Rightarrow> string option \<Rightarrow> (tid, tlist) tlstore \<Rightarrow> sched \<Rightarrow> sched" where
  "left cur c th st nm l s = s\<lparr>
     thr := (thr s)(cur \<mapsto> th\<lparr>t_wchan_name := nm, t_state := st, t_context := Switch (t_curspl th), t_curspl := 1, t_iplhigh_count := 2\<rparr>),
     irq := (irq s)(c := False), lks := (lks s)(Lk_runqueue c := locked_by c),
     allcpus := (allcpus s)[c := (allcpus s ! c)\<lparr>c_isidle := True\<rparr>], tls := l\<rparr>"

lemma raised_simps [simp]: "allcpus (raised cur c th s) = allcpus s" "tls (raised cur c th s) = tls s" "lks (raised cur c th s) = lks s"
  "wc_name (raised cur c th s) = wc_name s" "thr (raised cur c th s) cur = Some (th\<lparr>t_iplhigh_count := t_iplhigh_count th + 1 - t_curspl th, t_curspl := 1\<rparr>)"
  by (simp_all add: raised_def)

lemma splhigh_raised:
  assumes run: "running cur c th s" and spl: "t_curspl th \<in> {0, 1}" "t_curspl th = 1 \<Longrightarrow> 0 < t_iplhigh_count th"
  shows "splhigh cur s = Some (t_curspl th, raised cur c th s)"
    and "running cur c (th\<lparr>t_iplhigh_count := t_iplhigh_count th + 1 - t_curspl th, t_curspl := 1\<rparr>) (raised cur c th s)"
proof -
  have cur: "cur \<noteq> 0" "thr s cur = Some th" "t_cpu th = Some c" using run by (auto simp: running_def)
  have irq: "(irq s)(c := False) = irq s" if "t_iplhigh_count th \<noteq> 0" using run that by (auto simp: running_def fun_eq_iff)
  show "splhigh cur s = Some (t_curspl th, raised cur c th s)"
  proof (cases "t_curspl th = 0")
    case True
    then show ?thesis using splhigh_eq [OF cur True] irq
      by (auto simp: raised_def put_thr_def set_irq_def intro!: sched.equality)
  next
    case False
    then have one: "t_curspl th = 1" using spl(1) by simp
    then have "(thr s)(cur \<mapsto> th\<lparr>t_iplhigh_count := t_iplhigh_count th + 1 - t_curspl th, t_curspl := 1\<rparr>) = thr s"
      using cur(2) by (cases th) (auto simp: fun_eq_iff)
    moreover have "(irq s)(c := False) = irq s" by (rule irq) (use spl(2) one in simp)
    ultimately have "raised cur c th s = s" by (simp add: raised_def)
    then show ?thesis using splhigh_same [OF cur(2) one] one by simp
  qed
  show "running cur c (th\<lparr>t_iplhigh_count := t_iplhigh_count th + 1 - t_curspl th, t_curspl := 1\<rparr>) (raised cur c th s)"
    using run spl by (auto simp: running_def raised_def)
qed

lemma checkstack_ok: "thr s t = Some th \<Longrightarrow> thread_ok n th \<Longrightarrow> thread_checkstack t s = Some ()"
  by (simp add: thread_checkstack_def thread_ok_def numeral_eq_Suc)

lemma thread_ok_upd [simp]: "thread_ok n (th\<lparr>t_iplhigh_count := i\<rparr>) = thread_ok n th" "thread_ok n (th\<lparr>t_curspl := j\<rparr>) = thread_ok n th"
  "thread_ok n (th\<lparr>t_wchan_name := w\<rparr>) = thread_ok n th" "thread_ok n (th\<lparr>t_state := st\<rparr>) = thread_ok n th"
  "thread_ok n (th\<lparr>t_context := ctx\<rparr>) = thread_ok n th"
  by (simp_all add: thread_ok_def)

text \<open>Up to the loop, whatever the new state is.\<close>

lemma switch_leaves:
  assumes run: "running cur c th s" and spl: "t_curspl th \<in> {0, 1}" "t_curspl th \<le> t_iplhigh_count th"
    and c: "c < length (allcpus s)" "\<not> c_isidle (allcpus s ! c)" and ok: "thread_ok (length (allcpus s)) th"
    and free: "lks s (Lk_runqueue c) = unlocked" and some: "st = S_READY \<Longrightarrow> \<not> threadlist_isempty (Runqueue c) (tls s)"
    and tr: "tr = th\<lparr>t_iplhigh_count := t_iplhigh_count th + 1 - t_curspl th, t_curspl := 1\<rparr>"
    and queue: "switch_queue cur st wc c (locked (Lk_runqueue c) cur c tr (raised cur c th s)) = Some sq"
    and sq: "thr sq cur = Some tq" "allcpus sq = allcpus s"
  shows "thread_switch cur st wc s = switch_next cur (sq\<lparr>thr := (thr sq)(cur \<mapsto> tq\<lparr>t_state := st, t_context := Switch (t_curspl th)\<rparr>),
    allcpus := (allcpus s)[c := (allcpus s ! c)\<lparr>c_isidle := True\<rparr>]\<rparr>)"
proof -
  have run1: "running cur c tr (raised cur c th s)" and hi: "splhigh cur s = Some (t_curspl th, raised cur c th s)"
    unfolding tr using splhigh_raised [OF run spl(1)] spl by auto
  have "thread_ok (length (allcpus s)) tr" using ok tr by simp
  note chk = checkstack_ok [OF running_cur(2) [OF run1] this]
  have acq: "spinlock_acquire (Lk_runqueue c) cur (raised cur c th s) = Some (locked (Lk_runqueue c) cur c tr (raised cur c th s))"
    by (rule acquire_locked [OF run1]) (simp add: free)
  show ?thesis
    using hi c some running_cur(1) [OF run1] chk acq queue sq
    by (auto simp: thread_switch_def upd_thr_def upd_cpu_def put_thr_def)
qed

lemma switch_ready_eq:
  assumes run: "running cur c th s" and spl: "t_curspl th \<in> {0, 1}" "t_iplhigh_count th = t_curspl th"
    and c: "c < length (allcpus s)" "\<not> c_isidle (allcpus s ! c)" and ok: "thread_ok (length (allcpus s)) th"
    and free: "lks s (Lk_runqueue c) = unlocked" and some: "\<not> threadlist_isempty (Runqueue c) (tls s)"
    and add: "threadlist_addtail (Runqueue c) cur (tls s) = Some l"
  shows "thread_switch cur S_READY wc s = switch_next cur (left cur c th S_READY (t_wchan_name th) l s)"
proof -
  define th1 where "th1 = th\<lparr>t_iplhigh_count := t_iplhigh_count th + 1 - t_curspl th, t_curspl := 1\<rparr>"
  let ?th2 = "th1\<lparr>t_iplhigh_count := t_iplhigh_count th1 + 1\<rparr>" and ?s2 = "locked (Lk_runqueue c) cur c th1 (raised cur c th s)"
  have "running cur c th1 (raised cur c th s)" unfolding th1_def by (rule splhigh_raised(2) [OF run spl(1)]) (use spl in simp)
  then have run2: "running cur c ?th2 ?s2" by (rule running_locked)
  have "thread_make_runnable cur cur True ?s2 = Some (?s2\<lparr>tls := l\<rparr>)"
    by (rule make_runnable_self_eq [OF run2]) (use c add in \<open>simp_all add: locked_def\<close>)
  then have "switch_queue cur S_READY wc c ?s2 = Some (?s2\<lparr>tls := l\<rparr>)" by (simp add: switch_queue_def)
  moreover have "left cur c th S_READY (t_wchan_name th) l s = (?s2\<lparr>tls := l\<rparr>)\<lparr>thr := (thr ?s2)(cur \<mapsto> ?th2\<lparr>t_state := S_READY, t_context := Switch (t_curspl th)\<rparr>),
      allcpus := (allcpus s)[c := (allcpus s ! c)\<lparr>c_isidle := True\<rparr>]\<rparr>"
    using spl by (intro sched.equality) (auto simp: left_def locked_def raised_def th1_def fun_eq_iff intro!: thread.equality)
  ultimately show ?thesis
    using switch_leaves [where wc = wc and sq = "?s2\<lparr>tls := l\<rparr>" and tq = ?th2, OF run spl(1) _ c ok free _ th1_def] spl some running_cur(2) [OF run2]
    by simp
qed

lemma switch_zombie_eq:
  assumes run: "running cur c th s" and spl: "t_curspl th \<in> {0, 1}" "t_iplhigh_count th = t_curspl th"
    and c: "c < length (allcpus s)" "\<not> c_isidle (allcpus s ! c)" and ok: "thread_ok (length (allcpus s)) th"
    and free: "lks s (Lk_runqueue c) = unlocked" and add: "threadlist_addtail (Zombies c) cur (tls s) = Some l"
  shows "thread_switch cur S_ZOMBIE wc s = switch_next cur (left cur c th S_ZOMBIE (Some ''ZOMBIE'') l s)"
proof -
  define th1 where "th1 = th\<lparr>t_iplhigh_count := t_iplhigh_count th + 1 - t_curspl th, t_curspl := 1\<rparr>"
  let ?th2 = "th1\<lparr>t_iplhigh_count := t_iplhigh_count th1 + 1\<rparr>" and ?s2 = "locked (Lk_runqueue c) cur c th1 (raised cur c th s)"
  let ?th3 = "?th2\<lparr>t_wchan_name := Some ''ZOMBIE''\<rparr>"
  let ?s3 = "?s2\<lparr>thr := (thr ?s2)(cur \<mapsto> ?th3), tls := l\<rparr>"
  have "running cur c th1 (raised cur c th s)" unfolding th1_def by (rule splhigh_raised(2) [OF run spl(1)]) (use spl in simp)
  then have run2: "running cur c ?th2 ?s2" by (rule running_locked)
  have "switch_queue cur S_ZOMBIE wc c ?s2 = Some ?s3"
    using running_cur(2) [OF run2] add by (simp add: switch_queue_def upd_thr_def on_tls_def put_thr_def)
  moreover have "left cur c th S_ZOMBIE (Some ''ZOMBIE'') l s = ?s3\<lparr>thr := (thr ?s3)(cur \<mapsto> ?th3\<lparr>t_state := S_ZOMBIE, t_context := Switch (t_curspl th)\<rparr>),
      allcpus := (allcpus s)[c := (allcpus s ! c)\<lparr>c_isidle := True\<rparr>]\<rparr>"
    using spl by (intro sched.equality) (auto simp: left_def locked_def raised_def th1_def fun_eq_iff intro!: thread.equality)
  ultimately show ?thesis
    using switch_leaves [where wc = wc and st = S_ZOMBIE and sq = ?s3 and tq = ?th3, OF run spl(1) _ c ok free _ th1_def] spl by simp
qed

text \<open>Going to sleep: the wait channel is locked before and unlocked once the thread is on its list.\<close>

lemma switch_sleep_eq:
  assumes run: "running cur c th s" and spl: "t_curspl th \<in> {0, 1}" "t_iplhigh_count th = t_curspl th"
    and c: "c < length (allcpus s)" "\<not> c_isidle (allcpus s ! c)" and ok: "thread_ok (length (allcpus s)) th"
    and free: "lks s (Lk_runqueue c) = unlocked" "lks s (Lk_wchan wc) = unlocked" and nm: "wc_name s wc = Some nm"
    and add: "threadlist_addtail (Waiters wc) cur (tls s) = Some l"
  shows "wchan_lock wc cur s = Some (locked (Lk_wchan wc) cur c th s)"
    and "thread_switch cur S_SLEEP wc (locked (Lk_wchan wc) cur c th s) = switch_next cur (left cur c th S_SLEEP (Some nm) l s)"
proof -
  show "wchan_lock wc cur s = Some (locked (Lk_wchan wc) cur c th s)" by (simp add: wchan_lock_def acquire_locked [OF run free(2)])
  let ?th0 = "th\<lparr>t_iplhigh_count := t_iplhigh_count th + 1\<rparr>" and ?s0 = "locked (Lk_wchan wc) cur c th s"
  define th1 where "th1 = ?th0\<lparr>t_iplhigh_count := t_iplhigh_count ?th0 + 1 - t_curspl ?th0, t_curspl := 1\<rparr>"
  let ?th2 = "th1\<lparr>t_iplhigh_count := t_iplhigh_count th1 + 1\<rparr>" and ?s2 = "locked (Lk_runqueue c) cur c th1 (raised cur c ?th0 ?s0)"
  let ?th3 = "?th2\<lparr>t_wchan_name := Some nm\<rparr>"
  let ?s3 = "?s2\<lparr>thr := (thr ?s2)(cur \<mapsto> ?th3), tls := l\<rparr>"
  let ?th4 = "?th3\<lparr>t_iplhigh_count := 2\<rparr>"
  let ?s4 = "?s3\<lparr>lks := (lks ?s3)(Lk_wchan wc := unlocked), thr := (thr ?s3)(cur \<mapsto> ?th4)\<rparr>"
  have run0: "running cur c ?th0 ?s0" by (rule running_locked [OF run])
  have "running cur c th1 (raised cur c ?th0 ?s0)" unfolding th1_def by (rule splhigh_raised(2) [OF run0]) (use spl in auto)
  then have run2: "running cur c ?th2 ?s2" by (rule running_locked)
  have cnt: "t_iplhigh_count th1 = 2" using spl by (auto simp: th1_def)
  have cur0: "cur \<noteq> 0" "t_cpu ?th3 = Some c" using run by (auto simp: running_def th1_def)
  have "spinlock_release (Lk_wchan wc) cur ?s3 = Some ?s4"
    by (subst spinlock_release_eq [where th = ?th3 and c = c])
      (use cur0 cnt in \<open>auto simp: locked_def raised_def put_lk_def put_thr_def\<close>)
  then have "switch_queue cur S_SLEEP wc c ?s2 = Some ?s4"
    using running_cur(2) [OF run2] add nm by (simp add: switch_queue_def upd_thr_def on_tls_def put_thr_def wchan_unlock_def)
  moreover have "left cur c th S_SLEEP (Some nm) l s = ?s4\<lparr>thr := (thr ?s4)(cur \<mapsto> ?th4\<lparr>t_state := S_SLEEP, t_context := Switch (t_curspl th)\<rparr>),
      allcpus := (allcpus s)[c := (allcpus s ! c)\<lparr>c_isidle := True\<rparr>]\<rparr>"
    using spl free by (intro sched.equality) (auto simp: left_def locked_def raised_def th1_def fun_eq_iff intro!: thread.equality)
  ultimately show "thread_switch cur S_SLEEP wc ?s0 = switch_next cur (left cur c th S_SLEEP (Some nm) l s)"
    using switch_leaves [where wc = wc and st = S_SLEEP and sq = ?s4 and tq = ?th4, OF run0 _ _ _ _ _ _ _ th1_def] spl c ok free
    by (simp add: locked_def)
qed

lemma sinv_cur_cpu:
  assumes "sinv E K s q" and "runs_on s t c" and "thr s t = Some th"
  shows "t_cpu th = Some c"
  using sinvD(3) [OF assms(1), of c] assms(2,3) by (auto simp: cpu_ok_def runs_on_def)

lemma runs_on_thr: "sinv E K s q \<Longrightarrow> runs_on s t c \<Longrightarrow> \<exists>th. thr s t = Some th"
  using sinvD(3) [of E K s q c] unfolding cpu_ok_def runs_on_def by blast

lemma runs_on_unique: "sinv E K s q \<Longrightarrow> runs_on s t c \<Longrightarrow> runs_on s t d \<Longrightarrow> c = d"
  using runs_on_thr [of E K s q t c] sinv_cur_cpu [of E K s q t c] sinv_cur_cpu [of E K s q t d] by auto

lemma cpu_ok_other:
  assumes "cpu_ok E K s q d" and "c_curthread (allcpus s' ! d) = c_curthread (allcpus s ! d)" and "c_isidle (allcpus s' ! d) = c_isidle (allcpus s ! d)"
    and "thr s' (c_curthread (allcpus s ! d)) = thr s (c_curthread (allcpus s ! d))" and "irq s' d = irq s d"
    and "on_list E s' q' (c_curthread (allcpus s ! d)) = on_list E s q (c_curthread (allcpus s ! d))" and "K' = Some d \<longleftrightarrow> K = Some d"
  shows "cpu_ok E K' s' q' d"
  using assms(1) unfolding cpu_ok_def assms(2-7) .

lemma sinv_left:
  assumes inv: "sinv E None s q" and on: "runs_on s cur c" and busy: "\<not> c_isidle (allcpus s ! c)" and th: "thr s cur = Some th"
    and l: "l \<in> sys_lists E s" and sys: "tl_sys (sys_lists E s) (dom (thr s)) (q(l := q l @ [cur])) x"
    and fit: "fits l (th\<lparr>t_wchan_name := nm, t_state := st, t_context := Switch (t_curspl th), t_curspl := 1, t_iplhigh_count := 2\<rparr>)"
  shows "sinv E (Some c) (left cur c th st nm x s) (q(l := q l @ [cur]))" (is "sinv E _ ?s ?q")
proof -
  have c: "c < length (allcpus s)" "c_curthread (allcpus s ! c) = cur" using on by (auto simp: runs_on_def)
  obtain spl: "t_curspl th \<in> {0, 1}" and off: "\<not> on_list E s q cur" using sinv_cur [OF inv on] busy th by auto
  have cpus: "length (allcpus ?s) = length (allcpus s)" "sys_lists E ?s = sys_lists E s" "runs_on ?s t d = runs_on s t d" for t d
    by (cases "d = c"; auto simp: left_def sys_lists_def runs_on_def c)+
  have idle: "c_isidle (allcpus ?s ! d) \<longleftrightarrow> d = c \<or> c_isidle (allcpus s ! d)" if "d < length (allcpus s)" for d
    using c(1) that by (cases "d = c") (auto simp: left_def)
  have cur': "c_curthread (allcpus ?s ! d) = c_curthread (allcpus s ! d)" if "d < length (allcpus s)" for d
    using c(1) that by (cases "d = c") (auto simp: left_def)
  have on': "on_list E ?s ?q t \<longleftrightarrow> t = cur \<or> on_list E s q t" for t
    unfolding on_list_def cpus(2) using l by auto
  have thr': "thr ?s t = thr s t" if "t \<noteq> cur" for t using that by (simp add: left_def)
  have tcur: "thr ?s cur = Some (th\<lparr>t_wchan_name := nm, t_state := st, t_context := Switch (t_curspl th), t_curspl := 1, t_iplhigh_count := 2\<rparr>)"
    by (simp add: left_def)
  have dom: "dom (thr ?s) = dom (thr s)" using th by (auto simp: left_def)
  have cpu: "cpu_ok E (Some c) ?s ?q d" if d: "d < length (allcpus s)" for d
  proof (cases "d = c")
    case True
    then show ?thesis
      unfolding cpu_ok_def cur' [OF d] using idle [OF d] on' tcur sinv_cur_cpu [OF inv on th] c(2) by (simp add: left_def)
  next
    case False
    then have ne: "c_curthread (allcpus s ! d) \<noteq> cur" using runs_on_unique [OF inv on, of d] d by (auto simp: runs_on_def)
    show ?thesis
      by (rule cpu_ok_other [OF sinvD(3) [OF inv d]]) (use False ne d cur' idle thr' on' in \<open>simp_all add: left_def\<close>)
  qed
  show ?thesis
    unfolding sinv_def cpus dom
  proof (intro conjI allI impI ballI)
    show "tl_sys (sys_lists E s) (dom (thr s)) ?q (tls ?s)" using sys by (simp add: left_def)
    show "thr ?s 0 = None" using sinvD(2) [OF inv] th by (auto simp: left_def)
    show "lks ?s = (case Some c of None \<Rightarrow> \<lambda>_. unlocked | Some c \<Rightarrow> (\<lambda>_. unlocked)(Lk_runqueue c := locked_by c))"
      using inv by (simp add: sinv_def left_def)
    show "length (tlbs ?s d) = NUM_TLB" if "d < length (allcpus s)" for d using sinvD(4) [OF inv that] by (simp add: left_def)
  next
    fix t tt assume t: "thr ?s t = Some tt"
    show "thread_ok (length (allcpus s)) tt"
      using t tcur thr' [of t] sinvD(5) [OF inv] th by (cases "t = cur") auto
    show "\<exists>d. runs_on s t d \<and> \<not> c_isidle (allcpus ?s ! d)" if "\<not> on_list E ?s ?q t"
    proof -
      have "t \<noteq> cur" "\<not> on_list E s q t" using that on' by auto
      moreover from this obtain d where "runs_on s t d" "\<not> c_isidle (allcpus s ! d)" using sinvD(6) [OF inv, of t tt] t thr' by auto
      ultimately show ?thesis using idle c(2) by (auto simp: runs_on_def)
    qed
    show "resumable (t_context tt)" if "on_list E ?s ?q t"
      using t that tcur thr' [of t] on' sinvD(7) [OF inv] spl by (cases "t = cur") auto
    show "(\<exists>d. runs_on s t d) \<or> parked tt" if "on_list E ?s ?q t"
      using t that thr' [of t] on' sinvD(8) [OF inv, of t tt] on by (cases "t = cur") auto
  next
    fix k t tt assume k: "k \<in> sys_lists E s" "t \<in> set (?q k)" "thr ?s t = Some tt"
    show "fits k tt"
    proof (cases "t = cur")
      case True
      then have "k = l" using k off on_listI [OF k(1), of cur q] by (auto split: if_splits)
      then show ?thesis using True k(3) tcur fit by simp
    next
      case False
      then show ?thesis using k thr' [of t] sinvD(9) [OF inv k(1)] by (auto split: if_splits)
    qed
  qed (use cpu in auto)
qed

end
