(* ===== verification/Threads_Switch.thy ===== *)
theory Threads_Switch
  imports Threads_Inv
begin

text \<open>
  The context switch keeps the invariant of the thread system and the memory of the threads.  The
  part after \<open>switchframe_switch\<close> runs in the next thread: it gives back the run queue that the
  previous thread locked, loads the address space, and frees the threads that have exited.
\<close>

subsection \<open>The next thread\<close>

definition idled :: "tid \<Rightarrow> thread \<Rightarrow> sched \<Rightarrow> sched" where
  "idled cur th s = s\<lparr>thr := (thr s)(cur \<mapsto> th\<lparr>t_iplhigh_count := 1\<rparr>), lks := \<lambda>_. unlocked\<rparr>"

definition resumed :: "tid \<Rightarrow> cpuid \<Rightarrow> thread \<Rightarrow> (tid, tlist) tlstore \<Rightarrow> sched \<Rightarrow> sched" where
  "resumed n c nt l s = s\<lparr>thr := (thr s)(n \<mapsto> nt\<lparr>t_wchan_name := None, t_state := S_RUN, t_iplhigh_count := 1\<rparr>),
     lks := \<lambda>_. unlocked, allcpus := (allcpus s)[c := (allcpus s ! c)\<lparr>c_isidle := False, c_curthread := n\<rparr>], tls := l\<rparr>"

lemma sinv_idle_cur:
  assumes inv: "sinv E (Some c) s q" and on: "runs_on s cur c" and idle: "c_isidle (allcpus s ! c)" and th: "thr s cur = Some th"
  shows "t_cpu th = Some c" and "t_curspl th = 1" and "t_iplhigh_count th = 2" and "cur \<noteq> 0" and "\<not> irq s c" and "on_list E s q cur"
proof -
  have "cpu_ok E (Some c) s q c" using sinvD(3) [OF inv] on by (simp add: runs_on_def)
  then have "t_cpu th = Some c \<and> t_curspl th = 1 \<and> t_iplhigh_count th = 2 \<and> \<not> irq s c \<and> on_list E s q cur"
    using on idle th by (auto simp: cpu_ok_def runs_on_def)
  then show "t_cpu th = Some c" "t_curspl th = 1" "t_iplhigh_count th = 2" "\<not> irq s c" "on_list E s q cur" by simp_all
  show "cur \<noteq> 0" using th sinvD(2) [OF inv] by auto
qed

text \<open>A thread of the run queue is stopped inside \<open>thread_switch\<close> or not yet started.\<close>

lemma sinv_ready:
  assumes inv: "sinv E (Some c) s q" and c: "c < length (allcpus s)" "c_isidle (allcpus s ! c)" and n: "n \<in> set (q (Runqueue c))"
    and th: "thr s n = Some th"
  shows "t_cpu th = Some c" and "t_curspl th = 1" and "t_iplhigh_count th = 2" and "n \<noteq> 0"
    and "resumable (t_context th)" and "thread_ok (length (allcpus s)) th"
proof -
  have on: "on_list E s q n" by (rule on_listI [of "Runqueue c"]) (use in_lists(1) c n in auto)
  show cpu: "t_cpu th = Some c" using sinv_on [OF inv in_lists(1) [OF c(1)] n] th by auto
  have "parked th"
  proof (cases "\<exists>d. runs_on s n d")
    case True
    then obtain d where d: "runs_on s n d" by blast
    then have "runs_on s n c" using sinv_cur_cpu [OF inv d th] cpu by simp
    then show ?thesis using sinv_idle_cur(2,3) [OF inv _ c(2) th] by (simp add: parked_def)
  qed (use sinvD(8) [OF inv th on] in blast)
  then show "t_curspl th = 1" "t_iplhigh_count th = 2" by (simp_all add: parked_def)
  show "n \<noteq> 0" using th sinvD(2) [OF inv] by auto
  show "resumable (t_context th)" "thread_ok (length (allcpus s)) th" using sinvD(5,7) [OF inv th] on by simp_all
qed

lemma sinv_idled:
  assumes inv: "sinv E (Some c) s q" and on: "runs_on s cur c" and idle: "c_isidle (allcpus s ! c)" and th: "thr s cur = Some th"
  shows "sinv E None (idled cur th s) q"
proof -
  let ?s = "idled cur th s"
  have c: "c < length (allcpus s)" "c_curthread (allcpus s ! c) = cur" using on by (auto simp: runs_on_def)
  note cur = sinv_idle_cur(1,2,5,6) [OF inv on idle th]
  have same: "sys_lists E ?s = sys_lists E s" "runs_on ?s = runs_on s" "on_list E ?s q = on_list E s q" "allcpus ?s = allcpus s"
    by (auto simp: sys_lists_def runs_on_def on_list_def idled_def fun_eq_iff)
  have dom: "dom (thr ?s) = dom (thr s)" using th by (auto simp: idled_def)
  have thr': "thr ?s t = (if t = cur then Some (th\<lparr>t_iplhigh_count := 1\<rparr>) else thr s t)" for t by (simp add: idled_def)
  have irq': "irq ?s = irq s" by (simp add: idled_def)
  have cpu: "cpu_ok E None ?s q d" if d: "d < length (allcpus s)" for d
  proof (cases "d = c")
    case True
    then show ?thesis unfolding cpu_ok_def same using idle cur c(2) by (simp add: idled_def)
  next
    case False
    then have ne: "c_curthread (allcpus s ! d) \<noteq> cur" using runs_on_unique [OF inv on, of d] d by (auto simp: runs_on_def)
    show ?thesis by (rule cpu_ok_other [OF sinvD(3) [OF inv d]]) (use False ne in \<open>simp_all add: same thr' irq'\<close>)
  qed
  show ?thesis
    unfolding sinv_def same dom
  proof (intro conjI allI impI ballI)
    fix t tt assume t: "thr ?s t = Some tt"
    then obtain u where u: "thr s t = Some u" "t_context tt = t_context u" "thread_ok (length (allcpus s)) tt = thread_ok (length (allcpus s)) u"
      "t \<noteq> cur \<Longrightarrow> u = tt" using th by (auto simp: thr' split: if_splits)
    show "thread_ok (length (allcpus s)) tt" using u sinvD(5) [OF inv] by simp
    show "\<exists>d. runs_on s t d \<and> \<not> c_isidle (allcpus s ! d)" if "\<not> on_list E s q t" using u sinvD(6) [OF inv] that by blast
    show "resumable (t_context tt)" if "on_list E s q t" using u sinvD(7) [OF inv] that by simp
    show "(\<exists>d. runs_on s t d) \<or> parked tt" if "on_list E s q t" using u sinvD(8) [OF inv, of t u] that on by (cases "t = cur") auto
  next
    fix k t tt assume k: "k \<in> sys_lists E s" "t \<in> set (q k)" "thr ?s t = Some tt"
    show "fits k tt" using sinvD(9) [OF inv k(1,2)] k(3) th by (cases k) (auto simp: thr' split: if_splits)
  qed (use sinvD [OF inv] cpu th in \<open>auto simp: idled_def\<close>)
qed

lemma sinv_resumed:
  assumes inv: "sinv E (Some c) s q" and c: "c < length (allcpus s)" "c_isidle (allcpus s ! c)" and q: "q (Runqueue c) = n # ts"
    and th: "thr s n = Some nt" and sys: "tl_sys (sys_lists E s) (dom (thr s)) (q(Runqueue c := ts)) l"
  shows "sinv E None (resumed n c nt l s) (q(Runqueue c := ts))" (is "sinv E None ?s ?q")
proof -
  let ?old = "c_curthread (allcpus s ! c)"
  have old: "runs_on s ?old c" using c by (simp add: runs_on_def)
  from runs_on_thr [OF inv old] obtain oth where oth: "thr s ?old = Some oth" by blast
  have o: "thr s ?old = Some oth" "t_curspl oth = 1" "t_iplhigh_count oth = 2" "\<not> irq s c" "on_list E s q ?old"
    using sinv_idle_cur [OF inv old c(2) oth] oth by simp_all
  have nq: "n \<in> set (q (Runqueue c))" using q by simp
  have n: "t_cpu nt = Some c" "t_curspl nt = 1" "n \<noteq> 0" "thread_ok (length (allcpus s)) nt"
    using sinv_ready [OF inv c nq th] by simp_all
  have off: "\<not> on_list E s ?q n"
    using off_lists [OF sinvD(1) [OF inv] in_lists(1) [OF c(1)] q] by (auto simp: on_list_def)
  have on': "on_list E s ?q t = on_list E s q t" if "t \<noteq> n" for t
    unfolding on_list_def using that q by (metis fun_upd_other fun_upd_same list.set_intros(2) set_ConsD)
  have same: "length (allcpus ?s) = length (allcpus s)" "sys_lists E ?s = sys_lists E s" "on_list E ?s = on_list E s"
    by (auto simp: sys_lists_def on_list_def resumed_def fun_eq_iff)
  have cpus: "allcpus ?s ! d = (if d = c then (allcpus s ! c)\<lparr>c_isidle := False, c_curthread := n\<rparr> else allcpus s ! d)" if "d < length (allcpus s)" for d
    using c(1) that by (simp add: resumed_def nth_list_update)
  have runs: "runs_on ?s t d \<longleftrightarrow> (if d = c then t = n else runs_on s t d)" for t d
    using cpus [of d] c(1) by (auto simp: runs_on_def same)
  have n_not: "\<not> runs_on s n d" if "d \<noteq> c" for d using sinv_cur_cpu [OF inv _ th] n(1) that by auto
  have dom: "dom (thr ?s) = dom (thr s)" using th by (auto simp: resumed_def)
  have thr': "thr ?s t = (if t = n then Some (nt\<lparr>t_wchan_name := None, t_state := S_RUN, t_iplhigh_count := 1\<rparr>) else thr s t)" for t
    by (simp add: resumed_def)
  have irq': "irq ?s = irq s" by (simp add: resumed_def)
  have cpu: "cpu_ok E None ?s ?q d" if d: "d < length (allcpus s)" for d
  proof (cases "d = c")
    case True
    then show ?thesis unfolding cpu_ok_def same using cpus [OF c(1)] n o(4) off thr' by (simp add: resumed_def)
  next
    case False
    then have ne: "c_curthread (allcpus s ! d) \<noteq> n" using n_not [of d] d by (auto simp: runs_on_def)
    show ?thesis by (rule cpu_ok_other [OF sinvD(3) [OF inv d]])
        (use False ne d cpus [OF d] on' [OF ne] in \<open>simp_all add: same thr' irq'\<close>)
  qed
  show ?thesis
    unfolding sinv_def same dom
  proof (intro conjI allI impI ballI)
    fix t tt assume t: "thr ?s t = Some tt"
    show "thread_ok (length (allcpus s)) tt" using t n(4) sinvD(5) [OF inv, of t tt] by (auto simp: thr' split: if_splits)
    show "\<exists>d. runs_on ?s t d \<and> \<not> c_isidle (allcpus ?s ! d)" if out: "\<not> on_list E s ?q t"
    proof (cases "t = n")
      case False
      then obtain d where d: "runs_on s t d" "\<not> c_isidle (allcpus s ! d)"
        using sinvD(6) [OF inv, of t tt] t out on' [OF False] False by (auto simp: thr')
      then have "d \<noteq> c" using c(2) by auto
      then show ?thesis using d cpus [of d] runs by (auto simp: runs_on_def)
    qed (use runs cpus [OF c(1)] in auto)
    show "resumable (t_context tt)" if "on_list E s ?q t"
      using t that off on' [of t] sinvD(7) [OF inv, of t tt] by (auto simp: thr' split: if_splits)
    show "(\<exists>d. runs_on ?s t d) \<or> parked tt" if "on_list E s ?q t"
    proof -
      have tn: "t \<noteq> n" "thr s t = Some tt" "on_list E s q t" using t that off on' [of t] by (auto simp: thr' split: if_splits)
      show ?thesis
      proof (cases "runs_on s t c")
        case True
        then show ?thesis using o tn(2) by (auto simp: runs_on_def parked_def)
      next
        case False
        then show ?thesis using sinvD(8) [OF inv tn(2,3)] runs by metis
      qed
    qed
  next
    fix k t tt assume k: "k \<in> sys_lists E s" "t \<in> set (?q k)" "thr ?s t = Some tt"
    then have "t \<noteq> n" using off by (auto simp: on_list_def)
    then show "fits k tt" using sinvD(9) [OF inv k(1), of t tt] k(2,3) q by (auto simp: thr' split: if_splits)
  qed (use sinvD [OF inv] cpu n sys in \<open>auto simp: resumed_def\<close>)
qed

subsection \<open>The memory of threads\<close>

datatype owner = Own_thread tid | Own_name tid | Own_stack tid | Own_wchan u32 | Own_array u32

text \<open>Every thread has its structure, its name and its stack on the heap, every wait channel its structure, and every process its array of threads; \<open>own\<close> says which block belongs to whom.\<close>

definition res_inv :: "(u32 \<rightharpoonup> owner) \<Rightarrow> (u32 \<rightharpoonup> nat) \<Rightarrow> (u32 \<rightharpoonup> nat) \<Rightarrow> sched \<Rightarrow> bool" where
  "res_inv own L X s \<longleftrightarrow> heap_inv (heap s) L X \<and> dom own \<subseteq> dom L \<and>
     (\<forall>t th. thr s t = Some th \<longrightarrow> own t = Some (Own_thread t) \<and> own (t_name th) = Some (Own_name t) \<and>
       (t_stack th \<noteq> 0 \<longrightarrow> own (t_stack th) = Some (Own_stack t))) \<and>
     (\<forall>w. wc_name s w \<noteq> None \<longrightarrow> own w = Some (Own_wchan w)) \<and>
     (\<forall>p a. p_threads s p = Some a \<longrightarrow> arr_wf a \<and> arr_owned a L \<and> (ar_max a \<noteq> 0 \<longrightarrow> own (ar_vp a) = Some (Own_array p)))"

lemma res_invD:
  assumes "res_inv own L X s"
  shows "heap_inv (heap s) L X" and "dom own \<subseteq> dom L"
    and "\<And>t th. thr s t = Some th \<Longrightarrow> own t = Some (Own_thread t)" and "\<And>t th. thr s t = Some th \<Longrightarrow> own (t_name th) = Some (Own_name t)"
    and "\<And>t th. thr s t = Some th \<Longrightarrow> t_stack th \<noteq> 0 \<Longrightarrow> own (t_stack th) = Some (Own_stack t)"
    and "\<And>w. wc_name s w \<noteq> None \<Longrightarrow> own w = Some (Own_wchan w)"
    and "\<And>p a. p_threads s p = Some a \<Longrightarrow> arr_wf a \<and> arr_owned a L" and "\<And>p a. p_threads s p = Some a \<Longrightarrow> ar_max a \<noteq> 0 \<Longrightarrow> own (ar_vp a) = Some (Own_array p)"
  using assms unfolding res_inv_def by blast+

text \<open>Operations that move threads between lists leave their memory alone.\<close>

definition same_res :: "sched \<Rightarrow> sched \<Rightarrow> bool" where
  "same_res s s' \<longleftrightarrow> heap s' = heap s \<and> wc_name s' = wc_name s \<and> p_threads s' = p_threads s \<and> p_vm s' = p_vm s \<and> kproc s' = kproc s \<and>
     (\<forall>t. map_option (\<lambda>th. (t_name th, t_stack th, t_proc th)) (thr s' t) = map_option (\<lambda>th. (t_name th, t_stack th, t_proc th)) (thr s t))"

lemma same_res_refl [simp]: "same_res s s"
  by (simp add: same_res_def)

lemma same_res_trans: "same_res s s1 \<Longrightarrow> same_res s1 s2 \<Longrightarrow> same_res s s2"
  by (simp add: same_res_def)

lemma same_res_inv:
  assumes "res_inv own L X s" and "same_res s s'"
  shows "res_inv own L X s'"
proof -
  have e: "heap s' = heap s" "wc_name s' = wc_name s" "p_threads s' = p_threads s" using assms(2) by (simp_all add: same_res_def)
  have ex: "\<exists>th0. thr s t = Some th0 \<and> t_name th = t_name th0 \<and> t_stack th = t_stack th0" if "thr s' t = Some th" for t th
  proof -
    have "map_option (\<lambda>th. (t_name th, t_stack th, t_proc th)) (thr s' t) = map_option (\<lambda>th. (t_name th, t_stack th, t_proc th)) (thr s t)"
      using assms(2) unfolding same_res_def by blast
    then show ?thesis using that by (cases "thr s t") auto
  qed
  have "own t = Some (Own_thread t) \<and> own (t_name th) = Some (Own_name t) \<and> (t_stack th \<noteq> 0 \<longrightarrow> own (t_stack th) = Some (Own_stack t))"
    if t: "thr s' t = Some th" for t th
  proof -
    obtain th0 where "thr s t = Some th0" "t_name th = t_name th0" "t_stack th = t_stack th0" using ex [OF t] by blast
    then show ?thesis using res_invD(3,4,5) [OF assms(1)] by simp
  qed
  then show ?thesis using assms(1) unfolding res_inv_def e by blast
qed

lemma free_owned:
  assumes inv: "heap_inv h L X" and own: "dom own \<subseteq> dom L" "own p \<noteq> None"
  obtains h' where "kfree p h = Some h'" and "heap_inv h' (L(p := None)) X" and "dom (own(p := None)) \<subseteq> dom (L(p := None))"
proof -
  obtain n where "L p = Some n" using own by (cases "L p") auto
  from kh.kfree_live [OF inv this] obtain h' where "kfree p h = Some h'" "heap_inv h' (L(p := None)) X" by blast
  moreover have "dom (own(p := None)) \<subseteq> dom (L(p := None))" using own(1) by auto
  ultimately show thesis by (rule that)
qed

definition destroyed :: "tid \<Rightarrow> kstate \<Rightarrow> sched \<Rightarrow> sched" where
  "destroyed t h s = s\<lparr>heap := h, thr := (thr s)(t := None), tls := (tls s)\<lparr>tnodes := (tnodes (tls s))(Listnode t := None)\<rparr>\<rparr>"

text \<open>The blocks of a thread, taken out of a map of blocks.\<close>

definition without :: "tid \<Rightarrow> thread \<Rightarrow> (u32 \<rightharpoonup> 'a) \<Rightarrow> u32 \<rightharpoonup> 'a" where
  "without t th m = (if t_stack th \<noteq> 0 then m(t_stack th := None) else m)(t_name th := None, t := None)"

lemma destroy_ok:
  assumes inv: "res_inv own L X s" and th: "thr s t = Some th" and t: "t \<noteq> cur" "t_state th \<noteq> S_RUN" "t_proc th = 0" "t_badfaultfunc th = 0"
    and idle: "thread_idle (tls s) t"
  obtains h where "thread_destroy cur t s = Some (destroyed t h s)" and "res_inv (without t th own) (without t th L) X (destroyed t h s)"
proof -
  have o: "own t = Some (Own_thread t)" "own (t_name th) = Some (Own_name t)" "t_stack th \<noteq> 0 \<Longrightarrow> own (t_stack th) = Some (Own_stack t)"
    using res_invD(3,4,5) [OF inv th] by simp_all
  obtain h1 own1 L1 where 1: "(if t_stack th \<noteq> 0 then kfree (t_stack th) (heap s) else Some (heap s)) = Some h1" "heap_inv h1 L1 X" "dom own1 \<subseteq> dom L1"
    "own1 = (if t_stack th \<noteq> 0 then own(t_stack th := None) else own)" "L1 = (if t_stack th \<noteq> 0 then L(t_stack th := None) else L)"
  proof (cases "t_stack th \<noteq> 0")
    case True
    from free_owned [OF res_invD(1,2) [OF inv], of "t_stack th"] o(3) [OF True] obtain h' where
      "kfree (t_stack th) (heap s) = Some h'" "heap_inv h' (L(t_stack th := None)) X" "dom (own(t_stack th := None)) \<subseteq> dom (L(t_stack th := None))"
      by (metis option.distinct(1))
    then show thesis using that True by simp
  qed (use that res_invD(1,2) [OF inv] in simp)
  have ne: "t \<noteq> t_name th" "t_stack th \<noteq> 0 \<Longrightarrow> t_stack th \<noteq> t_name th \<and> t_stack th \<noteq> t" using o by auto
  have o1: "own1 (t_name th) = Some (Own_name t)" "own1 t = Some (Own_thread t)" using o ne 1(4) by (cases "t_stack th = 0"; auto)+
  from free_owned [OF 1(2,3), of "t_name th"] o1 obtain h2 where
    2: "kfree (t_name th) h1 = Some h2" "heap_inv h2 (L1(t_name th := None)) X" "dom (own1(t_name th := None)) \<subseteq> dom (L1(t_name th := None))"
    by (metis option.distinct(1))
  have "(own1(t_name th := None)) t \<noteq> None" using o1 ne by simp
  from free_owned [OF 2(2,3) this] obtain h3 where
    3: "kfree t h2 = Some h3" "heap_inv h3 (L1(t_name th := None, t := None)) X" "dom (own1(t_name th := None, t := None)) \<subseteq> dom (L1(t_name th := None, t := None))"
    by blast
  define own' where "own' = without t th own"
  define L' where "L' = without t th L"
  have def': "own' = own1(t_name th := None, t := None)" "L' = L1(t_name th := None, t := None)"
    using 1(4,5) by (simp_all add: own'_def L'_def without_def)
  have keep: "own' p = own p" if "own p \<noteq> Some (Own_thread t)" "own p \<noteq> Some (Own_name t)" "own p \<noteq> Some (Own_stack t)" for p
    using that o 1(4) by (cases "t_stack th = 0") (auto simp: def')
  have keepL: "L' p = L p" if "own p \<noteq> Some (Own_thread t)" "own p \<noteq> Some (Own_name t)" "own p \<noteq> Some (Own_stack t)" for p
    using that o 1(5) by (cases "t_stack th = 0") (auto simp: def')
  have "threadlistnode_cleanup t (tls s) = Some ()"
    using idle by (auto simp: thread_idle_def threadlistnode_cleanup_def nxt_def prv_def slf_def split: option.splits)
  then have run: "thread_destroy cur t s = Some (destroyed t h3 s)"
    using th t 1(1) 2(1) 3(1)
    by (auto simp: thread_destroy_def do_kfree_def upd_thr_def destroyed_def put_thr_def split: if_splits intro!: sched.equality)
  have "res_inv own' L' X (destroyed t h3 s)"
    unfolding res_inv_def
  proof (intro conjI allI impI)
    show "heap_inv (heap (destroyed t h3 s)) L' X" "dom own' \<subseteq> dom L'" using 3(2,3) by (simp_all add: destroyed_def def')
  next
    fix u uh assume u: "thr (destroyed t h3 s) u = Some uh"
    then have u': "thr s u = Some uh" "u \<noteq> t" by (auto simp: destroyed_def split: if_splits)
    show "own' u = Some (Own_thread u)" "own' (t_name uh) = Some (Own_name u)" using res_invD(3,4) [OF inv u'(1)] u'(2) keep by auto
    show "own' (t_stack uh) = Some (Own_stack u)" if "t_stack uh \<noteq> 0" using res_invD(5) [OF inv u'(1) that] u'(2) keep by auto
  next
    fix w assume "wc_name (destroyed t h3 s) w \<noteq> None"
    then show "own' w = Some (Own_wchan w)" using res_invD(6) [OF inv, of w] keep by (auto simp: destroyed_def)
  next
    fix p a assume "p_threads (destroyed t h3 s) p = Some a"
    then have a: "p_threads s p = Some a" by (simp add: destroyed_def)
    show "arr_wf a" using res_invD(7) [OF inv a] by simp
    show "arr_owned a L'" using res_invD(7,8) [OF inv a] keepL by (auto simp: arr_owned_def)
    show "own' (ar_vp a) = Some (Own_array p)" if "ar_max a \<noteq> 0" using res_invD(8) [OF inv a that] keep by auto
  qed
  then show thesis using run that by (simp add: own'_def L'_def)
qed

lemma tl_sys_idle: "tl_sys L A q s \<Longrightarrow> t \<in> A \<Longrightarrow> (\<And>l. l \<in> L \<Longrightarrow> t \<notin> set (q l)) \<Longrightarrow> thread_idle s t"
  unfolding tl_sys_def tq_all_def by blast

lemma sinv_destroyed:
  assumes inv: "sinv E None s q" and on: "runs_on s cur c" "\<not> c_isidle (allcpus s ! c)" and q: "q (Zombies c) = z # ts"
    and sys: "tl_sys (sys_lists E s) (dom (thr s)) (q(Zombies c := ts)) l"
  shows "sinv E None (destroyed z h (s\<lparr>tls := l\<rparr>)) (q(Zombies c := ts))" (is "sinv E None ?s ?q")
proof -
  have c: "c < length (allcpus s)" using on by (auto simp: runs_on_def)
  have Z: "Zombies c \<in> sys_lists E s" by (rule in_lists(2) [OF c])
  obtain zt where z: "thr s z = Some zt" "t_cpu zt = Some c" using sinv_on [OF inv Z, of z] q by auto
  have z_on: "on_list E s q z" by (rule on_listI [OF Z]) (simp add: q)
  have "cpu_ok E None s q c" by (rule sinvD(3) [OF inv c])
  then have "\<not> on_list E s q cur" using on by (auto simp: cpu_ok_def runs_on_def)
  then have not_cur: "\<not> runs_on s z d" for d
    using sinv_cur_cpu [OF inv _ z(1), of d] z(2) z_on on by (auto simp: runs_on_def)
  have off: "z \<notin> set (?q k)" if "k \<in> sys_lists E s" for k by (rule off_lists [OF sinvD(1) [OF inv] Z q that])
  have on': "on_list E s ?q t = on_list E s q t" if "t \<noteq> z" for t
    unfolding on_list_def using that q by (metis fun_upd_other fun_upd_same list.set_intros(2) set_ConsD)
  have same: "sys_lists E ?s = sys_lists E s" "runs_on ?s = runs_on s" "on_list E ?s = on_list E s" "allcpus ?s = allcpus s" "irq ?s = irq s"
    by (auto simp: sys_lists_def runs_on_def on_list_def destroyed_def fun_eq_iff)
  have thr': "thr ?s t = (if t = z then None else thr s t)" for t by (simp add: destroyed_def)
  have dom: "dom (thr ?s) = dom (thr s) - {z}" by (auto simp: destroyed_def)
  have cpu: "cpu_ok E None ?s ?q d" if d: "d < length (allcpus s)" for d
  proof -
    have ne: "c_curthread (allcpus s ! d) \<noteq> z" using not_cur [of d] d by (auto simp: runs_on_def)
    show ?thesis by (rule cpu_ok_other [OF sinvD(3) [OF inv d]]) (use ne on' [OF ne] in \<open>simp_all add: same thr'\<close>)
  qed
  show ?thesis
    unfolding sinv_def same dom
  proof (intro conjI allI impI ballI)
    show "tl_sys (sys_lists E s) (dom (thr s) - {z}) ?q (tls ?s)"
      using sys_node_free [where q = ?q and t = z, OF sys off] by (simp add: destroyed_def)
  next
    fix t tt assume t: "thr ?s t = Some tt"
    then have u: "t \<noteq> z" "thr s t = Some tt" by (auto simp: thr' split: if_splits)
    show "thread_ok (length (allcpus s)) tt" using sinvD(5) [OF inv u(2)] .
    show "\<exists>d. runs_on s t d \<and> \<not> c_isidle (allcpus s ! d)" if "\<not> on_list E s ?q t" using sinvD(6) [OF inv u(2)] on' [OF u(1)] that by simp
    show "resumable (t_context tt)" if "on_list E s ?q t" using sinvD(7) [OF inv u(2)] on' [OF u(1)] that by simp
    show "(\<exists>d. runs_on s t d) \<or> parked tt" if "on_list E s ?q t" using sinvD(8) [OF inv u(2)] on' [OF u(1)] that by blast
  next
    fix k t tt assume k: "k \<in> sys_lists E s" "t \<in> set (?q k)" "thr ?s t = Some tt"
    then show "fits k tt" using sinvD(9) [OF inv k(1), of t tt] q by (auto simp: thr' split: if_splits)
  qed (use sinvD [OF inv] inv cpu in \<open>auto simp: destroyed_def sinv_def\<close>)
qed

text \<open>What the end of a context switch leaves as it was, besides the threads that exited.\<close>

definition same_but :: "tid set \<Rightarrow> sched \<Rightarrow> sched \<Rightarrow> bool" where
  "same_but Z s s' \<longleftrightarrow> (\<forall>t. thr s' t = (if t \<in> Z then None else thr s t)) \<and> irq s' = irq s \<and> allcpus s' = allcpus s \<and>
     wc_name s' = wc_name s \<and> p_threads s' = p_threads s \<and> p_vm s' = p_vm s \<and> kproc s' = kproc s \<and> tlbs s' = tlbs s \<and> lbolt s' = lbolt s"

lemma exorcise_ok:
  assumes "sinv E None s q" and "res_inv own L X s" and "runs_on s cur c" "\<not> c_isidle (allcpus s ! c)"
  obtains s' own' L' where "exorcise cur s = Some s'" and "sinv E None s' (q(Zombies c := []))" and "res_inv own' L' X s'"
    and "same_but (set (q (Zombies c))) s s'"
  using assms
proof (induction "q (Zombies c)" arbitrary: q s own L thesis)
  case Nil
  have c: "c < length (allcpus s)" using Nil(5) by (auto simp: runs_on_def)
  obtain th where th: "running cur c th s" by (rule sinv_cur [OF Nil(3,5)])
  have "threadlist_remhead (Zombies c) (tls s) = Some (None, tls s)"
    by (rule sys_remhead [OF sinvD(1) [OF Nil(3)] in_lists(2) [OF c]]) (use Nil(1) in auto)
  then have "exorcise cur s = Some s" using running_cur(1) [OF th] by (subst exorcise.simps) (simp add: tls_rem_def)
  moreover have "q(Zombies c := []) = q" using Nil(1) by (simp add: fun_upd_idem_iff)
  moreover have "same_but (set (q (Zombies c))) s s" using Nil(1) by (simp add: same_but_def flip: Nil(1))
  ultimately show ?case using Nil(3,4) by (intro Nil(2) [of s own L]) simp_all
next
  case (Cons z ts)
  note q = Cons(2) [symmetric]
  have c: "c < length (allcpus s)" using Cons(6) by (auto simp: runs_on_def)
  have Z: "Zombies c \<in> sys_lists E s" by (rule in_lists(2) [OF c])
  obtain th where th: "running cur c th s" "\<not> on_list E s q cur" by (rule sinv_cur [OF Cons(4,6)]) (use Cons(7) in auto)
  obtain zt where zt: "thr s z = Some zt" "t_state zt = S_ZOMBIE" "t_proc zt = 0"
    using sinv_on [OF Cons(4) Z, of z] q by auto
  obtain l where l: "threadlist_remhead (Zombies c) (tls s) = Some (Some z, l)" "tl_sys (sys_lists E s) (dom (thr s)) (q(Zombies c := ts)) l"
    by (rule sys_remhead [OF sinvD(1) [OF Cons(4)] Z]) (simp_all add: q)
  let ?s1 = "s\<lparr>tls := l\<rparr>"
  have ne: "z \<noteq> cur" using th(2) on_listI [OF Z, of z q] by (auto simp: q)
  have idle: "thread_idle l z"
    by (rule tl_sys_idle [OF l(2) _ off_lists [OF sinvD(1) [OF Cons(4)] Z q]]) (use zt(1) in auto)
  have bad: "t_badfaultfunc zt = 0" using sinvD(5) [OF Cons(4) zt(1)] by (simp add: thread_ok_def)
  have res1: "res_inv own L X ?s1" by (rule same_res_inv [OF Cons(5)]) (simp add: same_res_def)
  obtain h own1 L1 where d: "thread_destroy cur z ?s1 = Some (destroyed z h ?s1)" "res_inv own1 L1 X (destroyed z h ?s1)"
    by (rule destroy_ok [OF res1, of z zt cur]) (use zt ne bad idle in auto)
  have inv1: "sinv E None (destroyed z h ?s1) (q(Zombies c := ts))" by (rule sinv_destroyed [OF Cons(4,6,7) q l(2)])
  have run1: "runs_on (destroyed z h ?s1) cur c" "\<not> c_isidle (allcpus (destroyed z h ?s1) ! c)"
    using Cons(6,7) by (simp_all add: runs_on_def destroyed_def)
  obtain s' own' L' where s': "exorcise cur (destroyed z h ?s1) = Some s'" "sinv E None s' ((q(Zombies c := ts))(Zombies c := []))" "res_inv own' L' X s'"
    "same_but (set ((q(Zombies c := ts)) (Zombies c))) (destroyed z h ?s1) s'"
    by (rule Cons(1) [OF _ _ inv1 d(2) run1]) simp_all
  have "exorcise cur s = Some s'"
    using running_cur(1) [OF th(1)] l(1) ne zt s'(1) d(1) by (subst exorcise.simps) (simp add: tls_rem_def)
  moreover have "same_but (set (q (Zombies c))) s s'" using s'(4) by (auto simp: same_but_def destroyed_def q)
  ultimately show ?case using s'(2,3) by (intro Cons(3) [of s' own' L']) simp_all
qed

subsection \<open>The end of the switch\<close>

definition levelled :: "tid \<Rightarrow> cpuid \<Rightarrow> thread \<Rightarrow> int \<Rightarrow> sched \<Rightarrow> sched" where
  "levelled cur c th spl s = s\<lparr>thr := (thr s)(cur \<mapsto> th\<lparr>t_curspl := spl, t_iplhigh_count := spl\<rparr>), irq := (irq s)(c := (spl = 0))\<rparr>"

lemma spl_upd_comm: "th\<lparr>t_iplhigh_count := i, t_curspl := j\<rparr> = th\<lparr>t_curspl := j, t_iplhigh_count := i\<rparr>"
  by simp

lemma splx_levelled:
  assumes run: "running cur c th s" and spl: "t_curspl th \<in> {0, 1}" "t_iplhigh_count th = t_curspl th" "spl \<in> {0, 1}"
  shows "splx cur spl s = Some (t_curspl th, levelled cur c th spl s)"
proof -
  have cur: "cur \<noteq> 0" "thr s cur = Some th" "t_cpu th = Some c" "irq s c \<longleftrightarrow> t_curspl th = 0" using run spl(2) by (auto simp: running_def)
  consider "t_curspl th = spl" | "t_curspl th = 0" "spl = 1" | "t_curspl th = 1" "spl = 0" using spl by auto
  then show ?thesis
  proof cases
    case 1
    have "th\<lparr>t_curspl := spl, t_iplhigh_count := spl\<rparr> = th" using 1 spl(2) by (cases th) simp
    moreover have "(thr s)(cur \<mapsto> th) = thr s" "(irq s)(c := (spl = 0)) = irq s" using cur 1 by (simp_all add: fun_upd_idem_iff)
    ultimately have "levelled cur c th spl s = s" by (simp add: levelled_def)
    then show ?thesis using splx_same [OF cur(2) 1] 1 by simp
  next
    case 2
    then show ?thesis using splhigh_eq [OF cur(1,2,3) 2(1)] spl(2)
      by (simp add: splhigh_def IPL_HIGH_def levelled_def put_thr_def set_irq_def spl_upd_comm)
  next
    case 3
    then show ?thesis using splx_lower_eq [OF cur(1,2,3) 3(1)] spl(2)
      by (simp add: levelled_def put_thr_def set_irq_def)
  qed
qed

lemma sinv_levelled:
  assumes inv: "sinv E None s q" and on: "runs_on s cur c" and busy: "\<not> c_isidle (allcpus s ! c)" and th: "thr s cur = Some th" and spl: "spl \<in> {0, 1}"
  shows "sinv E None (levelled cur c th spl s) q" (is "sinv E None ?s q")
proof -
  have c: "c < length (allcpus s)" "c_curthread (allcpus s ! c) = cur" using on by (auto simp: runs_on_def)
  have "cpu_ok E None s q c" by (rule sinvD(3) [OF inv c(1)])
  then have cur: "t_cpu th = Some c" "\<not> on_list E s q cur" "t_state th \<in> {S_RUN, S_READY}" using busy c(2) th by (auto simp: cpu_ok_def)
  have same: "sys_lists E ?s = sys_lists E s" "runs_on ?s = runs_on s" "on_list E ?s q = on_list E s q" "allcpus ?s = allcpus s"
    by (auto simp: sys_lists_def runs_on_def on_list_def levelled_def fun_eq_iff)
  have dom: "dom (thr ?s) = dom (thr s)" using th by (auto simp: levelled_def)
  have thr': "thr ?s t = (if t = cur then Some (th\<lparr>t_curspl := spl, t_iplhigh_count := spl\<rparr>) else thr s t)" for t by (simp add: levelled_def)
  have irq': "irq ?s d = (if d = c then spl = 0 else irq s d)" for d by (simp add: levelled_def)
  have cpu: "cpu_ok E None ?s q d" if d: "d < length (allcpus s)" for d
  proof (cases "d = c")
    case True
    then show ?thesis unfolding cpu_ok_def same using busy cur c(2) spl by (simp add: thr' irq')
  next
    case False
    then have ne: "c_curthread (allcpus s ! d) \<noteq> cur" using runs_on_unique [OF inv on, of d] d by (auto simp: runs_on_def)
    show ?thesis by (rule cpu_ok_other [OF sinvD(3) [OF inv d]]) (use False ne in \<open>simp_all add: same thr' irq'\<close>)
  qed
  show ?thesis
    unfolding sinv_def same dom
  proof (intro conjI allI impI ballI)
    fix t tt assume t: "thr ?s t = Some tt"
    then obtain u where u: "thr s t = Some u" "t_context tt = t_context u" "thread_ok (length (allcpus s)) tt = thread_ok (length (allcpus s)) u"
      "t \<noteq> cur \<Longrightarrow> u = tt" using th by (auto simp: thr' split: if_splits)
    show "thread_ok (length (allcpus s)) tt" using u sinvD(5) [OF inv] by simp
    show "\<exists>d. runs_on s t d \<and> \<not> c_isidle (allcpus s ! d)" if "\<not> on_list E s q t" using u sinvD(6) [OF inv] that by blast
    show "resumable (t_context tt)" if "on_list E s q t" using u sinvD(7) [OF inv] that by simp
    show "(\<exists>d. runs_on s t d) \<or> parked tt" if "on_list E s q t" using u sinvD(8) [OF inv, of t u] that on by (cases "t = cur") auto
  next
    fix k t tt assume k: "k \<in> sys_lists E s" "t \<in> set (q k)" "thr ?s t = Some tt"
    then have "t \<noteq> cur" using cur(2) on_listI by blast
    then show "fits k tt" using sinvD(9) [OF inv k(1,2)] k(3) by (auto simp: thr')
  qed (use sinvD [OF inv] inv cpu th in \<open>auto simp: levelled_def sinv_def\<close>)
qed

lemma cur_activate_ok:
  assumes inv: "sinv E None s q" and on: "runs_on s cur c" and th: "thr s cur = Some th"
  obtains tlb where "cur_activate cur s = Some (s\<lparr>tlbs := (tlbs s)(c := tlb)\<rparr>)" and "length tlb = NUM_TLB"
    and "t_proc th \<noteq> 0 \<Longrightarrow> p_addrspace (p_vm s (t_proc th)) \<noteq> None \<Longrightarrow> \<forall>j < NUM_TLB. \<not> tlb_valid (tlb ! j)"
proof -
  have len: "length (tlbs s c) = NUM_TLB" using sinvD(4) [OF inv] on by (simp add: runs_on_def)
  have cpu: "curcpu cur s = Some c" using sinv_cur_cpu [OF inv on th] th by (simp add: curcpu_def)
  obtain t where t: "tlb_flush 0 (tlbs s c) = Some t" "length t = NUM_TLB" "\<forall>j<NUM_TLB. \<not> tlb_valid (t ! j)"
    by (rule tlb_flush_slots [OF len, of 0]) simp_all
  show thesis
  proof (cases "t_proc th \<noteq> 0 \<and> p_addrspace (p_vm s (t_proc th)) \<noteq> None")
    case True
    then have "cur_activate cur s = Some (s\<lparr>tlbs := (tlbs s)(c := t)\<rparr>)"
      using t(1) cpu th by (auto simp: cur_activate_def cur_vm_def as_activate_def)
    then show ?thesis using t(2,3) by (rule that)
  next
    case False
    then have "cur_activate cur s = Some (s\<lparr>tlbs := (tlbs s)(c := tlbs s c)\<rparr>)"
      using cpu th by (auto simp: cur_activate_def cur_vm_def as_activate_def)
    then show ?thesis using len False by (intro that) auto
  qed
qed

lemma sinv_tlb: "sinv E None s q \<Longrightarrow> length tlb = NUM_TLB \<Longrightarrow> sinv E None (s\<lparr>tlbs := (tlbs s)(c := tlb)\<rparr>) q"
  by (rule sinv_lists) (auto simp: same_cpus_def sinv_def)

fun level_of :: "switchframe \<Rightarrow> int" where
  "level_of (Switch spl) = spl"
| "level_of _ = 0"

definition ran :: "thread \<Rightarrow> thread" where
  "ran th = th\<lparr>t_wchan_name := None, t_state := S_RUN, t_curspl := level_of (t_context th), t_iplhigh_count := level_of (t_context th)\<rparr>"

text \<open>The result of switching from \<open>s\<close> to thread \<open>n\<close> on processor \<open>c\<close>, where the threads \<open>Z\<close> had exited.\<close>

definition switched_to :: "tid \<Rightarrow> cpuid \<Rightarrow> tid set \<Rightarrow> sched \<Rightarrow> sched \<Rightarrow> bool" where
  "switched_to n c Z s s' \<longleftrightarrow> runs_on s' n c \<and>
     (\<forall>t. thr s' t = (if t \<in> Z then None else if t = n then map_option ran (thr s n) else thr s t)) \<and>
     allcpus s' = (allcpus s)[c := (allcpus s ! c)\<lparr>c_isidle := False, c_curthread := n\<rparr>] \<and>
     wc_name s' = wc_name s \<and> p_threads s' = p_threads s \<and> p_vm s' = p_vm s \<and> kproc s' = kproc s \<and> lbolt s' = lbolt s \<and>
     (\<forall>th. thr s n = Some th \<and> t_proc th \<noteq> 0 \<and> p_addrspace (p_vm s (t_proc th)) \<noteq> None \<longrightarrow> (\<forall>j < NUM_TLB. \<not> tlb_valid (tlbs s' c ! j)))"

lemma switch_resume_eq:
  assumes inv: "sinv E (Some c) s q" and c: "c < length (allcpus s)" "c_isidle (allcpus s ! c)" and n: "n \<in> set (q (Runqueue c))" and nt: "thr s n = Some nt"
  shows "switch_resume n (s\<lparr>tls := l, allcpus := (allcpus s)[c := (allcpus s ! c)\<lparr>c_isidle := False, c_curthread := n\<rparr>]\<rparr>) =
    do { s3 \<leftarrow> cur_activate n (resumed n c nt l s); exorcise n s3 }"
proof -
  note r = sinv_ready [OF inv c n nt]
  let ?s = "s\<lparr>tls := l, allcpus := (allcpus s)[c := (allcpus s ! c)\<lparr>c_isidle := False, c_curthread := n\<rparr>]\<rparr>"
  let ?nt = "nt\<lparr>t_wchan_name := None, t_state := S_RUN\<rparr>" and ?s1 = "?s\<lparr>thr := (thr s)(n \<mapsto> nt\<lparr>t_wchan_name := None, t_state := S_RUN\<rparr>)\<rparr>"
  have lks: "lks s = (\<lambda>_. unlocked)(Lk_runqueue c := locked_by c)" by (rule sinv_lks(2) [OF inv])
  have "spinlock_release (Lk_runqueue c) n ?s1 = Some (resumed n c nt l s)"
    by (subst spinlock_release_eq [where th = ?nt and c = c]) (use r lks in \<open>auto simp: resumed_def put_thr_def put_lk_def intro!: sched.equality\<close>)
  moreover have "curcpu n ?s1 = Some c" using r by (simp add: curcpu_def)
  ultimately show ?thesis using nt by (simp add: switch_resume_def upd_thr_def put_thr_def)
qed

lemma switch_next_to:
  assumes inv: "sinv E (Some c) s q" and res: "res_inv own L X s" and on: "runs_on s cur c" and idle: "c_isidle (allcpus s ! c)"
    and q: "q (Runqueue c) = n # ts"
  obtains s' own' L' where "switch_next cur s = Some (To n, s')" and "sinv E None s' (q(Runqueue c := ts, Zombies c := []))"
    and "res_inv own' L' X s'" and "switched_to n c (set (q (Zombies c))) s s'" and "n \<notin> set (q (Zombies c))"
proof -
  have c: "c < length (allcpus s)" using on by (simp add: runs_on_def)
  note R = in_lists(1) [OF c] and sys = sinvD(1) [OF inv]
  have n: "n \<in> set (q (Runqueue c))" using q by simp
  obtain nt where nt: "thr s n = Some nt" using sinv_on [OF inv R n] by auto
  note r = sinv_ready [OF inv c idle n nt]
  obtain l where l: "threadlist_remhead (Runqueue c) (tls s) = Some (Some n, l)" "tl_sys (sys_lists E s) (dom (thr s)) (q(Runqueue c := ts)) l"
    by (rule sys_remhead [OF sys R]) (use q in auto)
  let ?q = "q(Runqueue c := ts)" and ?s1 = "resumed n c nt l s"
  have inv1: "sinv E None ?s1 ?q" by (rule sinv_resumed [OF inv c idle q nt l(2)])
  have on1: "runs_on ?s1 n c" "\<not> c_isidle (allcpus ?s1 ! c)" using c by (simp_all add: runs_on_def resumed_def)
  have nt1: "thr ?s1 n = Some (nt\<lparr>t_wchan_name := None, t_state := S_RUN, t_iplhigh_count := 1\<rparr>)" by (simp add: resumed_def)
  have res1: "res_inv own L X ?s1" by (rule same_res_inv [OF res]) (use nt in \<open>auto simp: same_res_def resumed_def\<close>)
  obtain tlb where tlb: "cur_activate n ?s1 = Some (?s1\<lparr>tlbs := (tlbs ?s1)(c := tlb)\<rparr>)" "length tlb = NUM_TLB"
    "t_proc nt \<noteq> 0 \<Longrightarrow> p_addrspace (p_vm s (t_proc nt)) \<noteq> None \<Longrightarrow> \<forall>j < NUM_TLB. \<not> tlb_valid (tlb ! j)"
    by (rule cur_activate_ok [OF inv1 on1(1) nt1]) (simp add: resumed_def)
  let ?s2 = "?s1\<lparr>tlbs := (tlbs ?s1)(c := tlb)\<rparr>"
  have inv2: "sinv E None ?s2 ?q" by (rule sinv_tlb [OF inv1 tlb(2)])
  have res2: "res_inv own L X ?s2" by (rule same_res_inv [OF res1]) (simp add: same_res_def)
  have on2: "runs_on ?s2 n c" "\<not> c_isidle (allcpus ?s2 ! c)" using on1 by (simp_all add: runs_on_def)
  obtain s3 own' L' where s3: "exorcise n ?s2 = Some s3" "sinv E None s3 (?q(Zombies c := []))" "res_inv own' L' X s3" "same_but (set (?q (Zombies c))) ?s2 s3"
    by (rule exorcise_ok [OF inv2 res2 on2])
  have nz: "n \<notin> set (q (Zombies c))" using tl_sys_apart [OF sys R in_lists(2) [OF c] _ n] by simp
  let ?t3 = "nt\<lparr>t_wchan_name := None, t_state := S_RUN, t_iplhigh_count := 1\<rparr>"
  have t3: "thr s3 n = Some ?t3" using s3(4) nt1 nz by (simp add: same_but_def)
  have on3: "runs_on s3 n c" "\<not> c_isidle (allcpus s3 ! c)" using s3(4) on2 by (simp_all add: same_but_def runs_on_def)
  have run3: "running n c ?t3 s3" by (rule sinv_cur [OF s3(2) on3(1)]) (use t3 in auto)
  let ?lv = "level_of (t_context nt)"
  have lv: "?lv \<in> {0, 1}" using r(5) by (cases "t_context nt") auto
  have lower: "splx n ?lv s3 = Some (1, levelled n c ?t3 ?lv s3)"
    using splx_levelled [OF run3 _ _ lv] r(2) by simp
  have "switch_to n (s\<lparr>tls := l, allcpus := (allcpus s)[c := (allcpus s ! c)\<lparr>c_isidle := False, c_curthread := n\<rparr>]\<rparr>) = Some (levelled n c ?t3 ?lv s3)"
    using nt lower r(5) tlb(1) s3(1)
    by (cases "t_context nt")
      (simp_all add: switch_to_def switch_finish_def thread_startup_def spl0_def IPL_NONE_def switch_resume_eq [OF inv c idle n nt])
  then have sw: "switch_next cur s = Some (To n, levelled n c ?t3 ?lv s3)"
    using l(1) c sinv_cur_cpu [OF inv on] runs_on_thr [OF inv on] by (auto simp: switch_next_def curcpu_def tls_rem_def upd_cpu_def)
  have "sinv E None (levelled n c ?t3 ?lv s3) (?q(Zombies c := []))" by (rule sinv_levelled [OF s3(2) on3 t3 lv])
  moreover have "res_inv own' L' X (levelled n c ?t3 ?lv s3)"
    by (rule same_res_inv [OF s3(3)]) (use t3 in \<open>auto simp: same_res_def levelled_def\<close>)
  moreover have "switched_to n c (set (q (Zombies c))) s (levelled n c ?t3 ?lv s3)"
    using s3(4) on3(1) tlb(3) nt nz by (auto simp: switched_to_def same_but_def levelled_def resumed_def runs_on_def ran_def)
  ultimately show thesis using that sw nz by blast
qed

lemma switch_next_idle:
  assumes inv: "sinv E (Some c) s q" and on: "runs_on s cur c" and idle: "c_isidle (allcpus s ! c)" and q: "q (Runqueue c) = []" and th: "thr s cur = Some th"
  shows "switch_next cur s = Some (Idling, idled cur th s)" and "sinv E None (idled cur th s) q"
proof -
  have c: "c < length (allcpus s)" using on by (simp add: runs_on_def)
  have "threadlist_remhead (Runqueue c) (tls s) = Some (None, tls s)"
    by (rule sys_remhead [OF sinvD(1) [OF inv] in_lists(1) [OF c]]) (use q in auto)
  moreover have "spinlock_release (Lk_runqueue c) cur s = Some (idled cur th s)"
    by (subst spinlock_release_eq [where th = th and c = c])
      (use sinv_idle_cur [OF inv on idle th] th sinv_lks(2) [OF inv] in \<open>auto simp: idled_def put_thr_def put_lk_def intro!: sched.equality\<close>)
  ultimately show "switch_next cur s = Some (Idling, idled cur th s)"
    using sinv_idle_cur(1) [OF inv on idle th] th by (simp add: switch_next_def curcpu_def tls_rem_def)
  show "sinv E None (idled cur th s) q" by (rule sinv_idled [OF inv on idle th])
qed

end
