(* ===== verification/Threads_Correct.thy ===== *)
theory Threads_Correct
  imports Threads_Switch
begin

text \<open>
  The operations of the thread system from the invariant: what each of them does to the lists, that
  none of them fails an assertion, and that the invariant is kept.
\<close>

subsection \<open>Giving up the processor\<close>

lemma off_all: "sinv E K s q \<Longrightarrow> \<not> on_list E s q t \<Longrightarrow> l \<in> sys_lists E s \<Longrightarrow> t \<notin> set (q l)"
  by (auto simp: on_list_def)

lemma left_runs [simp]: "runs_on (left cur c th st nm x s) t d = runs_on s t d"
  by (cases "d = c"; cases "c < length (allcpus s)") (auto simp: runs_on_def left_def)

lemma left_idle: "c < length (allcpus s) \<Longrightarrow> c_isidle (allcpus (left cur c th st nm x s) ! c)"
  by (simp add: left_def)

lemma left_res: "thr s cur = Some th \<Longrightarrow> res_inv own L X s \<Longrightarrow> res_inv own L X (left cur c th st nm x s)"
  by (erule same_res_inv) (auto simp: same_res_def left_def)

text \<open>
  The outcome of a switch on processor \<open>c\<close>: the head of its run queue runs and the threads that had
  exited are gone, or the queue is empty and the processor idles in the previous thread.
\<close>

definition next_ok :: "tlist set \<Rightarrow> (u32 \<rightharpoonup> nat) \<Rightarrow> tid \<Rightarrow> cpuid \<Rightarrow> (tlist \<Rightarrow> tid list) \<Rightarrow> sched \<Rightarrow> switched \<Rightarrow> sched \<Rightarrow> bool" where
  "next_ok E X cur c q s r s' \<longleftrightarrow> (\<exists>own L. res_inv own L X s') \<and>
     (case q (Runqueue c) of
        [] \<Rightarrow> r = Idling \<and> sinv E None s' q \<and> same_res s s' \<and> allcpus s' = allcpus s \<and> lbolt s' = lbolt s
      | n # ts \<Rightarrow> r = To n \<and> sinv E None s' (q(Runqueue c := ts, Zombies c := [])) \<and> switched_to n c (set (q (Zombies c))) s s')"

lemma switch_next_ok:
  assumes inv: "sinv E (Some c) s q" and res: "res_inv own L X s" and on: "runs_on s cur c" and idle: "c_isidle (allcpus s ! c)"
  shows "\<exists>r s'. switch_next cur s = Some (r, s') \<and> next_ok E X cur c q s r s'"
proof (cases "q (Runqueue c)")
  case Nil
  obtain th where th: "thr s cur = Some th" using runs_on_thr [OF inv on] by blast
  have "same_res s (idled cur th s)" using th by (auto simp: same_res_def idled_def)
  with same_res_inv [OF res this] show ?thesis
    using switch_next_idle [OF inv on idle Nil th] Nil by (auto simp: next_ok_def idled_def)
next
  case (Cons n ts)
  obtain s' own' L' where "switch_next cur s = Some (To n, s')" "sinv E None s' (q(Runqueue c := ts, Zombies c := []))"
    "res_inv own' L' X s'" "switched_to n c (set (q (Zombies c))) s s'"
    by (rule switch_next_to [OF inv res on idle Cons])
  then show ?thesis using Cons by (auto simp: next_ok_def)
qed

text \<open>The current thread as it is once it is queued with state \<open>st\<close>.\<close>

definition queued :: "thread \<Rightarrow> threadstate \<Rightarrow> string option \<Rightarrow> thread" where
  "queued th st nm = th\<lparr>t_wchan_name := nm, t_state := st, t_context := Switch (t_curspl th), t_curspl := 1, t_iplhigh_count := 2\<rparr>"

lemma left_thr: "thr (left cur c th st nm x s) t = (if t = cur then Some (queued th st nm) else thr s t)"
  by (simp add: left_def queued_def)

lemma switch_away:
  assumes inv: "sinv E None s q" and res: "res_inv own L X s" and on: "runs_on s cur c" and busy: "\<not> c_isidle (allcpus s ! c)"
    and th: "thr s cur = Some th" and l: "l \<in> sys_lists E s" and sys: "tl_sys (sys_lists E s) (dom (thr s)) (q(l := q l @ [cur])) x"
    and fit: "fits l (queued th st nm)"
  shows "\<exists>r s'. switch_next cur (left cur c th st nm x s) = Some (r, s') \<and>
    next_ok E X cur c (q(l := q l @ [cur])) (left cur c th st nm x s) r s'"
proof (rule switch_next_ok)
  show "sinv E (Some c) (left cur c th st nm x s) (q(l := q l @ [cur]))"
    by (rule sinv_left [OF inv on busy th l sys]) (use fit in \<open>simp add: queued_def\<close>)
  show "res_inv own L X (left cur c th st nm x s)" by (rule left_res [OF th res])
  show "runs_on (left cur c th st nm x s) cur c" using on by simp
  show "c_isidle (allcpus (left cur c th st nm x s) ! c)" using on by (auto simp: runs_on_def intro: left_idle)
qed

text \<open>The thread that gives up the processor is in none of the lists, so it can be queued.\<close>

lemma queue_cur:
  assumes inv: "sinv E None s q" and on: "runs_on s cur c" and busy: "\<not> c_isidle (allcpus s ! c)" and l: "l \<in> sys_lists E s"
  obtains th x where "thr s cur = Some th" and "running cur c th s" and "t_curspl th \<in> {0, 1}" and "t_iplhigh_count th = t_curspl th"
    and "c < length (allcpus s)" and "thread_ok (length (allcpus s)) th" and "t_cpu th = Some c" and "\<not> on_list E s q cur"
    and "threadlist_addtail l cur (tls s) = Some x" and "tl_sys (sys_lists E s) (dom (thr s)) (q(l := q l @ [cur])) x"
proof -
  obtain th where th: "running cur c th s" "thr s cur = Some th" "t_curspl th \<in> {0, 1}" "c < length (allcpus s)"
      "t_iplhigh_count th = t_curspl th" "\<not> on_list E s q cur"
    by (rule sinv_cur [OF inv on]) (use busy in auto)
  have dom: "cur \<in> dom (thr s)" using th by auto
  obtain x where "threadlist_addtail l cur (tls s) = Some x" "tl_sys (sys_lists E s) (dom (thr s)) (q(l := q l @ [cur])) x"
    by (rule sys_addtail [OF sinvD(1) [OF inv] l dom off_all [OF inv th(6)]])
  then show thesis using that th sinvD(5) [OF inv th(2)] sinv_cur_cpu [OF inv on th(2)] by blast
qed

lemma yield_idle:
  assumes inv: "sinv E None s q" and on: "runs_on s cur c" and idle: "c_isidle (allcpus s ! c)"
  shows "thread_switch cur st wc s = Some (Same, s)"
proof -
  have c: "c < length (allcpus s)" using on by (simp add: runs_on_def)
  obtain th where th: "thr s cur = Some th" "t_curspl th = 1" by (rule sinv_cur [OF inv on]) (use idle in auto)
  have "curcpu cur s = Some c" using sinv_cur_cpu [OF inv on th(1)] th(1) by (simp add: curcpu_def)
  then show ?thesis
    using splhigh_same [OF th] splx_same [OF th] c idle by (simp add: thread_switch_def)
qed

lemma yield_alone:
  assumes inv: "sinv E None s q" and on: "runs_on s cur c" and busy: "\<not> c_isidle (allcpus s ! c)" and q: "q (Runqueue c) = []"
  shows "thread_yield cur s = Some (Same, s)"
proof -
  obtain th where th: "running cur c th s" "thr s cur = Some th" "t_curspl th \<in> {0, 1}" "c < length (allcpus s)" "t_iplhigh_count th = t_curspl th"
    by (rule sinv_cur [OF inv on]) (use busy in auto)
  define th1 where "th1 = th\<lparr>t_iplhigh_count := t_iplhigh_count th + 1 - t_curspl th, t_curspl := 1\<rparr>"
  have th1: "th1 = th\<lparr>t_iplhigh_count := 1, t_curspl := 1\<rparr>" using th(5) by (simp add: th1_def)
  have hi: "splhigh cur s = Some (t_curspl th, raised cur c th s)" and run1: "running cur c th1 (raised cur c th s)"
    unfolding th1_def using splhigh_raised [OF th(1,3)] th(5) by auto
  have free: "lks (raised cur c th s) (Lk_runqueue c) = unlocked" using sinv_lks(1) [OF inv] by simp
  have chk: "thread_checkstack cur (raised cur c th s) = Some ()"
    by (rule checkstack_ok [OF running_cur(2) [OF run1], of "length (allcpus s)"]) (use sinvD(5) [OF inv th(2)] in \<open>simp add: th1_def\<close>)
  have empty: "threadlist_isempty (Runqueue c) (tls s)"
    using isempty_ok [OF tl_sys_rel(1) [OF sinvD(1) [OF inv] in_lists(1) [OF th(4)]]] q by simp
  have rel: "spinlock_release (Lk_runqueue c) cur (locked (Lk_runqueue c) cur c th1 (raised cur c th s)) = Some (raised cur c th s)"
    using release_locked [OF run1 free refl refl refl] unfolding locked_restore .
  have restore: "levelled cur c th1 (t_curspl th) (raised cur c th s) = s"
  proof -
    have "th1\<lparr>t_curspl := t_curspl th, t_iplhigh_count := t_curspl th\<rparr> = th" using th(5) by (cases th) (simp add: th1_def)
    moreover have "(thr s)(cur \<mapsto> th) = thr s" "(irq s)(c := (t_curspl th = 0)) = irq s"
      using th(1,5) by (auto simp: running_def fun_upd_idem_iff)
    ultimately show ?thesis by (simp add: levelled_def raised_def)
  qed
  have "splx cur (t_curspl th) (raised cur c th s) = Some (1, s)"
    using splx_levelled [OF run1 _ _ th(3)] restore th1 by simp
  then show ?thesis
    using hi running_cur(1) [OF run1] th(4) busy chk acquire_locked [OF run1 free] empty rel
    by (simp add: thread_yield_def thread_switch_def)
qed

lemma yield_next:
  assumes inv: "sinv E None s q" and res: "res_inv own L X s" and on: "runs_on s cur c" and busy: "\<not> c_isidle (allcpus s ! c)"
    and th: "thr s cur = Some th" and q: "q (Runqueue c) \<noteq> []"
  shows "\<exists>x r s'. thread_yield cur s = Some (r, s') \<and>
    next_ok E X cur c (q(Runqueue c := q (Runqueue c) @ [cur])) (left cur c th S_READY (t_wchan_name th) x s) r s'"
proof -
  have R: "Runqueue c \<in> sys_lists E s" using in_lists(1) on by (simp add: runs_on_def)
  obtain x where x: "running cur c th s" "t_curspl th \<in> {0, 1}" "t_iplhigh_count th = t_curspl th" "c < length (allcpus s)"
      "thread_ok (length (allcpus s)) th" "t_cpu th = Some c"
      "threadlist_addtail (Runqueue c) cur (tls s) = Some x" "tl_sys (sys_lists E s) (dom (thr s)) (q(Runqueue c := q (Runqueue c) @ [cur])) x"
    by (rule queue_cur [OF inv on busy R]) (use th in auto)
  have some: "\<not> threadlist_isempty (Runqueue c) (tls s)" using isempty_ok [OF tl_sys_rel(1) [OF sinvD(1) [OF inv] R]] q by simp
  have sw: "thread_yield cur s = switch_next cur (left cur c th S_READY (t_wchan_name th) x s)"
    unfolding thread_yield_def
    by (rule switch_ready_eq [OF x(1-4) busy x(5) sinv_lks(1) [OF inv] some x(7)])
  have "fits (Runqueue c) (queued th S_READY (t_wchan_name th))" using x(6) by (simp add: queued_def)
  from switch_away [OF inv res on busy th R x(8) this] show ?thesis unfolding sw by blast
qed

text \<open>Sleeping on a wait channel, which the caller has locked.\<close>

definition lock_and_sleep :: "u32 \<Rightarrow> tid \<Rightarrow> sched \<Rightarrow> (switched \<times> sched) kres" where
  "lock_and_sleep w cur s = do { s1 \<leftarrow> wchan_lock w cur s; wchan_sleep w cur s1 }"

lemma sleep_ok:
  assumes inv: "sinv E None s q" and res: "res_inv own L X s" and on: "runs_on s cur c" and busy: "\<not> c_isidle (allcpus s ! c)"
    and th: "thr s cur = Some th" "\<not> t_in_interrupt th" and nm: "wc_name s w = Some nm"
  shows "\<exists>x r s'. lock_and_sleep w cur s = Some (r, s') \<and>
    next_ok E X cur c (q(Waiters w := q (Waiters w) @ [cur])) (left cur c th S_SLEEP (Some nm) x s) r s'"
proof -
  have W: "Waiters w \<in> sys_lists E s" using in_lists(3) nm by auto
  obtain x where x: "running cur c th s" "t_curspl th \<in> {0, 1}" "t_iplhigh_count th = t_curspl th" "c < length (allcpus s)"
      "thread_ok (length (allcpus s)) th" "t_cpu th = Some c"
      "threadlist_addtail (Waiters w) cur (tls s) = Some x" "tl_sys (sys_lists E s) (dom (thr s)) (q(Waiters w := q (Waiters w) @ [cur])) x"
    by (rule queue_cur [OF inv on busy W]) (use th in auto)
  have sw: "lock_and_sleep w cur s = switch_next cur (left cur c th S_SLEEP (Some nm) x s)"
    using switch_sleep_eq [OF x(1-4) busy x(5) sinv_lks(1) [OF inv] sinv_lks(1) [OF inv] nm x(7)] th
    by (simp add: lock_and_sleep_def wchan_sleep_def locked_def)
  have "fits (Waiters w) (queued th S_SLEEP (Some nm))" by (simp add: queued_def)
  from switch_away [OF inv res on busy th(1) W x(8) this] show ?thesis unfolding sw by blast
qed

end
