(* ===== verification/Threads_Wake.thy ===== *)
theory Threads_Wake
  imports Threads_Correct
begin

text \<open>
  Waking the threads of a wait channel, leaving the idle loop, and ending a thread.  Waking all of
  them goes through a list that exists only while the operation runs.
\<close>

subsection \<open>What waking does not touch\<close>

definition quiet :: "sched \<Rightarrow> sched \<Rightarrow> bool" where
  "quiet s s' \<longleftrightarrow> thr s' = thr s \<and> irq s' = irq s \<and> lks s' = lks s \<and> same_cpus s s' \<and> wc_name s' = wc_name s \<and> heap s' = heap s \<and>
     strs s' = strs s \<and> kproc s' = kproc s \<and> p_threads s' = p_threads s \<and> p_vm s' = p_vm s \<and> tlbs s' = tlbs s \<and> lbolt s' = lbolt s"

lemma quiet_refl [simp]: "quiet s s"
  by (simp add: quiet_def same_cpus_def)

lemma quiet_trans: "quiet s s1 \<Longrightarrow> quiet s1 s2 \<Longrightarrow> quiet s s2"
  by (simp add: quiet_def same_cpus_def)

lemma quiet_tls [simp]: "quiet s (s\<lparr>tls := x\<rparr>)" "quiet (s\<lparr>tls := x\<rparr>) s' \<longleftrightarrow> quiet s s'"
  by (simp_all add: quiet_def same_cpus_def)

lemma quiet_made_runnable [simp]: "quiet s (made_runnable d x s)"
  by (simp add: quiet_def)

lemma quiet_res: "quiet s s' \<Longrightarrow> same_res s s'"
  by (simp add: quiet_def same_res_def)

lemma quiet_runs: "quiet s s' \<Longrightarrow> runs_on s' t c = runs_on s t c"
  by (auto simp: quiet_def same_cpus_def runs_on_def)

lemma quiet_idle: "quiet s s' \<Longrightarrow> c < length (allcpus s) \<Longrightarrow> c_isidle (allcpus s' ! c) = c_isidle (allcpus s ! c)"
  by (simp add: quiet_def same_cpus_def)

lemma quiet_lists: "quiet s s' \<Longrightarrow> sys_lists E s' = sys_lists E s"
  by (simp add: quiet_def same_cpus_def sys_lists_def)

lemma quiet_running: "quiet s s' \<Longrightarrow> running cur c th s' = running cur c th s"
  by (simp add: quiet_def running_def)

subsection \<open>Lists that come and go\<close>

lemma on_list_cong: "(\<And>l. l \<in> sys_lists E s \<Longrightarrow> q' l = q l) \<Longrightarrow> on_list E s q' = on_list E s q"
  by (auto simp: on_list_def fun_eq_iff)

lemma sinv_cong:
  assumes inv: "sinv E K s q" and eq: "\<And>l. l \<in> sys_lists E s \<Longrightarrow> q' l = q l"
  shows "sinv E K s q'"
proof (rule sinv_lists [OF inv])
  show "tl_sys (sys_lists E s) (dom (thr s)) q' (tls s)" using sinvD(1) [OF inv] tl_sys_cong [of "sys_lists E s" q' q] eq by simp
  show "on_list E s q' t = on_list E s q t" for t using on_list_cong [of E s q' q] eq by simp
  show "fits l th" if "l \<in> sys_lists E s" "t \<in> set (q' l)" "thr s t = Some th" for l t th using sinvD(9) [OF inv] eq that by simp
qed (use sinvD(4) [OF inv] in \<open>auto simp: same_cpus_def\<close>)

lemma sys_lists_insert: "sys_lists (insert l E) s = insert l (sys_lists E s)"
  by (simp add: sys_lists_def)

lemma on_list_insert: "q l = [] \<Longrightarrow> on_list (insert l E) s q = on_list E s q"
  by (simp add: on_list_def sys_lists_insert fun_eq_iff)

lemma cpu_ok_insert: "q l = [] \<Longrightarrow> cpu_ok (insert l E) K s q c = cpu_ok E K s q c"
  by (simp add: cpu_ok_def on_list_insert)

lemma sinv_insert: "q l = [] \<Longrightarrow> sinv (insert l E) K s q \<longleftrightarrow> sinv E K s q \<and> tl_sys (insert l (sys_lists E s)) (dom (thr s)) q (tls s)"
  unfolding sinv_def by (auto simp: sys_lists_insert on_list_insert cpu_ok_insert dest: tl_sys_drop)

lemma sinv_add_list:
  assumes inv: "sinv E None s q" and l: "l \<notin> sys_lists E s"
  shows "sinv (insert l E) None (s\<lparr>tls := threadlist_init l (tls s)\<rparr>) (q(l := []))" (is "sinv _ _ ?s ?q")
proof -
  have sys: "tl_sys (insert l (sys_lists E s)) (dom (thr s)) ?q (tls ?s)" using sys_init [OF sinvD(1) [OF inv] l] by simp
  have "sinv E None ?s ?q"
  proof (rule sinv_lists [OF inv])
    show "tl_sys (sys_lists E s) (dom (thr s)) ?q (tls ?s)" by (rule tl_sys_drop [OF sys]) simp
    show "on_list E s ?q t = on_list E s q t" for t by (rule fun_cong [OF on_list_cong]) (use l in auto)
    show "fits k th" if "k \<in> sys_lists E s" "t \<in> set (?q k)" "thr s t = Some th" for k t th using sinvD(9) [OF inv] that by (auto split: if_splits)
  qed (use sinvD(4) [OF inv] in \<open>auto simp: same_cpus_def\<close>)
  then show ?thesis using sys by (simp add: sinv_insert sys_lists_def)
qed

subsection \<open>Wait channels\<close>

lemma wakeone_ok:
  assumes inv: "sinv E None s q" and on: "runs_on s cur c" and w: "wc_name s w \<noteq> None"
  obtains (none) "q (Waiters w) = []" and "wchan_wakeone w cur s = Some s"
  | (some) t ts tt d s' where "q (Waiters w) = t # ts" and "thr s t = Some tt" and "t_cpu tt = Some d" and "wchan_wakeone w cur s = Some s'"
      and "sinv E None s' (q(Waiters w := ts, Runqueue d := q (Runqueue d) @ [t]))" and "quiet s s'"
proof -
  obtain th where th: "running cur c th s" by (rule sinv_cur [OF inv on])
  note free = sinv_lks(1) [OF inv]
  show thesis
  proof (rule wake_lists [where w = w and e = 0, OF inv in_lists(3) [OF w] disjI1 [OF refl]], goal_cases)
    case 1
    then show ?case using none wakeone_none_eq [OF th free] by simp
  next
    case (2 t ts x d tt x')
    then show ?case using some wakeone_eq [OF th free free free 2(2,3,4,5,6)] by simp
  qed
qed

text \<open>The run queues once the threads of list \<open>l\<close> are all made runnable, each on its own processor and in order.\<close>

definition woken :: "sched \<Rightarrow> tlist \<Rightarrow> tid list \<Rightarrow> (tlist \<Rightarrow> tid list) \<Rightarrow> tlist \<Rightarrow> tid list" where
  "woken s l ts q k = (if k = l then [] else case k of
     Runqueue d \<Rightarrow> q k @ filter (\<lambda>t. \<exists>th. thr s t = Some th \<and> t_cpu th = Some d) ts | _ \<Rightarrow> q k)"

lemma wake_list_ok:
  assumes "sinv E None s q" and "runs_on s cur c" and "l \<in> sys_lists E s" and "l = Waiters w \<or> l = Wakelist e"
  obtains s' where "wake_list l cur s = Some s'" and "sinv E None s' (woken s l (q l) q)" and "quiet s s'"
  using assms
proof (induction "q l" arbitrary: q s thesis)
  case Nil
  have "woken s l (q l) q = q" using Nil(1) by (auto simp: woken_def fun_eq_iff split: tlist.splits)
  moreover have "wake_list l cur s = Some s"
    by (rule wake_lists [OF Nil(3,5,6)]) (use Nil(1) in \<open>simp_all add: wake_list.simps tls_rem_def\<close>)
  ultimately show ?case using Nil(3) by (intro Nil(2) [of s]) simp_all
next
  case (Cons t ts)
  obtain th where run: "running cur c th s" by (rule sinv_cur [OF Cons(4,5)])
  note free = sinv_lks(1) [OF Cons(4)]
  obtain x d tt x' where x: "threadlist_remhead l (tls s) = Some (Some t, x)" "thr s t = Some tt" "t_cpu tt = Some d" "d < length (allcpus s)"
      "threadlist_addtail (Runqueue d) t x = Some x'" "sinv E None (made_runnable d x' s) (q(l := ts, Runqueue d := q (Runqueue d) @ [t]))"
    by (rule wake_lists [OF Cons(4,6,7)]) (use Cons(2) in auto)
  let ?q = "q(l := ts, Runqueue d := q (Runqueue d) @ [t])" and ?s = "made_runnable d x' s"
  have run1: "running cur c th (s\<lparr>tls := x\<rparr>)" using run by (simp add: running_def)
  have mk: "thread_make_runnable cur t False (s\<lparr>tls := x\<rparr>) = Some ?s"
    using make_runnable_eq [OF run1, of t tt d x'] x free by (simp add: made_runnable_def posted_def)
  have l: "ts = ?q l" using Cons(7) by auto
  have on1: "runs_on ?s cur c" using Cons(5) quiet_runs [OF quiet_made_runnable] by simp
  have l1: "l \<in> sys_lists E ?s" using Cons(6) quiet_lists [OF quiet_made_runnable] by simp
  obtain s' where s': "wake_list l cur ?s = Some s'" "sinv E None s' (woken ?s l (?q l) ?q)" "quiet ?s s'"
    by (rule Cons(1) [OF l _ x(6) on1 l1 Cons(7)])
  have "woken ?s l (?q l) ?q = woken s l (q l) q"
    using Cons(2) [symmetric] Cons(7) x(2,3) by (auto simp: woken_def fun_eq_iff l [symmetric] split: tlist.splits)
  moreover have "wake_list l cur s = Some s'" using x(1) mk s'(1) by (subst wake_list.simps) (simp add: tls_rem_def)
  ultimately show ?case using s' quiet_trans [OF quiet_made_runnable s'(3)] by (intro Cons(3) [of s']) simp_all
qed

lemma sinv_moved:
  assumes inv: "sinv E None s q" and l: "l \<in> sys_lists E s" "l' \<in> sys_lists E s" "l \<noteq> l'"
    and fit: "\<And>t th. t \<in> set (q l) \<Longrightarrow> thr s t = Some th \<Longrightarrow> fits l' th"
  obtains x where "move_threads threadlist_remhead threadlist_addtail l l' (tls s) = Some x"
    and "sinv E None (s\<lparr>tls := x\<rparr>) (q(l := [], l' := q l' @ q l))"
proof -
  let ?q = "q(l := [], l' := q l' @ q l)"
  obtain x where x: "move_threads threadlist_remhead threadlist_addtail l l' (tls s) = Some x" "tl_sys (sys_lists E s) (dom (thr s)) ?q x"
    by (rule sys_move [OF sinvD(1) [OF inv] l])
  have "sinv E None (s\<lparr>tls := x\<rparr>) ?q"
  proof (rule sinv_lists [OF inv])
    have mem: "t \<in> set (?q k) \<longleftrightarrow> k \<noteq> l \<and> t \<in> set (q k) \<or> k = l' \<and> t \<in> set (q l)" for t k using l(3) by auto
    show "on_list E s ?q t = on_list E s q t" for t
    proof
      assume "on_list E s ?q t"
      then obtain k where "k \<in> sys_lists E s" "t \<in> set (?q k)" by (auto simp only: on_list_def)
      then show "on_list E s q t" using mem [of t k] l(1) on_listI by blast
    next
      assume "on_list E s q t"
      then obtain k where k: "k \<in> sys_lists E s" "t \<in> set (q k)" by (auto simp only: on_list_def)
      show "on_list E s ?q t"
        by (rule on_listI [of "if k = l then l' else k"]) (use k l(2) mem [of t k] mem [of t l'] in auto)
    qed
    show "fits k th" if "k \<in> sys_lists E s" "t \<in> set (?q k)" "thr s t = Some th" for k t th
      using sinvD(9) [OF inv that(1) _ that(3)] that(2,3) fit by (auto split: if_splits)
  qed (use x(2) sinvD(4) [OF inv] in \<open>auto simp: same_cpus_def\<close>)
  then show thesis using x(1) that by blast
qed

lemma wakeall_ok:
  assumes inv: "sinv {} None s q" and on: "runs_on s cur c" and w: "wc_name s w \<noteq> None"
  obtains s' where "wchan_wakeall w cur s = Some s'" and "sinv {} None s' (woken s (Waiters w) (q (Waiters w)) q)" and "quiet s s'"
proof -
  let ?l = "Wakelist c" and ?W = "Waiters w" and ?s0 = "s\<lparr>tls := threadlist_init (Wakelist c) (tls s)\<rparr>"
  have new: "?l \<notin> sys_lists {} s" by (auto simp: sys_lists_def)
  obtain th where run: "running cur c th s" by (rule sinv_cur [OF inv on])
  have run0: "running cur c th ?s0" using run by (simp add: running_def)
  have inv0: "sinv {?l} None ?s0 (q(?l := []))" by (rule sinv_add_list [OF inv new])
  have L: "?W \<in> sys_lists {?l} ?s0" "?l \<in> sys_lists {?l} ?s0" using w by (auto simp: sys_lists_def)
  obtain x where x: "move_threads threadlist_remhead threadlist_addtail ?W ?l (tls ?s0) = Some x"
      "sinv {?l} None (?s0\<lparr>tls := x\<rparr>) ((q(?l := []))(?W := [], ?l := (q(?l := [])) ?l @ (q(?l := [])) ?W))"
    by (rule sinv_moved [OF inv0 L]) (use sinvD(9) [OF inv0 L(1)] in auto)
  let ?s1 = "s\<lparr>tls := x\<rparr>" and ?q1 = "q(?W := [], ?l := q ?W)"
  have q1: "(q(?l := []))(?W := [], ?l := (q(?l := [])) ?l @ (q(?l := [])) ?W) = ?q1" by auto
  have inv1: "sinv {?l} None ?s1 ?q1" using x(2) by (simp add: q1)
  have on1: "runs_on ?s1 cur c" using on by (simp add: runs_on_def)
  obtain s' where s': "wake_list ?l cur ?s1 = Some s'" "sinv {?l} None s' (woken ?s1 ?l (?q1 ?l) ?q1)" "quiet ?s1 s'"
    by (rule wake_list_ok [OF inv1 on1]) (auto simp: sys_lists_def)
  have q': "woken ?s1 ?l (?q1 ?l) ?q1 k = woken s ?W (q ?W) q k" if "k \<noteq> ?l" for k
    using that by (auto simp: woken_def split: tlist.splits)
  have "sinv {} None s' (woken ?s1 ?l (?q1 ?l) ?q1)" using s'(2) sinv_insert [of "woken ?s1 ?l (?q1 ?l) ?q1" ?l "{}" None s'] by (simp add: woken_def)
  then have sinv': "sinv {} None s' (woken s ?W (q ?W) q)"
    by (rule sinv_cong) (use q' in \<open>auto simp: sys_lists_def\<close>)
  have "tl_rel (tls s') ?l []"
    using tl_sys_rel(1) [OF sinvD(1) [OF s'(2)], of ?l] by (simp add: sys_lists_def woken_def)
  then have "threadlist_cleanup ?l (tls s') = Some ()" by (simp add: threadlist_cleanup_def isempty_ok) (simp add: tl_rel_def)
  moreover have "spinlock_release (Lk_wchan w) cur (locked (Lk_wchan w) cur c th ?s0\<lparr>tls := x\<rparr>) = Some ?s1"
    by (subst release_locked [OF run0]) (use sinv_lks(1) [OF inv] in \<open>simp_all add: locked_def\<close>)
  ultimately have "wchan_wakeall w cur s = Some s'"
    using acquire_locked [OF run0, of "Lk_wchan w"] sinv_lks(1) [OF inv] running_cur(1) [OF run] x(1) s'(1)
    by (simp add: wchan_wakeall_def on_tls_def Let_def)
  then show thesis using that sinv' s'(3) by simp
qed

subsection \<open>The idle loop\<close>

lemma sinv_locked_idle:
  assumes inv: "sinv E None s q" and on: "runs_on s cur c" and idle: "c_isidle (allcpus s ! c)" and th: "thr s cur = Some th"
  shows "sinv E (Some c) (locked (Lk_runqueue c) cur c th s) q" (is "sinv _ _ ?s _")
proof -
  have c: "c < length (allcpus s)" "c_curthread (allcpus s ! c) = cur" using on by (auto simp: runs_on_def)
  have "cpu_ok E None s q c" by (rule sinvD(3) [OF inv c(1)])
  then have cur: "t_cpu th = Some c" "t_curspl th = 1" "t_iplhigh_count th = 1" "on_list E s q cur" using idle c(2) th by (auto simp: cpu_ok_def)
  have same: "sys_lists E ?s = sys_lists E s" "runs_on ?s = runs_on s" "on_list E ?s q = on_list E s q" "allcpus ?s = allcpus s"
    by (auto simp: sys_lists_def runs_on_def on_list_def fun_eq_iff)
  have dom: "dom (thr ?s) = dom (thr s)" using th by (auto simp: locked_def)
  have thr': "thr ?s t = (if t = cur then Some (th\<lparr>t_iplhigh_count := 2\<rparr>) else thr s t)" for t using cur(3) by (simp add: locked_def)
  have irq': "irq ?s d = (if d = c then False else irq s d)" for d by (simp add: locked_def)
  have cpu: "cpu_ok E (Some c) ?s q d" if d: "d < length (allcpus s)" for d
  proof (cases "d = c")
    case True
    then show ?thesis unfolding cpu_ok_def same using idle cur c(2) by (simp add: thr' irq')
  next
    case False
    then have ne: "c_curthread (allcpus s ! d) \<noteq> cur" using runs_on_unique [OF inv on, of d] d by (auto simp: runs_on_def)
    show ?thesis by (rule cpu_ok_other [OF sinvD(3) [OF inv d]]) (use False ne in \<open>simp_all add: same thr' irq'\<close>)
  qed
  show ?thesis
    unfolding sinv_def same dom
  proof (intro conjI allI impI ballI)
    fix t tt assume t: "thr ?s t = Some tt"
    then obtain u where u: "thr s t = Some u" "t_context tt = t_context u" "thread_ok (length (allcpus s)) tt = thread_ok (length (allcpus s)) u"
      "t \<noteq> cur \<Longrightarrow> u = tt" using th by (auto simp: thr' split: if_splits)
    show "thread_ok (length (allcpus s)) tt" using u sinvD(5) [OF inv] by simp
    show "\<exists>d. runs_on s t d \<and> \<not> c_isidle (allcpus s ! d)" if "\<not> on_list E s q t" using u sinvD(6) [OF inv] that by blast
    show "resumable (t_context tt)" if "on_list E s q t" using u sinvD(7) [OF inv] that by simp
    show "(\<exists>d. runs_on s t d) \<or> parked tt" if "on_list E s q t" using u sinvD(8) [OF inv, of t u] that on by (cases "t = cur") auto
  next
    fix k t tt assume k: "k \<in> sys_lists E s" "t \<in> set (q k)" "thr ?s t = Some tt"
    show "fits k tt" using sinvD(9) [OF inv k(1,2)] k(3) th by (cases k) (auto simp: thr' split: if_splits)
  qed (use sinvD [OF inv] inv cpu th in \<open>auto simp: locked_def sinv_def\<close>)
qed

lemma poll_ok:
  assumes inv: "sinv E None s q" and res: "res_inv own L X s" and on: "runs_on s cur c" and idle: "c_isidle (allcpus s ! c)" and th: "thr s cur = Some th"
  shows "\<exists>r s'. idle_poll cur s = Some (r, s') \<and> next_ok E X cur c q (locked (Lk_runqueue c) cur c th s) r s'"
proof -
  have run: "running cur c th s" by (rule sinv_cur [OF inv on]) (use th in auto)
  have poll: "idle_poll cur s = switch_next cur (locked (Lk_runqueue c) cur c th s)"
    using running_cur(1) [OF run] acquire_locked [OF run, of "Lk_runqueue c"] sinv_lks(1) [OF inv] by (simp add: idle_poll_def)
  have res': "res_inv own L X (locked (Lk_runqueue c) cur c th s)"
    by (rule same_res_inv [OF res]) (use th in \<open>auto simp: same_res_def locked_def\<close>)
  show ?thesis unfolding poll
    by (rule switch_next_ok [OF sinv_locked_idle [OF inv on idle th] res']) (use on idle in \<open>simp_all add: runs_on_def\<close>)
qed

end
