(* ===== verification/Threads_Fork.thy ===== *)
theory Threads_Fork
  imports Threads_Wake
begin

text \<open>
  The life of a thread: \<open>thread_fork\<close> either leaves a new thread at the end of a run queue, with its
  structure, name, stack and place in the process, or fails and gives back everything it took;
  \<open>thread_exit\<close> leaves the thread among the zombies.  The array of threads of a process holds
  exactly the threads that point to the process.
\<close>

subsection \<open>Threads of a process\<close>

definition proc_inv :: "sched \<Rightarrow> bool" where
  "proc_inv s \<longleftrightarrow> kproc s \<noteq> 0 \<and> p_threads s 0 = None \<and>
     (\<forall>t th. thr s t = Some th \<longrightarrow> t_proc th \<noteq> 0 \<longrightarrow> p_threads s (t_proc th) \<noteq> None) \<and>
     (\<forall>p a. p_threads s p = Some a \<longrightarrow> distinct (arr_list a) \<and>
       set (arr_list a) = Some ` {t. \<exists>th. thr s t = Some th \<and> t_proc th = p})"

lemma proc_invD:
  assumes "proc_inv s"
  shows "kproc s \<noteq> 0" and "p_threads s 0 = None" and "\<And>t th. thr s t = Some th \<Longrightarrow> t_proc th \<noteq> 0 \<Longrightarrow> \<exists>a. p_threads s (t_proc th) = Some a"
    and "\<And>p a. p_threads s p = Some a \<Longrightarrow> distinct (arr_list a)"
    and "\<And>p a. p_threads s p = Some a \<Longrightarrow> set (arr_list a) = Some ` {t. \<exists>th. thr s t = Some th \<and> t_proc th = p}"
  using assms unfolding proc_inv_def by blast+

lemma proc_inv_same:
  assumes inv: "proc_inv s" and same: "kproc s' = kproc s" "p_threads s' = p_threads s"
    and thr: "\<And>t p. p \<noteq> 0 \<Longrightarrow> (\<exists>th. thr s' t = Some th \<and> t_proc th = p) \<longleftrightarrow> (\<exists>th. thr s t = Some th \<and> t_proc th = p)"
  shows "proc_inv s'"
proof -
  have sets: "{t. \<exists>th. thr s' t = Some th \<and> t_proc th = p} = {t. \<exists>th. thr s t = Some th \<and> t_proc th = p}" if "p \<noteq> 0" for p
    using thr [OF that] by blast
  show ?thesis
    unfolding proc_inv_def same
  proof (intro conjI allI impI)
    show "p_threads s (t_proc th) \<noteq> None" if "thr s' t = Some th" "t_proc th \<noteq> 0" for t th
      using thr [OF that(2), of t] that proc_invD(3) [OF inv] by fastforce
    show "set (arr_list a) = Some ` {t. \<exists>th. thr s' t = Some th \<and> t_proc th = p}" if a: "p_threads s p = Some a" for p a
    proof -
      have "p \<noteq> 0" using proc_invD(2) [OF inv] a by auto
      then show ?thesis using proc_invD(5) [OF inv a] sets by simp
    qed
  qed (use proc_invD(1,2,4) [OF inv] in auto)
qed

lemma proc_inv_res: "proc_inv s \<Longrightarrow> same_res s s' \<Longrightarrow> proc_inv s'"
proof (erule proc_inv_same)
  assume same: "same_res s s'"
  then show "kproc s' = kproc s" "p_threads s' = p_threads s" by (simp_all add: same_res_def)
  have m: "map_option (\<lambda>th. (t_name th, t_stack th, t_proc th)) (thr s' t) = map_option (\<lambda>th. (t_name th, t_stack th, t_proc th)) (thr s t)" for t
    using same unfolding same_res_def by blast
  show "(\<exists>th. thr s' t = Some th \<and> t_proc th = p) \<longleftrightarrow> (\<exists>th. thr s t = Some th \<and> t_proc th = p)" for t p
    using m [of t] by (cases "thr s t"; cases "thr s' t") auto
qed

lemma proc_inv_next:
  assumes inv: "proc_inv s" and step: "next_ok E X cur c q s r s'" and zs: "\<And>z th. z \<in> set (q (Zombies c)) \<Longrightarrow> thr s z = Some th \<Longrightarrow> t_proc th = 0"
  shows "proc_inv s'"
proof (cases "q (Runqueue c)")
  case Nil
  then show ?thesis using step proc_inv_res [OF inv] by (simp add: next_ok_def)
next
  case (Cons n ts)
  then have sw: "switched_to n c (set (q (Zombies c))) s s'" using step by (simp add: next_ok_def)
  show ?thesis
  proof (rule proc_inv_same [OF inv])
    show "kproc s' = kproc s" "p_threads s' = p_threads s" using sw by (simp_all add: switched_to_def)
    show "(\<exists>th. thr s' t = Some th \<and> t_proc th = p) \<longleftrightarrow> (\<exists>th. thr s t = Some th \<and> t_proc th = p)" if "p \<noteq> 0" for t p
      using sw zs that by (cases "thr s n") (auto simp: switched_to_def ran_def split: if_splits)
  qed
qed

lemma remthread_find_ok:
  assumes wf: "arr_wf a" and all: "None \<notin> set (arr_list a)" and i: "i \<le> j" "j < ar_num a" "arr_list a ! j = Some t"
    and first: "\<And>k. k < j \<Longrightarrow> arr_list a ! k \<noteq> Some t"
  shows "remthread_find t a i (ar_num a) = Some (Some j)"
  using i
proof (induction "j - i" arbitrary: i)
  case 0
  then show ?case using array_get_list [OF wf] by (subst remthread_find.simps) simp
next
  case (Suc d)
  then have lt: "i < j" "i < ar_num a" by simp_all
  then obtain x where x: "arr_list a ! i = Some x" using all wf nth_mem [of i "arr_list a"] by (cases "arr_list a ! i") auto
  then have "x \<noteq> t" using first [OF lt(1)] by auto
  then show ?case
    using Suc(1) [of "i + 1"] Suc(2) lt x i array_get_list [OF wf lt(2)] by (subst remthread_find.simps) simp
qed

lemma sinv_field:
  assumes inv: "sinv E K s q" and th: "thr s t = Some th" and ok: "thread_ok (length (allcpus s)) th'"
    and same: "t_state th' = t_state th" "t_context th' = t_context th" "t_cpu th' = t_cpu th" "t_curspl th' = t_curspl th" "t_iplhigh_count th' = t_iplhigh_count th"
    and off: "\<not> on_list E s q t"
    and s': "thr s' = (thr s)(t \<mapsto> th')" "irq s' = irq s" "lks s' = lks s" "wc_name s' = wc_name s" "allcpus s' = allcpus s" "tls s' = tls s" "tlbs s' = tlbs s"
  shows "sinv E K s' q"
proof -
  have li0: "sys_lists E s' = sys_lists E s" "runs_on s' = runs_on s" by (simp_all add: sys_lists_def runs_on_def s' fun_eq_iff)
  have li: "sys_lists E s' = sys_lists E s" "runs_on s' = runs_on s" "on_list E s' q = on_list E s q"
    by (simp_all add: li0 on_list_def fun_eq_iff)
  have dom: "dom (thr s') = dom (thr s)" using th s'(1) by auto
  have old: "\<exists>u. thr s x = Some u \<and> t_state xh = t_state u \<and> t_context xh = t_context u \<and> t_cpu xh = t_cpu u \<and>
      t_curspl xh = t_curspl u \<and> t_iplhigh_count xh = t_iplhigh_count u \<and> (x \<noteq> t \<longrightarrow> xh = u)" if "thr s' x = Some xh" for x xh
    using that th same s'(1) by (auto split: if_splits)
  have cpu: "cpu_ok E K s' q d" if d: "d < length (allcpus s)" for d
  proof -
    have "cpu_ok E K s q d" by (rule sinvD(3) [OF inv d])
    then show ?thesis
      unfolding cpu_ok_def li s'(2,5) using th same s'(1) by (auto split: if_splits)
  qed
  show ?thesis
    unfolding sinv_def li dom s'(3,5,6,7)
  proof (intro conjI allI impI ballI)
    fix x xh assume x: "thr s' x = Some xh"
    obtain u where u: "thr s x = Some u" "t_context xh = t_context u" "t_curspl xh = t_curspl u" "t_iplhigh_count xh = t_iplhigh_count u" "x \<noteq> t \<Longrightarrow> xh = u"
      using old [OF x] by blast
    show "thread_ok (length (allcpus s)) xh" using sinvD(5) [OF inv u(1)] ok x s'(1) u(5) by (cases "x = t") auto
    show "\<exists>c. runs_on s x c \<and> \<not> c_isidle (allcpus s ! c)" if "\<not> on_list E s q x" using sinvD(6) [OF inv u(1)] that by blast
    show "resumable (t_context xh)" if "on_list E s q x" using sinvD(7) [OF inv u(1)] that u by simp
    show "(\<exists>c. runs_on s x c) \<or> parked xh" if "on_list E s q x" using sinvD(8) [OF inv u(1)] that u by (auto simp: parked_def)
  next
    fix k x xh assume k: "k \<in> sys_lists E s" "x \<in> set (q k)" "thr s' x = Some xh"
    then have "x \<noteq> t" using off on_listI by blast
    then show "fits k xh" using sinvD(9) [OF inv k(1,2)] k(3) s'(1) by simp
  qed (use sinvD [OF inv] inv cpu th s'(1) in \<open>auto simp: sinv_def\<close>)
qed

subsection \<open>Exit\<close>

definition unproc :: "tid \<Rightarrow> thread \<Rightarrow> tid arr option \<Rightarrow> sched \<Rightarrow> sched" where
  "unproc t th a s = (case a of None \<Rightarrow> s
     | Some a1 \<Rightarrow> s\<lparr>thr := (thr s)(t \<mapsto> th\<lparr>t_proc := 0\<rparr>), p_threads := (p_threads s)(t_proc th \<mapsto> a1)\<rparr>)"

lemma remthread_ok:
  assumes res: "res_inv own L X s" and proc: "proc_inv s" and th: "thr s t = Some th" "t_proc th \<noteq> 0"
  obtains a1 where "proc_remthread t s = Some (unproc t th (Some a1) s)" and "res_inv own L X (unproc t th (Some a1) s)" and "proc_inv (unproc t th (Some a1) s)"
proof -
  let ?p = "t_proc th"
  obtain a where a: "p_threads s ?p = Some a" using proc_invD(3) [OF proc th] by blast
  have wf: "arr_wf a" "arr_owned a L" using res_invD(7) [OF res a] by auto
  have set: "set (arr_list a) = Some ` {t. \<exists>th. thr s t = Some th \<and> t_proc th = ?p}" and dist: "distinct (arr_list a)"
    using proc_invD(4,5) [OF proc a] by auto
  have "Some t \<in> set (arr_list a)" using set th by auto
  then obtain j where j: "j < ar_num a" "arr_list a ! j = Some t" using wf by (auto simp: in_set_conv_nth)
  have first: "arr_list a ! k \<noteq> Some t" if "k < j" for k using that j dist wf nth_eq_iff_index_eq [of "arr_list a" k j] by auto
  have find: "remthread_find t a 0 (array_num a) = Some (Some j)"
    unfolding array_num_def by (rule remthread_find_ok [OF wf(1) _ _ j first]) (use set in auto)
  obtain a1 where a1: "array_remove a j = Some a1" "arr_wf a1" "arr_list a1 = take j (arr_list a) @ drop (Suc j) (arr_list a)"
      "ar_vp a1 = ar_vp a" "ar_max a1 = ar_max a"
    by (rule array_remove_list [OF wf(1) j(1)])
  have parts: "arr_list a = take j (arr_list a) @ Some t # drop (Suc j) (arr_list a)"
    using id_take_nth_drop [of j "arr_list a"] j wf by simp
  have d1: "distinct (take j (arr_list a) @ Some t # drop (Suc j) (arr_list a))" using dist parts by metis
  have s1: "set (take j (arr_list a) @ Some t # drop (Suc j) (arr_list a)) = Some ` {t. \<exists>th. thr s t = Some th \<and> t_proc th = ?p}" using set parts by metis
  have "set (arr_list a1) = Some ` {t. \<exists>th. thr s t = Some th \<and> t_proc th = ?p} - {Some t}" unfolding a1(3) s1 [symmetric] using d1 by auto
  then have list: "distinct (arr_list a1)" "set (arr_list a1) = Some ` {u. u \<noteq> t \<and> (\<exists>uh. thr s u = Some uh \<and> t_proc uh = ?p)}"
    using d1 by (auto simp: a1(3))
  let ?s = "unproc t th (Some a1) s"
  have "proc_remthread t s = Some ?s" using th a find a1(1) by (simp add: proc_remthread_def upd_thr_def put_thr_def unproc_def)
  moreover have "res_inv own L X ?s"
    using res th a a1 wf by (auto simp: res_inv_def unproc_def arr_owned_def split: if_splits)
  moreover have "proc_inv ?s"
    unfolding proc_inv_def
  proof (intro conjI allI impI)
    show "kproc ?s \<noteq> 0" "p_threads ?s 0 = None" using proc_invD(1,2) [OF proc] th(2) by (simp_all add: unproc_def)
    show "p_threads ?s (t_proc uh) \<noteq> None" if "thr ?s u = Some uh" "t_proc uh \<noteq> 0" for u uh
      using that proc_invD(3) [OF proc, of u uh] by (auto simp: unproc_def split: if_splits)
    show "distinct (arr_list b)" if "p_threads ?s p = Some b" for p b using that proc_invD(4) [OF proc] list by (auto simp: unproc_def split: if_splits)
    show "set (arr_list b) = Some ` {u. \<exists>uh. thr ?s u = Some uh \<and> t_proc uh = p}" if b: "p_threads ?s p = Some b" for p b
    proof (cases "p = ?p")
      case True
      then show ?thesis using b list(2) th(2) by (auto simp: unproc_def)
    next
      case False
      then have "p_threads s p = Some b" "p \<noteq> 0" using b proc_invD(2) [OF proc] by (auto simp: unproc_def)
      then show ?thesis using proc_invD(5) [OF proc, of p b] False th by (auto simp: unproc_def)
    qed
  qed
  ultimately show thesis by (rule that)
qed

lemma exit_ok:
  assumes inv: "sinv E None s q" and res: "res_inv own L X s" and proc: "proc_inv s" and on: "runs_on s cur c" and busy: "\<not> c_isidle (allcpus s ! c)"
    and th: "thr s cur = Some th" "t_proc th \<in> {0, kproc s}"
  shows "\<exists>s1 x r s'. thread_exit cur s = Some (r, s') \<and> proc_inv s1 \<and> (\<exists>own. res_inv own L X s1) \<and> runs_on s1 = runs_on s \<and> c_isidle (allcpus s1 ! c) \<and>
    sinv E (Some c) s1 (q(Zombies c := q (Zombies c) @ [cur])) \<and> next_ok E X cur c (q(Zombies c := q (Zombies c) @ [cur])) s1 r s' \<and> thr s1 = (thr s)(cur \<mapsto> x) \<and>
    length (allcpus s1) = length (allcpus s) \<and> wc_name s1 = wc_name s"
proof -
  have c: "c < length (allcpus s)" using on by (simp add: runs_on_def)
  obtain a s0 where s0: "(if t_proc th = kproc s then proc_remthread cur s else Some s) = Some s0" "s0 = unproc cur th a s"
      "res_inv own L X s0" "proc_inv s0" "thr s0 cur = Some (th\<lparr>t_proc := 0\<rparr>)"
  proof (cases "t_proc th = kproc s")
    case True
    then have nz: "t_proc th \<noteq> 0" using proc_invD(1) [OF proc] by simp
    obtain a1 where "proc_remthread cur s = Some (unproc cur th (Some a1) s)" "res_inv own L X (unproc cur th (Some a1) s)" "proc_inv (unproc cur th (Some a1) s)"
      by (rule remthread_ok [OF res proc th(1) nz])
    then show ?thesis using True by (intro that [of "unproc cur th (Some a1) s" "Some a1"]) (simp_all add: unproc_def)
  next
    case False
    then have "t_proc th = 0" using th(2) by simp
    then have "th\<lparr>t_proc := 0\<rparr> = th" by (cases th) simp
    then show ?thesis using False th(1) res proc by (intro that [of s None]) (simp_all add: unproc_def)
  qed
  let ?t0 = "th\<lparr>t_proc := 0\<rparr>"
  have thr0: "thr s0 = (thr s)(cur \<mapsto> ?t0)"
    using s0(5) unfolding s0(2) by (cases a) (simp_all add: unproc_def fun_upd_idem)
  have same: "allcpus s0 = allcpus s" "runs_on s0 = runs_on s" "sys_lists E s0 = sys_lists E s" "wc_name s0 = wc_name s"
      "tls s0 = tls s" "irq s0 = irq s" "lks s0 = lks s" "tlbs s0 = tlbs s" "thr s0 = (thr s)(cur \<mapsto> ?t0)"
    using thr0 unfolding s0(2) by (cases a; simp add: unproc_def runs_on_def sys_lists_def fun_eq_iff)+
  obtain off: "\<not> on_list E s q cur" and spl: "t_curspl th \<in> {0, 1}" "t_iplhigh_count th = t_curspl th"
    by (rule sinv_cur [OF inv on]) (use busy th in auto)
  have ok: "thread_ok (length (allcpus s)) ?t0" using sinvD(5) [OF inv th(1)] by (simp add: thread_ok_def)
  have inv0: "sinv E None s0 q"
    by (rule sinv_field [OF inv th(1) ok _ _ _ _ _ off same(9)]) (simp_all add: same)
  have on0: "runs_on s0 cur c" and busy0: "\<not> c_isidle (allcpus s0 ! c)" using on busy same by simp_all
  have run0: "running cur c ?t0 s0" by (rule sinv_cur [OF inv0 on0]) (use s0(5) in auto)
  let ?t1 = "?t0\<lparr>t_curspl := 1, t_iplhigh_count := 1\<rparr>" and ?s1 = "levelled cur c ?t0 1 s0"
  have hi: "splhigh cur s0 = Some (t_curspl th, ?s1)"
    using splx_levelled [OF run0, of 1] spl by (simp add: splhigh_def IPL_HIGH_def)
  have inv1: "sinv E None ?s1 q" by (rule sinv_levelled [OF inv0 on0 busy0 s0(5)]) simp
  have on1: "runs_on ?s1 cur c" and busy1: "\<not> c_isidle (allcpus ?s1 ! c)" and t1: "thr ?s1 cur = Some ?t1"
    using on0 busy0 by (simp_all add: levelled_def runs_on_def)
  have Z: "Zombies c \<in> sys_lists E ?s1" using in_lists(2) c same by (simp add: levelled_def)
  obtain x where x: "running cur c ?t1 ?s1" "thread_ok (length (allcpus ?s1)) ?t1" "t_cpu ?t1 = Some c"
      "threadlist_addtail (Zombies c) cur (tls ?s1) = Some x" "tl_sys (sys_lists E ?s1) (dom (thr ?s1)) (q(Zombies c := q (Zombies c) @ [cur])) x"
    by (rule queue_cur [OF inv1 on1 busy1 Z]) (use t1 in auto)
  let ?s2 = "left cur c ?t1 S_ZOMBIE (Some ''ZOMBIE'') x ?s1"
  have c1: "c < length (allcpus ?s1)" using c same by (simp add: levelled_def)
  have sw: "thread_switch cur S_ZOMBIE 0 ?s1 = switch_next cur ?s2"
    by (rule switch_zombie_eq [OF x(1) _ _ c1 busy1 x(2) sinv_lks(1) [OF inv1] x(4)]) simp_all
  have fit: "fits (Zombies c) (queued ?t1 S_ZOMBIE (Some ''ZOMBIE''))" using x(3) by (simp add: queued_def)
  have res1: "res_inv own L X ?s1" by (rule same_res_inv [OF s0(3)]) (use s0(5) in \<open>auto simp: same_res_def levelled_def\<close>)
  obtain r s' where r: "switch_next cur ?s2 = Some (r, s')" "next_ok E X cur c (q(Zombies c := q (Zombies c) @ [cur])) ?s2 r s'"
    using switch_away [OF inv1 res1 on1 busy1 t1 Z x(5) fit] by blast
  have "r \<noteq> Same" using r(2) by (auto simp: next_ok_def split: list.splits)
  then have run: "thread_exit cur s = Some (r, s')"
    using th s0(1,5) checkstack_ok [OF s0(5) ok] hi sw r(1) by (auto simp: thread_exit_def)
  have same2: "same_res s0 ?s2" using s0(5) by (auto simp: same_res_def left_def levelled_def)
  have "thr ?s2 = (thr s)(cur \<mapsto> queued ?t1 S_ZOMBIE (Some ''ZOMBIE''))" by (auto simp: fun_eq_iff left_thr same levelled_def)
  moreover have "runs_on ?s2 = runs_on s" unfolding same(2) [symmetric] by (simp add: fun_eq_iff) (simp add: runs_on_def levelled_def)
  moreover have "sinv E (Some c) ?s2 (q(Zombies c := q (Zombies c) @ [cur]))"
    by (rule sinv_left [OF inv1 on1 busy1 t1 Z x(5)]) (use fit in \<open>simp add: queued_def\<close>)
  moreover have "c_isidle (allcpus ?s2 ! c)" by (rule left_idle [OF c1])
  moreover have "length (allcpus ?s2) = length (allcpus s)" "wc_name ?s2 = wc_name s" using same(1,4) by (simp_all add: left_def levelled_def)
  ultimately show ?thesis using run r(2) proc_inv_res [OF s0(4) same2] same_res_inv [OF s0(3) same2] by blast
qed

subsection \<open>Fork\<close>

text \<open>New blocks, and the thread that owns them.\<close>

lemma res_alloc:
  assumes inv: "res_inv own L X s" and new: "L p = None" "heap_inv h (L(p \<mapsto> n)) X"
  shows "res_inv (own(p \<mapsto> ow)) (L(p \<mapsto> n)) X (s\<lparr>heap := h\<rparr>)"
proof -
  have o: "own p = None" using res_invD(2) [OF inv] new(1) by auto
  have keep: "(own(p \<mapsto> ow)) x = Some y" if "own x = Some y" for x y using that o by auto
  have arr: "arr_owned a (L(p \<mapsto> n))" if "arr_owned a L" for a :: "tid arr" using that new(1) by (auto simp: arr_owned_def)
  show ?thesis
    unfolding res_inv_def
  proof (intro conjI allI impI)
    show "dom (own(p \<mapsto> ow)) \<subseteq> dom (L(p \<mapsto> n))" using res_invD(2) [OF inv] by auto
  qed (use new(2) keep arr res_invD(3-) [OF inv] in \<open>auto simp del: fun_upd_apply\<close>)
qed

lemma res_heap: "res_inv own L X s \<Longrightarrow> heap_inv h L X \<Longrightarrow> res_inv own L X (s\<lparr>heap := h\<rparr>)"
  by (auto simp: res_inv_def)

lemma res_strs [simp]: "res_inv own L X (s\<lparr>strs := f\<rparr>) = res_inv own L X s"
  by (simp add: res_inv_def)

lemma res_thr:
  assumes inv: "res_inv own L X s" and own: "own t = Some (Own_thread t)" "own (t_name th) = Some (Own_name t)"
    "t_stack th \<noteq> 0 \<Longrightarrow> own (t_stack th) = Some (Own_stack t)"
  shows "res_inv own L X (s\<lparr>thr := (thr s)(t \<mapsto> th), tls := x\<rparr>)"
  using inv own unfolding res_inv_def by auto

text \<open>A thread under construction: in the table of threads, but nowhere else.\<close>

definition spawned :: "tid \<Rightarrow> thread \<Rightarrow> sched \<Rightarrow> sched" where
  "spawned t nt s = s\<lparr>thr := (thr s)(t \<mapsto> nt), tls := threadlistnode_init t (tls s)\<rparr>"

definition new_thread :: "u32 \<Rightarrow> thread" where
  "new_thread nm = \<lparr>t_name = nm, t_wchan_name = Some ''NEW'', t_state = S_READY, t_stack = 0, t_guard = [], t_badfaultfunc = 0,
     t_context = No_frame, t_cpu = None, t_proc = 0, t_in_interrupt = False, t_curspl = IPL_HIGH, t_iplhigh_count = 1\<rparr>"

lemma spawned_simps [simp]: "thr (spawned t nt s) = (thr s)(t \<mapsto> nt)" "heap (spawned t nt s) = heap s" "p_threads (spawned t nt s) = p_threads s"
  "tls (spawned t nt s) = threadlistnode_init t (tls s)" "allcpus (spawned t nt s) = allcpus s" "irq (spawned t nt s) = irq s" "lks (spawned t nt s) = lks s"
  "spawned t nt s\<lparr>heap := h\<rparr> = spawned t nt (s\<lparr>heap := h\<rparr>)" "spawned t nt s\<lparr>p_threads := P\<rparr> = spawned t nt (s\<lparr>p_threads := P\<rparr>)"
  by (simp_all add: spawned_def)

lemma upd_spawned [simp]: "upd_thr t f (spawned t nt s) = Some (spawned t (f nt) s)"
  by (simp add: upd_thr_def put_thr_def spawned_def)

lemma res_spawned:
  assumes "res_inv own L X s" and "own t = Some (Own_thread t)" "own (t_name nt) = Some (Own_name t)" "t_stack nt \<noteq> 0 \<Longrightarrow> own (t_stack nt) = Some (Own_stack t)"
  shows "res_inv own L X (spawned t nt s)"
  using res_thr [OF assms] by (simp add: spawned_def)

lemma create_ok:
  assumes res: "res_inv own L X s" and len: "length name < 2 ^ 30"
  obtains (fail) h where "thread_create name s = Some (0, s\<lparr>heap := h\<rparr>)" and "heap_inv h L X"
  | (new) t nm h f where "thread_create name s = Some (t, spawned t (new_thread nm) (s\<lparr>heap := h, strs := f\<rparr>))" and "t \<noteq> 0" and "thr s t = None"
      and "res_inv (own(t \<mapsto> Own_thread t, nm \<mapsto> Own_name t)) (L(t \<mapsto> 56, nm \<mapsto> length name + 1)) X (s\<lparr>heap := h, strs := f\<rparr>)" and "L t = None" and "L nm = None" and "t \<noteq> nm"
proof -
  have len': "length name + 1 < 2 ^ 31" using len by simp
  note heap = res_invD(1) [OF res]
  show thesis
  proof (rule kh.kmalloc_cases [OF heap, of 56], goal_cases)
    case (2 h)
    then show ?case using fail by (simp add: thread_create_def do_kmalloc_def sizeof_thread_def)
  next
    case (3 t h1)
    show ?case
    proof (rule kh.kmalloc_cases [OF 3(4) len'], goal_cases)
      case (1 h2)
      obtain h3 where h3: "kfree t h2 = Some h3" "heap_inv h3 ((L(t \<mapsto> 56))(t := None)) X"
        using kh.kfree_live [OF 1(2), of t 56] by auto
      then have "heap_inv h3 L X" using 3(3) by (simp add: fun_upd_idem)
      then show ?case using fail 1 3 h3 by (simp add: thread_create_def do_kmalloc_def sizeof_thread_def kstrdup_def do_kfree_def)
    next
      case (2 nm h2)
      have ne: "t \<noteq> nm" "L nm = None" using 2(3) by (auto split: if_splits)
      have "res_inv (own(t \<mapsto> Own_thread t)) (L(t \<mapsto> 56)) X (s\<lparr>heap := h1\<rparr>)" by (rule res_alloc [OF res 3(3,4)])
      from res_alloc [OF this 2(3,4)]
      have "res_inv (own(t \<mapsto> Own_thread t, nm \<mapsto> Own_name t)) (L(t \<mapsto> 56, nm \<mapsto> length name + 1)) X (s\<lparr>heap := h2\<rparr>)" by simp
      moreover have "thr s t = None" using res_invD(2,3) [OF res] 3(3) by (cases "thr s t") force+
      moreover have "thread_create name s = Some (t, spawned t (new_thread nm) (s\<lparr>heap := h2, strs := (strs s)(nm := name)\<rparr>))"
        using 3 2(1,2) by (simp add: thread_create_def do_kmalloc_def sizeof_thread_def kstrdup_def put_thr_def spawned_def new_thread_def)
      ultimately show ?case using new [of t nm "(strs s)(nm := name)" h2] 3(2,3) ne by simp
    qed
  qed simp
qed

lemma sinv_spawn:
  assumes inv: "sinv E None s q" and t: "thr s t = None" "t \<noteq> 0" and d: "d < length (allcpus s)"
    and sys: "tl_sys (sys_lists E s) (insert t (dom (thr s))) (q(Runqueue d := q (Runqueue d) @ [t])) (tls s')"
    and nt: "thread_ok (length (allcpus s)) nt" "parked nt" "resumable (t_context nt)" "fits (Runqueue d) nt"
    and s': "thr s' = (thr s)(t \<mapsto> nt)" "irq s' = irq s" "lks s' = lks s" "wc_name s' = wc_name s" "tlbs s' = tlbs s" "same_cpus s s'"
  shows "sinv E None s' (q(Runqueue d := q (Runqueue d) @ [t]))" (is "sinv _ _ _ ?q")
proof -
  have len: "length (allcpus s') = length (allcpus s)" using s'(6) by (simp add: same_cpus_def)
  have li: "sys_lists E s' = sys_lists E s" using s'(4) len by (simp add: sys_lists_def)
  have runs: "runs_on s' = runs_on s" using s'(6) by (auto simp: runs_on_def same_cpus_def fun_eq_iff)
  have idle: "c_isidle (allcpus s' ! c) = c_isidle (allcpus s ! c)" if "c < length (allcpus s)" for c using s'(6) that by (auto simp: same_cpus_def)
  have not_t: "\<not> on_list E s q t" using tl_sys_rel(2) [OF sinvD(1) [OF inv]] t(1) by (auto simp: on_list_def)
  have mem: "x \<in> set (?q k) \<longleftrightarrow> x \<in> set (q k) \<or> k = Runqueue d \<and> x = t" for x k by auto
  have on: "on_list E s' ?q x \<longleftrightarrow> x = t \<or> on_list E s q x" for x
    unfolding on_list_def li mem using in_lists(1) [OF d, of E] by blast
  have dom: "dom (thr s') = insert t (dom (thr s))" using s'(1) by simp
  have thr': "thr s' x = thr s x" if "x \<noteq> t" for x using that s'(1) by simp
  have cpu: "cpu_ok E None s' ?q c" if c: "c < length (allcpus s)" for c
  proof -
    have ok: "cpu_ok E None s q c" by (rule sinvD(3) [OF inv c])
    then have ne: "c_curthread (allcpus s ! c) \<noteq> t" using t(1) by (auto simp: cpu_ok_def)
    show ?thesis by (rule cpu_ok_other [OF ok]) (use ne c thr' on s' in \<open>auto simp: same_cpus_def\<close>)
  qed
  show ?thesis
    unfolding sinv_def li dom len runs s'(3,5)
  proof (intro conjI allI impI ballI)
    fix x xh assume x: "thr s' x = Some xh"
    show "thread_ok (length (allcpus s)) xh" using x thr' [of x] nt(1) s'(1) sinvD(5) [OF inv, of x xh] by (cases "x = t") auto
    show "\<exists>c. runs_on s x c \<and> \<not> c_isidle (allcpus s' ! c)" if "\<not> on_list E s' ?q x"
      using sinvD(6) [OF inv, of x xh] x that on [of x] thr' [of x] idle by (auto simp: runs_on_def)
    show "resumable (t_context xh)" if "on_list E s' ?q x"
      using sinvD(7) [OF inv, of x xh] x that on [of x] thr' [of x] nt(3) s'(1) by (cases "x = t") auto
    show "(\<exists>c. runs_on s x c) \<or> parked xh" if "on_list E s' ?q x"
      using sinvD(8) [OF inv, of x xh] x that on [of x] thr' [of x] nt(2) s'(1) by (cases "x = t") auto
  next
    fix k x xh assume k: "k \<in> sys_lists E s" "x \<in> set (?q k)" "thr s' x = Some xh"
    show "fits k xh"
    proof (cases "x = t")
      case True
      then have "k = Runqueue d" using k not_t on_listI [OF k(1), of t q] by (auto split: if_splits)
      then show ?thesis using True k(3) s'(1) nt(4) by simp
    next
      case False
      then show ?thesis using sinvD(9) [OF inv k(1), of x xh] k(2,3) thr' by (auto split: if_splits)
    qed
  qed (use sys sinvD [OF inv] inv cpu t s'(1) in \<open>auto simp: sinv_def\<close>)
qed

text \<open>The array of the process takes the thread, or is left alone.\<close>

lemma addthread_ok:
  assumes res: "res_inv own L X s" and proc: "proc_inv s" and a: "p_threads s p = Some a" and num: "card (dom (thr s)) < 2 ^ 27" "finite (dom (thr s))"
    and t: "own t = Some (Own_thread t)" "own (t_name nt) = Some (Own_name t)" "t_stack nt \<noteq> 0 \<Longrightarrow> own (t_stack nt) = Some (Own_stack t)" "t_proc nt = 0" "thr s t = None"
  obtains (fail) h where "proc_addthread p t (spawned t nt s) = Some (Inl ENOMEM, spawned t nt (s\<lparr>heap := h\<rparr>))" and "heap_inv h L X"
  | (added) a' h own' L' where "proc_addthread p t (spawned t nt s) = Some (Inr (), spawned t (nt\<lparr>t_proc := p\<rparr>) (s\<lparr>heap := h, p_threads := (p_threads s)(p \<mapsto> a')\<rparr>))"
      and "res_inv own' L' X (spawned t (nt\<lparr>t_proc := p\<rparr>) (s\<lparr>heap := h, p_threads := (p_threads s)(p \<mapsto> a')\<rparr>))" and "arr_list a' = arr_list a @ [Some t]"
proof -
  have wf: "arr_wf a" "arr_owned a L" using res_invD(7) [OF res a] by auto
  have "set (arr_list a) \<subseteq> Some ` dom (thr s)" using proc_invD(5) [OF proc a] by auto
  then have "card (set (arr_list a)) \<le> card (dom (thr s))" using num(2) card_mono [of "Some ` dom (thr s)"] by (metis card_image finite_imageI inj_Some)
  then have "ar_num a < 2 ^ 27" using num(1) distinct_card [OF proc_invD(4) [OF proc a]] wf by simp
  from res_invD(1) [OF res] wf this show thesis
  proof (cases rule: kernel_heap.array_add_cases [OF kh.kernel_heap_axioms, consumes 4, where x = t])
    case (1 h)
    then show ?thesis using fail a t(4) by (simp add: proc_addthread_def fun_upd_idem_iff Let_def) (simp add: fun_upd_idem)
  next
    case (2 a' h L')
    let ?own = "own(ar_vp a := None, ar_vp a' \<mapsto> Own_array p)"
    have max: "ar_max a' \<noteq> 0" using 2(3,5) by (auto simp: arr_wf_def arr_list_def)
    then have vp: "L' (ar_vp a') \<noteq> None" using 2(4) by (simp add: arr_owned_def)
    have old: "own (ar_vp a) = None \<or> own (ar_vp a) = Some (Own_array p)"
    proof (cases "ar_max a = 0")
      case True
      then have "ar_vp a = 0" using wf(1) by (simp add: arr_wf_def)
      moreover have "L 0 = None" using kh.block_shape [OF res_invD(1) [OF res], of 0] by (cases "L 0") auto
      ultimately show ?thesis using res_invD(2) [OF res] by auto
    qed (use res_invD(8) [OF res a] in simp)
    have new: "own (ar_vp a') = None \<or> own (ar_vp a') = Some (Own_array p)" using 2(8) old res_invD(2) [OF res] by auto
    have keep: "?own x = own x \<and> L' x = L x" if "own x \<noteq> None" "own x \<noteq> Some (Own_array p)" for x
      using that old new 2(7) [of x] by auto
    let ?s = "spawned t (nt\<lparr>t_proc := p\<rparr>) (s\<lparr>heap := h, p_threads := (p_threads s)(p \<mapsto> a')\<rparr>)"
    have "res_inv ?own L' X ?s"
      unfolding res_inv_def
    proof (intro conjI allI impI)
      show "heap_inv (heap ?s) L' X" using 2(2) by simp
      show "dom ?own \<subseteq> dom L'" using vp keep res_invD(2) [OF res] 2(7) by (auto split: if_splits) (metis domI option.distinct(1) subsetD domD)
      fix u uh assume "thr ?s u = Some uh"
      then have u: "own u = Some (Own_thread u)" "own (t_name uh) = Some (Own_name u)" "t_stack uh \<noteq> 0 \<Longrightarrow> own (t_stack uh) = Some (Own_stack u)"
        using t res_invD(3,4,5) [OF res] by (auto split: if_splits)
      then show "?own u = Some (Own_thread u)" "?own (t_name uh) = Some (Own_name u)" "t_stack uh \<noteq> 0 \<Longrightarrow> ?own (t_stack uh) = Some (Own_stack u)"
        using keep by auto
    next
      fix w assume "wc_name ?s w \<noteq> None"
      then have "own w = Some (Own_wchan w)" using res_invD(6) [OF res] by (simp add: spawned_def)
      then show "?own w = Some (Own_wchan w)" using keep by auto
    next
      fix p' b assume b: "p_threads ?s p' = Some b"
      show "arr_wf b" using b 2(3) res_invD(7) [OF res] by (auto split: if_splits)
      show "arr_owned b L'" using b 2(4) res_invD(7,8) [OF res, of p' b] keep by (auto simp: arr_owned_def split: if_splits)
      show "?own (ar_vp b) = Some (Own_array p')" if "ar_max b \<noteq> 0"
        using b that res_invD(8) [OF res, of p' b] keep [of "ar_vp b"] by (cases "p' = p") (auto simp del: fun_upd_apply simp: fun_upd_same fun_upd_other)
    qed
    then show ?thesis using added 2(1,5) a t(4) by (simp add: proc_addthread_def Let_def)
  qed
qed

lemma proc_inv_heap [simp]: "proc_inv (s\<lparr>heap := h\<rparr>) = proc_inv s" "proc_inv (s\<lparr>strs := f\<rparr>) = proc_inv s" "proc_inv (s\<lparr>tls := x\<rparr>) = proc_inv s"
  by (simp_all add: proc_inv_def)

lemma proc_inv_added:
  assumes proc: "proc_inv s" and a: "p_threads s p = Some a" "arr_list a' = arr_list a @ [Some t]" and t: "thr s t = None" "t_proc nt = p"
    and s': "kproc s' = kproc s" "p_threads s' = (p_threads s)(p \<mapsto> a')" "thr s' = (thr s)(t \<mapsto> nt)"
  shows "proc_inv s'"
  unfolding proc_inv_def
proof (intro conjI allI impI)
  have p: "p \<noteq> 0" using proc_invD(2) [OF proc] a(1) by auto
  show "kproc s' \<noteq> 0" "p_threads s' 0 = None" using proc_invD(1,2) [OF proc] p s' by simp_all
  show "p_threads s' (t_proc uh) \<noteq> None" if "thr s' u = Some uh" "t_proc uh \<noteq> 0" for u uh
    using that proc_invD(3) [OF proc, of u uh] s' t by (auto split: if_splits)
  show "distinct (arr_list b)" if "p_threads s' p' = Some b" for p' b
    using that proc_invD(4,5) [OF proc, of p' b] proc_invD(4,5) [OF proc a(1)] a(2) t(1) s'(2) by (auto split: if_splits)
  have sets: "{u. \<exists>uh. thr s' u = Some uh \<and> t_proc uh = p'} = (if p' = p then insert t {u. \<exists>uh. thr s u = Some uh \<and> t_proc uh = p} else {u. \<exists>uh. thr s u = Some uh \<and> t_proc uh = p'})" for p'
    using t by (auto simp: s'(3))
  show "set (arr_list b) = Some ` {u. \<exists>uh. thr s' u = Some uh \<and> t_proc uh = p'}" if "p_threads s' p' = Some b" for p' b
    unfolding sets using that proc_invD(5) [OF proc, of p' b] proc_invD(5) [OF proc a(1)] a(2) s'(2) by (cases "p' = p") simp_all
qed

text \<open>A fork that fails leaves the threads, the lists and the memory as they were.\<close>

lemma fork_undo:
  assumes inv: "sinv E None s q" and res: "res_inv own L X (spawned t nt s)" and proc: "proc_inv s" and t: "thr s t = None" "t \<noteq> cur" "card (dom (thr s)) < 2 ^ 27"
    and nt: "t_state nt = S_READY" "t_proc nt = 0" "t_badfaultfunc nt = 0"
  obtains s' where "thread_destroy cur t (spawned t nt s) = Some s'" and "sinv E None s' q" and "res_inv (without t nt own) (without t nt L) X s'"
    and "proc_inv s'" and "\<exists>h x. s' = s\<lparr>heap := h, tls := x\<rparr>"
proof -
  have card: "card (insert t (dom (thr s))) < 2 ^ 32" using card_insert_le_m1 [of "card (dom (thr s)) + 1" "dom (thr s)" t] t(3) by simp
  have sys: "tl_sys (sys_lists E s) (insert t (dom (thr s))) q (threadlistnode_init t (tls s))"
    by (rule sys_node_init [OF sinvD(1) [OF inv] _ card]) (use t in auto)
  have off: "t \<notin> set (q l)" if "l \<in> sys_lists E s" for l using tl_sys_rel(2) [OF sinvD(1) [OF inv] that] t(1) by auto
  have idle: "thread_idle (tls (spawned t nt s)) t" using tl_sys_idle [OF sys _ off] by simp
  obtain h where h: "thread_destroy cur t (spawned t nt s) = Some (destroyed t h (spawned t nt s))"
      "res_inv (without t nt own) (without t nt L) X (destroyed t h (spawned t nt s))"
    by (rule destroy_ok [OF res _ t(2) _ _ _ idle, of nt]) (use nt in simp_all)
  let ?x = "(threadlistnode_init t (tls s))\<lparr>tnodes := (tnodes (threadlistnode_init t (tls s)))(Listnode t := None)\<rparr>"
  have eq: "destroyed t h (spawned t nt s) = s\<lparr>heap := h, tls := ?x\<rparr>"
    using t(1) by (simp add: destroyed_def spawned_def fun_upd_idem)
  have "insert t (dom (thr s)) - {t} = dom (thr s)" using t(1) by auto
  then have sys': "tl_sys (sys_lists E s) (dom (thr s)) q ?x" using sys_node_free [OF sys off] by simp
  have "sinv E None (s\<lparr>heap := h, tls := ?x\<rparr>) q"
    by (rule sinv_lists [OF inv]) (use sys' sinvD(4,9) [OF inv] in \<open>auto simp: same_cpus_def\<close>)
  then show thesis using h proc unfolding eq by (intro that [of "s\<lparr>heap := h, tls := ?x\<rparr>"]) auto
qed

lemma without_fresh: "m t = None \<Longrightarrow> m nm = None \<Longrightarrow> t_stack th = 0 \<Longrightarrow> t_name th = nm \<Longrightarrow> without t th (m(t \<mapsto> x, nm \<mapsto> y)) = m"
  "m t = None \<Longrightarrow> m nm = None \<Longrightarrow> m st = None \<Longrightarrow> t_stack th = st \<Longrightarrow> st \<noteq> 0 \<Longrightarrow> t_name th = nm \<Longrightarrow> without t th (m(t \<mapsto> x, nm \<mapsto> y, st \<mapsto> z)) = m"
  by (auto simp: without_def fun_eq_iff)

text \<open>The new thread as it is put on the run queue.\<close>

definition forked_thread :: "u32 \<Rightarrow> u32 \<Rightarrow> cpuid \<Rightarrow> u32 \<Rightarrow> switchframe \<Rightarrow> thread" where
  "forked_thread nm st c p fr = (new_thread nm)\<lparr>t_stack := st, t_guard := replicate 4 THREAD_STACK_MAGIC, t_cpu := Some c, t_proc := p,
     t_iplhigh_count := 2, t_context := fr\<rparr>"

lemma fork_queue:
  assumes inv: "sinv E None s q" and on: "runs_on s cur c" and t: "thr s t = None" "t \<noteq> 0" "card (dom (thr s)) < 2 ^ 27" and fr: "resumable fr"
    and nt: "nt = forked_thread nm st c p fr"
  obtains s' where "thread_make_runnable cur t False (spawned t nt s) = Some s'" and "sinv E None s' (q(Runqueue c := q (Runqueue c) @ [t]))"
    and "quiet (spawned t nt s) s'"
proof -
  have c: "c < length (allcpus s)" using on by (simp add: runs_on_def)
  obtain th where th: "running cur c th s" "thr s cur = Some th" by (rule sinv_cur [OF inv on])
  have run: "running cur c th (spawned t nt s)" using th t(1) by (auto simp: running_def)
  have card: "card (insert t (dom (thr s))) < 2 ^ 32" using card_insert_le_m1 [of "card (dom (thr s)) + 1" "dom (thr s)" t] t(3) by simp
  have sys: "tl_sys (sys_lists E s) (insert t (dom (thr s))) q (threadlistnode_init t (tls s))"
    by (rule sys_node_init [OF sinvD(1) [OF inv] _ card]) (use t in auto)
  have off: "t \<notin> set (q l)" if "l \<in> sys_lists E s" for l using tl_sys_rel(2) [OF sinvD(1) [OF inv] that] t(1) by auto
  obtain x where x: "threadlist_addtail (Runqueue c) t (threadlistnode_init t (tls s)) = Some x"
      "tl_sys (sys_lists E s) (insert t (dom (thr s))) (q(Runqueue c := q (Runqueue c) @ [t])) x"
    by (rule sys_addtail [OF sys in_lists(1) [OF c] _ off]) simp_all
  let ?s = "made_runnable c x (spawned t nt s)"
  have mk: "thread_make_runnable cur t False (spawned t nt s) = Some ?s"
    by (rule make_runnable_eq [OF run]) (use nt c x(1) sinv_lks(1) [OF inv] in \<open>auto simp: forked_thread_def\<close>)
  have "sinv E None ?s (q(Runqueue c := q (Runqueue c) @ [t]))"
  proof (rule sinv_spawn [where nt = nt, OF inv t(1,2) c])
    show "same_cpus s ?s" by (simp add: made_runnable_def same_cpus_def)
  qed (use x(2) nt c fr in \<open>simp_all add: spawned_def forked_thread_def new_thread_def thread_ok_def parked_def IPL_HIGH_def\<close>)
  then show thesis using mk by (intro that) auto
qed

lemma fork_ok:
  assumes inv: "sinv E None s q" and res: "res_inv own L X s" and proc: "proc_inv s" and on: "runs_on s cur c" and th: "thr s cur = Some th"
    and p: "p = (if proc0 = 0 then t_proc th else proc0)" "p_threads s p = Some a" and num: "card (dom (thr s)) < 2 ^ 27" and len: "length name < 2 ^ 30"
  obtains (fail) s' where "thread_fork cur name proc0 e d1 d2 s = Some (Inl ENOMEM, s')" and "sinv E None s' q" and "res_inv own L X s'" and "proc_inv s'"
      and "s' = s\<lparr>heap := heap s', strs := strs s', tls := tls s'\<rparr>"
  | (forked) t nm st s' own' L' where "thread_fork cur name proc0 e d1 d2 s = Some (Inr (), s')" and "thr s t = None" and "t \<noteq> 0"
      and "thr s' = (thr s)(t \<mapsto> forked_thread nm st c p (Startup e d1 d2))" and "sinv E None s' (q(Runqueue c := q (Runqueue c) @ [t]))"
      and "res_inv own' L' X s'" and "proc_inv s'" and "same_cpus s s'" and "wc_name s' = wc_name s" and "kproc s' = kproc s" and "lbolt s' = lbolt s"
proof -
  have fin: "finite (dom (thr s))" using sinvD(1) [OF inv] by (simp add: tl_sys_def tq_all_def)
  have cpu: "t_cpu th = Some c" by (rule sinv_cur_cpu [OF inv on th])
  show thesis
    using res len
  proof (cases rule: create_ok)
    case (fail h)
    have "sinv E None (s\<lparr>heap := h\<rparr>) q" by (rule sinv_lists [OF inv]) (use sinvD(1,4,9) [OF inv] in \<open>auto simp: same_cpus_def\<close>)
    then show ?thesis
      using fail(1) res_heap [OF res fail(2)] proc by (intro that(1) [of "s\<lparr>heap := h\<rparr>"]) (simp_all add: thread_fork_def)
  next
    case (new t nm h f)
    let ?s1 = "s\<lparr>heap := h, strs := f\<rparr>" and ?own = "own(t \<mapsto> Own_thread t, nm \<mapsto> Own_name t)" and ?L = "L(t \<mapsto> 56, nm \<mapsto> length name + 1)"
    have inv1: "sinv E None ?s1 q" by (rule sinv_lists [OF inv]) (use sinvD(1,4,9) [OF inv] in \<open>auto simp: same_cpus_def\<close>)
    have o: "own t = None" "own nm = None" using res_invD(2) [OF res] new(5,6) by auto
    have cur: "t \<noteq> cur" using new(3) th by auto
    have "heap_inv h ?L X" using res_invD(1) [OF new(4)] by simp
    then show ?thesis
    proof (cases rule: kh.kmalloc_cases [consumes 1, of _ _ _ 4096, case_names small none some])
      case (none h2)
      let ?s2 = "s\<lparr>strs := f, heap := h2\<rparr>"
      have e: "?s1\<lparr>heap := h2\<rparr> = ?s2" by simp
      have "res_inv ?own ?L X ?s2" using res_heap [OF new(4) none(2)] unfolding e .
      then have res2: "res_inv ?own ?L X (spawned t (new_thread nm) ?s2)" by (rule res_spawned) (use new(7) in \<open>simp_all add: new_thread_def\<close>)
      have inv2: "sinv E None ?s2 q" by (rule sinv_lists [OF inv]) (use sinvD(1,4,9) [OF inv] in \<open>auto simp: same_cpus_def\<close>)
      obtain s' where s': "thread_destroy cur t (spawned t (new_thread nm) ?s2) = Some s'" "sinv E None s' q" "res_inv (without t (new_thread nm) ?own) (without t (new_thread nm) ?L) X s'"
          "proc_inv s'" "\<exists>h x. s' = ?s2\<lparr>heap := h, tls := x\<rparr>"
        by (rule fork_undo [OF inv2 res2 _ _ cur]) (use proc new(3) num in \<open>simp_all add: new_thread_def\<close>)
      have "res_inv own L X s'" using s'(3) without_fresh(1) [OF o] without_fresh(1) [OF new(5,6)] by (simp add: new_thread_def)
      moreover have "new_thread nm\<lparr>t_stack := 0\<rparr> = new_thread nm" by (simp add: new_thread_def)
      moreover from s'(5) obtain h3 x where s3: "s' = ?s2\<lparr>heap := h3, tls := x\<rparr>" by blast
      have "s' = s\<lparr>heap := heap s', strs := strs s', tls := tls s'\<rparr>" unfolding s3 by simp
      ultimately show ?thesis
        using that(1) [of s'] s'(1,2,4) new(1,2) none(1) by (simp add: thread_fork_def do_kmalloc_def STACK_SIZE_def)
    next
      case (some st h2)
      let ?s2 = "s\<lparr>strs := f, heap := h2\<rparr>" and ?own2 = "?own(st \<mapsto> Own_stack t)" and ?L2 = "?L(st \<mapsto> 4096)"
      let ?nt = "(new_thread nm)\<lparr>t_stack := st, t_guard := replicate 4 THREAD_STACK_MAGIC, t_cpu := Some c\<rparr>"
      have ne: "L st = None" "st \<noteq> t" "st \<noteq> nm" using some(3) by (auto split: if_splits)
      then have o2: "own st = None" using res_invD(2) [OF res] by auto
      have e: "?s1\<lparr>heap := h2\<rparr> = ?s2" by simp
      have res2: "res_inv ?own2 ?L2 X ?s2" using res_alloc [OF new(4) some(3,4)] unfolding e .
      have own2: "?own2 t = Some (Own_thread t)" "?own2 (t_name ?nt) = Some (Own_name t)" "?own2 (t_stack ?nt) = Some (Own_stack t)" "t_proc ?nt = 0"
        using ne new(7) by (simp_all add: new_thread_def)
      have start: "thread_fork cur name proc0 e d1 d2 s = do {
          (result, s6) \<leftarrow> proc_addthread p t (spawned t ?nt ?s2);
          case result of
            Inl e \<Rightarrow> do { s7 \<leftarrow> thread_destroy cur t s6; Some (Inl e, s7) }
          | Inr _ \<Rightarrow> do {
              s7 \<leftarrow> upd_thr t (\<lambda>th. th\<lparr>t_iplhigh_count := t_iplhigh_count th + 1\<rparr>) s6;
              s8 \<leftarrow> upd_thr t (\<lambda>th. th\<lparr>t_context := Startup e d1 d2\<rparr>) s7;
              s9 \<leftarrow> thread_make_runnable cur t False s8;
              Some (Inr (), s9) } }"
        using new(1,2) some(1,2) th cur cpu p(1)
        by (simp add: thread_fork_def do_kmalloc_def STACK_SIZE_def thread_checkstack_init_def Let_def numeral_eq_Suc)
      have proc2: "proc_inv ?s2" "p_threads ?s2 p = Some a" "card (dom (thr ?s2)) < 2 ^ 27" "finite (dom (thr ?s2))" "thr ?s2 t = None"
        using proc p(2) new(3) num fin by simp_all
      show ?thesis
      proof (rule addthread_ok [where nt = ?nt, OF res2 proc2(1-4) own2 proc2(5)], goal_cases)
        case (1 h3)
        note fail = 1
        let ?s3 = "?s2\<lparr>heap := h3\<rparr>"
        have res3: "res_inv ?own2 ?L2 X (spawned t ?nt ?s3)" by (rule res_spawned [OF res_heap [OF res2 fail(2)] own2(1-3)])
        have inv3: "sinv E None ?s3 q" by (rule sinv_lists [OF inv]) (use sinvD(1,4,9) [OF inv] in \<open>auto simp: same_cpus_def\<close>)
        obtain s' where s': "thread_destroy cur t (spawned t ?nt ?s3) = Some s'" "sinv E None s' q" "res_inv (without t ?nt ?own2) (without t ?nt ?L2) X s'"
            "proc_inv s'" "\<exists>h x. s' = ?s3\<lparr>heap := h, tls := x\<rparr>"
          by (rule fork_undo [OF inv3 res3 _ _ cur]) (use proc new(3) num in \<open>simp_all add: new_thread_def\<close>)
        have "res_inv own L X s'"
          using s'(3) without_fresh(2) [OF o o2, of ?nt] without_fresh(2) [OF new(5,6) ne(1), of ?nt] some(2) by (simp add: new_thread_def)
        moreover from s'(5) obtain h4 x where s3: "s' = ?s3\<lparr>heap := h4, tls := x\<rparr>" by blast
        have "s' = s\<lparr>heap := heap s', strs := strs s', tls := tls s'\<rparr>" unfolding s3 by simp
        ultimately show ?thesis using that(1) [of s'] s'(1,2,4) start fail(1) by simp
      next
        case (2 a' h3 own' L')
        note added = 2
        let ?s3 = "?s2\<lparr>heap := h3, p_threads := (p_threads ?s2)(p \<mapsto> a')\<rparr>" and ?ft = "forked_thread nm st c p (Startup e d1 d2)"
        have inv3: "sinv E None ?s3 q" by (rule sinv_lists [OF inv]) (use sinvD(1,4,9) [OF inv] in \<open>auto simp: same_cpus_def\<close>)
        have on3: "runs_on ?s3 cur c" using on by (simp add: runs_on_def)
        have fr: "resumable (Startup e d1 d2)" by simp
        obtain s' where s': "thread_make_runnable cur t False (spawned t ?ft ?s3) = Some s'" "sinv E None s' (q(Runqueue c := q (Runqueue c) @ [t]))"
            "quiet (spawned t ?ft ?s3) s'"
          by (rule fork_queue [OF inv3 on3 _ new(2) _ fr refl]) (use new(3) num in simp_all)
        have ft: "?nt\<lparr>t_proc := p, t_iplhigh_count := t_iplhigh_count (?nt\<lparr>t_proc := p\<rparr>) + 1, t_context := Startup e d1 d2\<rparr> = ?ft"
          by (simp add: forked_thread_def new_thread_def)
        have run: "thread_fork cur name proc0 e d1 d2 s = Some (Inr (), s')" unfolding start using added(1) s'(1) ft by simp
        have "same_res (spawned t (?nt\<lparr>t_proc := p\<rparr>) ?s3) (spawned t ?ft ?s3)"
          by (auto simp: same_res_def spawned_def forked_thread_def new_thread_def)
        then have res4: "res_inv own' L' X s'" using same_res_inv [OF added(2)] quiet_res [OF s'(3)] same_res_inv by blast
        have thr': "thr s' = (thr s)(t \<mapsto> ?ft)" "same_cpus s s'" "wc_name s' = wc_name s" "kproc s' = kproc s" "lbolt s' = lbolt s" "p_threads s' = (p_threads s)(p \<mapsto> a')"
          using s'(3) by (simp_all add: quiet_def same_cpus_def spawned_def)
        have "proc_inv s'" by (rule proc_inv_added [OF proc p(2) added(3) new(3) _ thr'(4,6,1)]) (simp add: forked_thread_def)
        then show ?thesis using that(2) [OF run new(3,2) thr'(1) s'(2) res4 _ thr'(2-5)] by blast
      qed
    qed simp
  qed
qed

end
