(* ===== verification/Threads_Migrate.thy ===== *)
theory Threads_Migrate
  imports Threads_Wake
begin

text \<open>
  Migration, \<open>thread_consider_migration\<close>: a processor with more than its share of the ready threads
  gives some of them to the others.  No thread is lost or duplicated, the current thread stays, and
  no other queue grows beyond the share.
\<close>

subsection \<open>Counting\<close>

lemma tl_count_ok: "sinv E K s q \<Longrightarrow> l \<in> sys_lists E s \<Longrightarrow> tl_count (tls s) l = of_nat (length (q l)) \<and> length (q l) < 2 ^ 32"
proof -
  assume inv: "sinv E K s q" and l: "l \<in> sys_lists E s"
  have rel: "tl_rel (tls s) l (q l)" by (rule tl_sys_rel(1) [OF sinvD(1) [OF inv] l])
  then show ?thesis by (simp add: tl_rel_def)
qed

lemma count_ok:
  assumes inv: "sinv E None s q" and on: "runs_on s cur me" and n: "i \<le> n" "n \<le> length (allcpus s)"
  shows "count_runqueues cur i n my tot s = Some (if i \<le> me \<and> me < n then of_nat (length (q (Runqueue me))) else my,
    tot + of_nat (\<Sum>j \<leftarrow> [i..<n]. length (q (Runqueue j))), s)"
  using n
proof (induction "n - i" arbitrary: i my tot)
  case 0
  then have "i = n" by simp
  then show ?case by (auto simp: count_runqueues.simps)
next
  case (Suc d)
  then have i: "i < n" "i < length (allcpus s)" by simp_all
  obtain th where run: "running cur me th s" by (rule sinv_cur [OF inv on])
  note free = sinv_lks(1) [OF inv]
  have acq: "spinlock_acquire (Lk_runqueue i) cur s = Some (locked (Lk_runqueue i) cur me th s)" by (rule acquire_locked [OF run free])
  have rel: "spinlock_release (Lk_runqueue i) cur (locked (Lk_runqueue i) cur me th s) = Some s"
    using release_locked [OF run free refl refl refl] by simp
  have cnt: "tl_count (tls s) (Runqueue i) = of_nat (length (q (Runqueue i)))" using tl_count_ok [OF inv in_lists(1) [OF i(2)]] by simp
  have up: "[i..<n] = i # [Suc i..<n]" using i(1) by (simp add: upt_conv_Cons)
  show ?case
    using Suc(1) [of "i + 1"] Suc(2,4) i cnt
    by (subst count_runqueues.simps) (auto simp: running_cur(1) [OF run] acq rel up Let_def not_less_eq_eq)
qed

subsection \<open>Taking the victims\<close>

lemma take_victims_ok:
  assumes "tl_sys L A q (tls s)" and "Runqueue me \<in> L" and "Victims me \<in> L" and "k \<le> length (q (Runqueue me))"
  obtains x where "take_victims k me s = Some (s\<lparr>tls := x\<rparr>)"
    and "tl_sys L A (q(Runqueue me := take (length (q (Runqueue me)) - k) (q (Runqueue me)),
      Victims me := drop (length (q (Runqueue me)) - k) (q (Runqueue me)) @ q (Victims me))) x"
  using assms
proof (induction k arbitrary: q s thesis)
  case 0
  have "q(Runqueue me := q (Runqueue me), Victims me := q (Victims me)) = q" by simp
  then show ?case using 0(1) [of "tls s"] 0(2) by simp
next
  case (Suc k)
  let ?R = "Runqueue me" and ?V = "Victims me"
  obtain us t where us: "q ?R = us @ [t]" using Suc(6) by (cases "q ?R" rule: rev_cases) auto
  obtain x where x: "threadlist_remtail ?R (tls s) = Some (Some t, x)" "tl_sys L A (q(?R := us)) x"
    by (rule sys_remtail [OF Suc(3,4)]) (use us in auto)
  have t: "t \<in> A" using tl_sys_rel(2) [OF Suc(3,4), of t] us by simp
  have off: "t \<notin> set ((q(?R := us)) l)" if "l \<in> L" for l
    using that tl_sys_apart [OF Suc(3,4) that, of t] tl_sys_distinct [OF Suc(3,4)] us by (cases "l = ?R") auto
  obtain y where y: "threadlist_addhead ?V t x = Some y" "tl_sys L A ((q(?R := us))(?V := t # (q(?R := us)) ?V)) y"
    by (rule sys_addhead [OF x(2) Suc(5) t off])
  let ?q = "(q(?R := us))(?V := t # (q(?R := us)) ?V)"
  have k: "k \<le> length (?q ?R)" using Suc(6) us by simp
  have tls: "tls (s\<lparr>tls := y\<rparr>) = y" by simp
  have y': "tl_sys L A ?q (tls (s\<lparr>tls := y\<rparr>))" unfolding tls by (rule y(2))
  obtain z where z: "take_victims k me (s\<lparr>tls := y\<rparr>) = Some (s\<lparr>tls := y\<rparr>\<lparr>tls := z\<rparr>)"
      "tl_sys L A (?q(?R := take (length (?q ?R) - k) (?q ?R), ?V := drop (length (?q ?R) - k) (?q ?R) @ ?q ?V)) z"
    by (rule Suc(1) [OF _ y' Suc(4,5) k])
  have eq: "?q(?R := take (length (?q ?R) - k) (?q ?R), ?V := drop (length (?q ?R) - k) (?q ?R) @ ?q ?V) =
      q(?R := take (length (q ?R) - Suc k) (q ?R), ?V := drop (length (q ?R) - Suc k) (q ?R) @ q ?V)"
    using us k by (auto simp: fun_eq_iff)
  have run: "take_victims (Suc k) me s = Some (s\<lparr>tls := z\<rparr>)" using x(1) y(1) z(1) by (simp add: tls_rem_def on_tls_def)
  show ?case by (rule Suc(2) [OF run]) (use z(2) in \<open>unfold eq\<close>)
qed

subsection \<open>Sending them\<close>

lemma sinv_sent:
  assumes inv: "sinv E None s q" and V: "Victims me \<in> sys_lists E s" "q (Victims me) = t # ts" and i: "i < length (allcpus s)"
    and t: "thr s t = Some tt" "\<And>c. \<not> runs_on s t c"
    and sys: "tl_sys (sys_lists E s) (dom (thr s)) (q(Victims me := ts, Runqueue i := q (Runqueue i) @ [t])) (tls s')"
    and s': "thr s' = (thr s)(t \<mapsto> tt\<lparr>t_cpu := Some i\<rparr>)" "irq s' = irq s" "lks s' = lks s" "wc_name s' = wc_name s" "tlbs s' = tlbs s" "same_cpus s s'"
  shows "sinv E None s' (q(Victims me := ts, Runqueue i := q (Runqueue i) @ [t]))" (is "sinv _ _ _ ?q")
proof -
  have len: "length (allcpus s') = length (allcpus s)" using s'(6) by (simp add: same_cpus_def)
  have li: "sys_lists E s' = sys_lists E s" using s'(4) len by (simp add: sys_lists_def)
  have runs: "runs_on s' = runs_on s" using s'(6) by (auto simp: runs_on_def same_cpus_def fun_eq_iff)
  have idle: "c_isidle (allcpus s' ! c) = c_isidle (allcpus s ! c)" if "c < length (allcpus s)" for c using s'(6) that by (auto simp: same_cpus_def)
  note R = in_lists(1) [OF i, of E]
  have on: "on_list E s' ?q x \<longleftrightarrow> on_list E s q x" for x
    using on_list_move [where q = q and u = x, OF V(1) R _ V(2)] by (simp add: on_list_def li)
  have on_t: "on_list E s q t" by (rule on_listI [OF V(1)]) (use V(2) in simp)
  have pk: "parked tt" using sinvD(8) [OF inv t(1) on_t] t(2) by blast
  have ok: "thread_ok (length (allcpus s)) (tt\<lparr>t_cpu := Some i\<rparr>)" using sinvD(5) [OF inv t(1)] i by (simp add: thread_ok_def)
  have st: "t_state tt \<in> {S_READY, S_SLEEP}" using sinvD(9) [OF inv V(1) _ t(1)] V(2) by simp
  have dom: "dom (thr s') = dom (thr s)" using s'(1) t(1) by auto
  have thr': "thr s' x = thr s x" if "x \<noteq> t" for x using that s'(1) by simp
  have cpu: "cpu_ok E None s' ?q c" if c: "c < length (allcpus s)" for c
  proof -
    have ne: "c_curthread (allcpus s ! c) \<noteq> t" using t(2) [of c] c by (auto simp: runs_on_def)
    show ?thesis by (rule cpu_ok_other [OF sinvD(3) [OF inv c]]) (use ne c thr' on s' in \<open>auto simp: same_cpus_def\<close>)
  qed
  show ?thesis
    unfolding sinv_def li dom len runs s'(3,5)
  proof (intro conjI allI impI ballI)
    fix x xh assume x: "thr s' x = Some xh"
    show "thread_ok (length (allcpus s)) xh" using x thr' [of x] ok s'(1) sinvD(5) [OF inv, of x xh] by (cases "x = t") auto
    show "\<exists>c. runs_on s x c \<and> \<not> c_isidle (allcpus s' ! c)" if "\<not> on_list E s' ?q x"
      using sinvD(6) [OF inv, of x xh] x that on [of x] on_t thr' [of x] idle by (cases "x = t") (auto simp: runs_on_def)
    show "resumable (t_context xh)" if "on_list E s' ?q x"
      using sinvD(7) [OF inv, of x xh] sinvD(7) [OF inv t(1) on_t] x that on [of x] thr' [of x] s'(1) by (cases "x = t") auto
    show "(\<exists>c. runs_on s x c) \<or> parked xh" if "on_list E s' ?q x"
      using sinvD(8) [OF inv, of x xh] x that on [of x] thr' [of x] pk s'(1) by (cases "x = t") (auto simp: parked_def)
  next
    fix k x xh assume k: "k \<in> sys_lists E s" "x \<in> set (?q k)" "thr s' x = Some xh"
    show "fits k xh"
    proof (cases "x = t")
      case True
      have "k = Runqueue i"
      proof (rule ccontr)
        assume "k \<noteq> Runqueue i"
        then show False using k True off_lists [OF sinvD(1) [OF inv] V k(1)] by (auto split: if_splits)
      qed
      then show ?thesis using True k(3) s'(1) st by auto
    next
      case False
      then show ?thesis using sinvD(9) [OF inv k(1), of x xh] k(2,3) thr' V(2) by (auto split: if_splits)
    qed
  qed (use sys sinvD [OF inv] inv cpu t s'(1) in \<open>auto simp: sinv_def\<close>)
qed

text \<open>What migration leaves alone: everything but the run queues and the processors of the threads that move.\<close>

definition moved :: "tid \<Rightarrow> sched \<Rightarrow> sched \<Rightarrow> bool" where
  "moved cur s s' \<longleftrightarrow> same_res s s' \<and> same_cpus s s' \<and> irq s' = irq s \<and> lks s' = lks s \<and> tlbs s' = tlbs s \<and> lbolt s' = lbolt s \<and>
     strs s' = strs s \<and> thr s' cur = thr s cur \<and> (\<forall>t th. thr s t = Some th \<longrightarrow> (\<exists>d. thr s' t = Some (th\<lparr>t_cpu := d\<rparr>)))"

lemma t_cpu_self [simp]: "\<exists>d. th = th\<lparr>t_cpu := d\<rparr>"
  by (rule exI [of _ "t_cpu th"]) simp

lemma moved_refl [simp]: "moved cur s s"
  by (simp add: moved_def same_cpus_def)

lemma moved_trans:
  assumes "moved cur s s1" and "moved cur s1 s2"
  shows "moved cur s s2"
proof -
  have "\<exists>d. thr s2 t = Some (th\<lparr>t_cpu := d\<rparr>)" if t: "thr s t = Some th" for t th
  proof -
    obtain d where "thr s1 t = Some (th\<lparr>t_cpu := d\<rparr>)" using assms(1) t by (auto simp: moved_def)
    then obtain d' where "thr s2 t = Some ((th\<lparr>t_cpu := d\<rparr>)\<lparr>t_cpu := d'\<rparr>)" using assms(2) by (auto simp only: moved_def)
    then show ?thesis by auto
  qed
  then show ?thesis using assms by (auto simp: moved_def same_cpus_def intro: same_res_trans)
qed

lemma moved_runs: "moved cur s s' \<Longrightarrow> runs_on s' = runs_on s" "moved cur s s' \<Longrightarrow> sys_lists E s' = sys_lists E s"
  by (auto simp: moved_def same_cpus_def runs_on_def sys_lists_def same_res_def fun_eq_iff)

text \<open>The lists before and after: the same threads in the queue of processor \<open>i\<close> and among the victims together, and a queue no longer than the share unless it was before.\<close>

definition shared :: "nat set \<Rightarrow> cpuid \<Rightarrow> nat \<Rightarrow> (tlist \<Rightarrow> tid list) \<Rightarrow> (tlist \<Rightarrow> tid list) \<Rightarrow> bool" where
  "shared I me n q q' \<longleftrightarrow> (\<forall>l. l \<noteq> Victims me \<longrightarrow> l \<notin> Runqueue ` I \<longrightarrow> q' l = q l) \<and>
     set (q' (Victims me)) \<union> (\<Union>i \<in> I. set (q' (Runqueue i))) = set (q (Victims me)) \<union> (\<Union>i \<in> I. set (q (Runqueue i))) \<and>
     set (q' (Victims me)) \<subseteq> set (q (Victims me)) \<and>
     (\<forall>i \<in> I. length (q' (Runqueue i)) \<le> max (length (q (Runqueue i))) n)"

lemma shared_refl [simp]: "shared I me n q q"
  by (auto simp: shared_def)

lemma shared_trans: "shared I me n q q1 \<Longrightarrow> shared I me n q1 q2 \<Longrightarrow> shared I me n q q2"
  unfolding shared_def by (intro conjI ballI allI impI) (force simp: max_def split: if_splits)+

lemma shared_mono:
  assumes sh: "shared I me n q q'" and sub: "I \<subseteq> J"
  shows "shared J me n q q'"
proof -
  have keep: "q' (Runqueue i) = q (Runqueue i)" if "i \<notin> I" for i using sh that by (auto simp: shared_def)
  have J: "J = I \<union> (J - I)" using sub by blast
  have "(\<Union>i \<in> J - I. set (q' (Runqueue i))) = (\<Union>i \<in> J - I. set (q (Runqueue i)))" using keep by auto
  moreover have "(\<Union>i \<in> J. set (f (Runqueue i))) = (\<Union>i \<in> I. set (f (Runqueue i))) \<union> (\<Union>i \<in> J - I. set (f (Runqueue i)))" for f :: "tlist \<Rightarrow> tid list"
    using sub by auto
  ultimately have "set (q' (Victims me)) \<union> (\<Union>i \<in> J. set (q' (Runqueue i))) = set (q (Victims me)) \<union> (\<Union>i \<in> J. set (q (Runqueue i)))"
    using sh unfolding shared_def by (metis Un_assoc)
  moreover have "length (q' (Runqueue i)) \<le> max (length (q (Runqueue i))) n" if "i \<in> J" for i
    using sh keep [of i] by (cases "i \<in> I") (auto simp: shared_def)
  moreover have "q' l = q l" if "l \<noteq> Victims me" "l \<notin> Runqueue ` J" for l using sh sub that unfolding shared_def by blast
  ultimately show ?thesis using sh by (simp add: shared_def)
qed

lemma locked_tls: "(locked lk cur c th s)\<lparr>tls := x\<rparr> = locked lk cur c th (s\<lparr>tls := x\<rparr>)"
  by (simp add: locked_def)

lemma locked_thr: "t \<noteq> cur \<Longrightarrow> put_thr t tt (locked lk cur c th s) = locked lk cur c th (s\<lparr>thr := (thr s)(t \<mapsto> tt)\<rparr>)"
  by (simp add: locked_def put_thr_def fun_upd_twist)

lemma locked_posted: "posted d code (locked lk cur c th s) = locked lk cur c th (posted d code s)"
  by (simp add: locked_def posted_def)

lemma sinv_requeued:
  assumes inv: "sinv E None s q" and V: "l \<in> sys_lists E s" "q l = t # ts" and sys: "tl_sys (sys_lists E s) (dom (thr s)) (q(l := ts @ [t])) y"
  shows "sinv E None (s\<lparr>tls := y\<rparr>) (q(l := ts @ [t]))"
proof (rule sinv_lists [OF inv])
  have set: "set ((q(l := ts @ [t])) k) = set (q k)" for k using V(2) by auto
  show "on_list E s (q(l := ts @ [t])) u = on_list E s q u" for u unfolding on_list_def set ..
  show "fits k th" if "k \<in> sys_lists E s" "u \<in> set ((q(l := ts @ [t])) k)" "thr s u = Some th" for k u th
    using that sinvD(9) [OF inv] unfolding set by blast
qed (use sys sinvD(4) [OF inv] in \<open>auto simp: same_cpus_def\<close>)

lemma send_ok:
  assumes "sinv E None s q" and "runs_on s cur me" and "thr s cur = Some th" and "Victims me \<in> sys_lists E s" and "i < length (allcpus s)"
    and "k \<le> length (q (Victims me))"
  obtains k' s' q' where "send_victims cur me share i k (locked (Lk_runqueue i) cur me th s) = Some (k', locked (Lk_runqueue i) cur me th s')"
    and "sinv E None s' q'" and "moved cur s s'" and "shared {i} me (unat share) q q'" and "k' \<le> length (q' (Victims me))"
  using assms
proof (induction k arbitrary: s q thesis)
  case 0
  then show ?case by (intro 0(1) [of 0 s q]) simp_all
next
  case (Suc k)
  let ?V = "Victims me" and ?R = "Runqueue i" and ?lk = "locked (Lk_runqueue i) cur me th"
  note inv = Suc(3) and sys = sinvD(1) [OF Suc(3)] and R = in_lists(1) [OF Suc(7), of E]
  obtain t ts where V: "q ?V = t # ts" using Suc(8) by (cases "q ?V") auto
  have cnt: "tl_count (tls s) ?R = of_nat (length (q ?R))" "length (q ?R) < 2 ^ 32" using tl_count_ok [OF inv R] by simp_all
  show ?case
  proof (cases "tl_count (tls s) ?R < share")
    case False
    then show ?thesis using Suc(3,8) by (intro Suc(2) [of "Suc k" s q]) simp_all
  next
    case True
    then have room: "length (q ?R) < unat share" using cnt by (simp add: word_less_nat_alt unat_of_nat_u32)
    have run: "running cur me th s" by (rule sinv_cur [OF inv Suc(4)]) (use Suc(5) in auto)
    obtain x where x: "threadlist_remhead ?V (tls s) = Some (Some t, x)" "tl_sys (sys_lists E s) (dom (thr s)) (q(?V := ts)) x"
      by (rule sys_remhead [OF sys Suc(6)]) (use V in auto)
    obtain tt where tt: "thr s t = Some tt" "t_cpu tt = Some me" "t_state tt \<in> {S_READY, S_SLEEP}" using sinv_on [OF inv Suc(6), of t] V by auto
    have t: "t \<in> dom (thr s)" using tt by auto
    note off = off_lists [OF sys Suc(6) V]
    show ?thesis
    proof (cases "t = cur")
      case True
      obtain y where y: "threadlist_addtail ?V t x = Some y" "tl_sys (sys_lists E s) (dom (thr s)) ((q(?V := ts))(?V := (q(?V := ts)) ?V @ [t])) y"
        by (rule sys_addtail [OF x(2) Suc(6) t off])
      let ?s = "s\<lparr>tls := y\<rparr>" and ?q = "q(?V := ts @ [t])"
      have inv1: "sinv E None ?s ?q" by (rule sinv_requeued [OF inv Suc(6) V]) (use y(2) in simp)
      have mv: "moved cur s ?s" by (simp add: moved_def same_res_def same_cpus_def)
      have pre: "runs_on ?s cur me" "thr ?s cur = Some th" "?V \<in> sys_lists E ?s" "i < length (allcpus ?s)" "k \<le> length (?q ?V)"
        using Suc(4-8) V moved_runs [OF mv]  by simp_all
      obtain k' s' q' where s': "send_victims cur me share i k (?lk ?s) = Some (k', ?lk s')" "sinv E None s' q'" "moved cur ?s s'"
          "shared {i} me (unat share) ?q q'" "k' \<le> length (q' ?V)"
        by (rule Suc(1) [OF _ inv1 pre])
      have "shared {i} me (unat share) q ?q" using V by (auto simp: shared_def)
      moreover have "send_victims cur me share i (Suc k) (?lk s) = Some (k', ?lk s')"
        using \<open>tl_count (tls s) ?R < share\<close> x(1) True y(1) s'(1) by (simp add: tls_rem_def on_tls_def locked_tls)
      ultimately show ?thesis using Suc(2) [OF _ s'(2)] moved_trans [OF mv s'(3)] shared_trans s'(4,5) by blast
    next
      case False
      obtain z where z: "threadlist_addtail ?R t x = Some z" "tl_sys (sys_lists E s) (dom (thr s)) ((q(?V := ts))(?R := (q(?V := ts)) ?R @ [t])) z"
        by (rule sys_addtail [OF x(2) R t off])
      let ?tt = "tt\<lparr>t_cpu := Some i\<rparr>"
      let ?s1 = "s\<lparr>thr := (thr s)(t \<mapsto> ?tt)\<rparr>" and ?q = "q(?V := ts, ?R := q ?R @ [t])"
      let ?s = "made_runnable i z ?s1"
      have not_on: "\<not> runs_on s t d" for d using sinv_cur_cpu [OF inv _ tt(1), of d] tt(2) Suc(4) False by (auto simp: runs_on_def)
      have inv1: "sinv E None ?s ?q"
        by (rule sinv_sent [OF inv Suc(6) V Suc(7) tt(1) not_on]) (use z(2) in \<open>auto simp: made_runnable_def same_cpus_def\<close>)
      have mv: "moved cur s ?s"
        using tt False by (auto simp: moved_def same_res_def made_runnable_def same_cpus_def)
      have run1: "running cur me (th\<lparr>t_iplhigh_count := t_iplhigh_count th + 1\<rparr>) (?lk (?s1\<lparr>tls := z\<rparr>))"
        using run False by (auto simp: running_def locked_def)
      have ipi: "ipi_send cur i IPI_UNIDLE (?lk (?s1\<lparr>tls := z\<rparr>)) = Some (?lk (posted i IPI_UNIDLE (?s1\<lparr>tls := z\<rparr>)))"
        unfolding locked_posted [symmetric]
        by (rule ipi_send_eq [OF run1]) (use Suc(7) sinv_lks(1) [OF inv] in \<open>simp_all add: locked_def IPI_UNIDLE_def\<close>)
      have pre: "runs_on ?s cur me" "thr ?s cur = Some th" "?V \<in> sys_lists E ?s" "i < length (allcpus ?s)" "k \<le> length (?q ?V)"
        using Suc(4-8) V moved_runs [OF mv] False by simp_all
      obtain k' s' q' where s': "send_victims cur me share i k (?lk ?s) = Some (k', ?lk s')" "sinv E None s' q'" "moved cur ?s s'"
          "shared {i} me (unat share) ?q q'" "k' \<le> length (q' ?V)"
        by (rule Suc(1) [OF _ inv1 pre])
      have sh: "shared {i} me (unat share) q ?q" using V room by (auto simp: shared_def)
      have "thr (?lk (s\<lparr>tls := x\<rparr>)) t = Some tt" using tt(1) False by (simp add: locked_def)
      then have "send_victims cur me share i (Suc k) (?lk s) = send_victims cur me share i k (?lk ?s)"
        using \<open>tl_count (tls s) ?R < share\<close> x(1) False z(1) ipi Suc(7)
        by (simp add: tls_rem_def on_tls_def locked_tls upd_thr_def locked_thr made_runnable_def)
      then show ?thesis using Suc(2) [OF _ s'(2)] s'(1,5) moved_trans [OF mv s'(3)] shared_trans [OF sh s'(4)] by simp
    qed
  qed
qed

lemma spread_ok:
  assumes "sinv E None s q" and "runs_on s cur me" and "thr s cur = Some th" and "Victims me \<in> sys_lists E s" and "n \<le> length (allcpus s)"
    and "k \<le> length (q (Victims me))"
  obtains s' q' where "spread_victims cur me share i n k s = Some s'"
    and "sinv E None s' q'" and "moved cur s s'" and "shared ({..< n} - {me}) me (unat share) q q'"
  using assms
proof (induction "n - i" arbitrary: i k s q thesis)
  case 0
  then show ?case by (intro 0(2) [of s q]) (simp_all add: spread_victims.simps)
next
  case (Suc d)
  let ?V = "Victims me" and ?I = "{..< n} - {me}"
  have i: "i < n" "i < length (allcpus s)" and d: "d = n - (i + 1)" using Suc(2,8) by simp_all
  show ?case
  proof (cases "0 < k \<and> i \<noteq> me")
    case False
    show ?thesis
    proof (cases "k = 0")
      case True
      then show ?thesis using Suc(4) by (intro Suc(3) [of s q]) (simp_all add: spread_victims.simps)
    next
      case nz: False
      then have "i = me" using False by simp
      then have eq: "spread_victims cur me share i n k s = spread_victims cur me share (i + 1) n k s"
        using nz i by (subst spread_victims.simps) simp
      show ?thesis by (rule Suc(1) [OF d _ Suc(4-9)]) (use Suc(3) eq in simp)
    qed
  next
    case True
    note inv = Suc(4)
    have run: "running cur me th s" by (rule sinv_cur [OF inv Suc(5)]) (use Suc(6) in auto)
    obtain k' s1 q1 where s1: "send_victims cur me share i k (locked (Lk_runqueue i) cur me th s) = Some (k', locked (Lk_runqueue i) cur me th s1)"
        "sinv E None s1 q1" "moved cur s s1" "shared {i} me (unat share) q q1" "k' \<le> length (q1 ?V)"
      by (rule send_ok [OF inv Suc(5,6,7) i(2) Suc(9)])
    have pre: "runs_on s1 cur me" "thr s1 cur = Some th" "?V \<in> sys_lists E s1" "n \<le> length (allcpus s1)"
      using Suc(5-8) moved_runs [OF s1(3)] s1(3) by (auto simp: moved_def same_cpus_def)
    have run1: "running cur me th s1" by (rule sinv_cur [OF s1(2) pre(1)]) (use pre(2) in auto)
    have rel: "spinlock_release (Lk_runqueue i) cur (locked (Lk_runqueue i) cur me th s1) = Some s1"
      using release_locked [OF run1 sinv_lks(1) [OF s1(2)] refl refl refl] by simp
    obtain s' q' where s': "spread_victims cur me share (i + 1) n k' s1 = Some s'" "sinv E None s' q'" "moved cur s1 s'" "shared ?I me (unat share) q1 q'"
      by (rule Suc(1) [OF d _ s1(2) pre s1(5)])
    have "spread_victims cur me share i n k s = Some s'"
      using True i acquire_locked [OF run sinv_lks(1) [OF inv], of "Lk_runqueue i"] s1(1) rel s'(1) by (subst spread_victims.simps) simp
    moreover have "shared ?I me (unat share) q q1" by (rule shared_mono [OF s1(4)]) (use i True in auto)
    ultimately show ?thesis using Suc(3) [OF _ s'(2)] moved_trans [OF s1(3) s'(3)] shared_trans s'(4) by blast
  qed
qed

subsection \<open>The whole operation\<close>

definition one_share :: "nat \<Rightarrow> (tlist \<Rightarrow> tid list) \<Rightarrow> u32" where
  "one_share n q = (of_nat (\<Sum>j \<leftarrow> [0..< n]. length (q (Runqueue j))) + of_nat n - 1) div of_nat n"

text \<open>The victims are the last threads of the queue of processor \<open>me\<close>.\<close>

lemma victims_ok:
  assumes inv: "sinv {} None s q" and on: "runs_on s cur me" and k: "k \<le> length (q (Runqueue me))"
  obtains x where "(do { s2 \<leftarrow> spinlock_acquire (Lk_runqueue me) cur (s\<lparr>tls := threadlist_init (Victims me) (tls s)\<rparr>);
       s3 \<leftarrow> take_victims k me s2; spinlock_release (Lk_runqueue me) cur s3 }) = Some (s\<lparr>tls := x\<rparr>)"
    and "sinv {Victims me} None (s\<lparr>tls := x\<rparr>) (q(Runqueue me := take (length (q (Runqueue me)) - k) (q (Runqueue me)),
      Victims me := drop (length (q (Runqueue me)) - k) (q (Runqueue me))))"
proof -
  let ?R = "Runqueue me" and ?V = "Victims me" and ?m = "length (q (Runqueue me)) - k"
  let ?s0 = "s\<lparr>tls := threadlist_init ?V (tls s)\<rparr>" and ?q = "q(?R := take ?m (q ?R), ?V := drop ?m (q ?R))"
  have me: "me < length (allcpus s)" using on by (simp add: runs_on_def)
  have new: "?V \<notin> sys_lists {} s" by (auto simp: sys_lists_def)
  obtain th where run: "running cur me th s" by (rule sinv_cur [OF inv on])
  have run0: "running cur me th ?s0" using run by (simp add: running_def)
  have inv0: "sinv {?V} None ?s0 (q(?V := []))" by (rule sinv_add_list [OF inv new])
  have L: "?R \<in> sys_lists {?V} ?s0" "?V \<in> sys_lists {?V} ?s0" using me by (auto simp: sys_lists_def)
  let ?lk = "locked (Lk_runqueue me) cur me th ?s0"
  have sys: "tl_sys (sys_lists {?V} ?s0) (dom (thr ?s0)) (q(?V := [])) (tls ?lk)" using sinvD(1) [OF inv0] by simp
  have k': "k \<le> length ((q(?V := [])) ?R)" using k by simp
  obtain x where x: "take_victims k me ?lk = Some (?lk\<lparr>tls := x\<rparr>)"
      "tl_sys (sys_lists {?V} ?s0) (dom (thr ?s0)) ((q(?V := []))(?R := take (length ((q(?V := [])) ?R) - k) ((q(?V := [])) ?R),
        ?V := drop (length ((q(?V := [])) ?R) - k) ((q(?V := [])) ?R) @ (q(?V := [])) ?V)) x"
    by (rule take_victims_ok [OF sys L k'])
  have q: "(q(?V := []))(?R := take (length ((q(?V := [])) ?R) - k) ((q(?V := [])) ?R),
      ?V := drop (length ((q(?V := [])) ?R) - k) ((q(?V := [])) ?R) @ (q(?V := [])) ?V) = ?q" by (auto simp: fun_eq_iff)
  have split: "set (q ?R) = set (take ?m (q ?R)) \<union> set (drop ?m (q ?R))" by (metis append_take_drop_id set_append)
  have mem: "t \<in> set (?q l) \<longleftrightarrow> (if l = ?R then t \<in> set (take ?m (q ?R)) else if l = ?V then t \<in> set (drop ?m (q ?R)) else t \<in> set (q l))" for t l by simp
  have "sinv {?V} None (s\<lparr>tls := x\<rparr>) ?q"
  proof (rule sinv_lists [OF inv0])
    show "on_list {?V} ?s0 ?q t = on_list {?V} ?s0 (q(?V := [])) t" for t
    proof
      assume "on_list {?V} ?s0 ?q t"
      then obtain l where l: "l \<in> sys_lists {?V} ?s0" "t \<in> set (?q l)" by (auto simp only: on_list_def)
      show "on_list {?V} ?s0 (q(?V := [])) t"
        by (rule on_listI [of "if l = ?V then ?R else l"]) (use l L(1) split in \<open>auto split: if_splits dest: in_set_takeD in_set_dropD\<close>)
    next
      assume "on_list {?V} ?s0 (q(?V := [])) t"
      then obtain l where l: "l \<in> sys_lists {?V} ?s0" "t \<in> set ((q(?V := [])) l)" by (auto simp only: on_list_def)
      show "on_list {?V} ?s0 ?q t"
        by (rule on_listI [of "if l = ?R \<and> t \<in> set (drop ?m (q ?R)) then ?V else l"]) (use l L(2) split in \<open>auto split: if_splits\<close>)
    qed
    show "fits l th" if "l \<in> sys_lists {?V} ?s0" "t \<in> set (?q l)" "thr ?s0 t = Some th" for l t th
      using sinvD(9) [OF inv0 that(1) _ that(3)] sinvD(9) [OF inv0 L(1) _ that(3)] that(2) by (auto split: if_splits dest: in_set_takeD in_set_dropD)
  qed (use x(2) [unfolded q] sinvD(4) [OF inv] in \<open>auto simp: same_cpus_def\<close>)
  moreover have "spinlock_release (Lk_runqueue me) cur (?lk\<lparr>tls := x\<rparr>) = Some (s\<lparr>tls := x\<rparr>)"
    by (subst release_locked [OF run0]) (use sinv_lks(1) [OF inv] in \<open>simp_all add: locked_def\<close>)
  ultimately show thesis
    using that x(1) acquire_locked [OF run0, of "Lk_runqueue me"] sinv_lks(1) [OF inv] by simp
qed

text \<open>The victims that nobody takes go back.\<close>

lemma return_ok:
  assumes inv: "sinv {Victims me} None s q" and on: "runs_on s cur me"
  obtains x where "(if \<not> threadlist_isempty (Victims me) (tls s) then do {
      s6 \<leftarrow> spinlock_acquire (Lk_runqueue me) cur s;
      s7 \<leftarrow> on_tls (move_threads threadlist_remhead threadlist_addtail (Victims me) (Runqueue me)) s6;
      spinlock_release (Lk_runqueue me) cur s7 } else Some s) = Some (s\<lparr>tls := x\<rparr>)"
    and "sinv {} None (s\<lparr>tls := x\<rparr>) (q(Victims me := [], Runqueue me := q (Runqueue me) @ q (Victims me)))"
    and "threadlist_isempty (Victims me) x" and "threadlist_cleanup (Victims me) x = Some ()"
proof -
  let ?R = "Runqueue me" and ?V = "Victims me" and ?q = "q(Victims me := [], Runqueue me := q (Runqueue me) @ q (Victims me))"
  have me: "me < length (allcpus s)" using on by (simp add: runs_on_def)
  have L: "?V \<in> sys_lists {?V} s" "?R \<in> sys_lists {?V} s" using me by (auto simp: sys_lists_def)
  obtain th where run: "running cur me th s" by (rule sinv_cur [OF inv on])
  have fin: "sinv {} None (s\<lparr>tls := x\<rparr>) ?q \<and> threadlist_isempty ?V x \<and> threadlist_cleanup ?V x = Some ()" if x: "sinv {?V} None (s\<lparr>tls := x\<rparr>) ?q" for x
  proof -
    have "sinv {} None (s\<lparr>tls := x\<rparr>) ?q" using x sinv_insert [of ?q ?V "{}" None "s\<lparr>tls := x\<rparr>"] by simp
    moreover have "tl_rel x ?V []" using tl_sys_rel(1) [OF sinvD(1) [OF x], of ?V] by (simp add: sys_lists_def)
    ultimately show ?thesis by (simp add: isempty_ok threadlist_cleanup_def) (simp add: tl_rel_def)
  qed
  show thesis
  proof (cases "q ?V")
    case Nil
    then have "q = ?q" by (simp add: fun_eq_iff)
    then have "sinv {?V} None (s\<lparr>tls := tls s\<rparr>) ?q" using inv by simp
    moreover have "threadlist_isempty ?V (tls s)" using isempty_ok [OF tl_sys_rel(1) [OF sinvD(1) [OF inv] L(1)]] Nil by simp
    ultimately show ?thesis using fin [of "tls s"] by (intro that [of "tls s"]) auto
  next
    case (Cons t ts)
    obtain x where x: "move_threads threadlist_remhead threadlist_addtail ?V ?R (tls s) = Some x" "sinv {?V} None (s\<lparr>tls := x\<rparr>) ?q"
      by (rule sinv_moved [OF inv L]) (use sinvD(9) [OF inv L(1)] in auto)
    have "\<not> threadlist_isempty ?V (tls s)" using isempty_ok [OF tl_sys_rel(1) [OF sinvD(1) [OF inv] L(1)]] Cons by simp
    moreover have "spinlock_release (Lk_runqueue me) cur ((locked (Lk_runqueue me) cur me th s)\<lparr>tls := x\<rparr>) = Some (s\<lparr>tls := x\<rparr>)"
      by (subst release_locked [OF run]) (use sinv_lks(1) [OF inv] in \<open>simp_all add: locked_def\<close>)
    ultimately show ?thesis
      using fin [OF x(2)] x(1) acquire_locked [OF run, of "Lk_runqueue me"] sinv_lks(1) [OF inv] by (intro that [of x]) (auto simp: on_tls_def)
  qed
qed

text \<open>What migration from processor \<open>me\<close> does to the run queues.\<close>

definition balanced :: "nat \<Rightarrow> cpuid \<Rightarrow> (tlist \<Rightarrow> tid list) \<Rightarrow> (tlist \<Rightarrow> tid list) \<Rightarrow> bool" where
  "balanced n me q q' \<longleftrightarrow> (\<forall>l. l \<notin> Runqueue ` {..< n} \<longrightarrow> l \<noteq> Victims me \<longrightarrow> q' l = q l) \<and>
     (\<Union>i < n. set (q' (Runqueue i))) = (\<Union>i < n. set (q (Runqueue i))) \<and>
     length (q' (Runqueue me)) \<le> length (q (Runqueue me)) \<and>
     (\<forall>i < n. i \<noteq> me \<longrightarrow> length (q' (Runqueue i)) \<le> max (length (q (Runqueue i))) (unat (one_share n q)))"

lemma balanced_refl [simp]: "balanced n me q q"
  by (simp add: balanced_def)

lemma balancedI:
  assumes me: "me < n" and k: "k \<le> length (q (Runqueue me))" and dist: "distinct (q2 (Victims me))"
    and sh: "shared ({..< n} - {me}) me (unat (one_share n q))
      (q(Runqueue me := take (length (q (Runqueue me)) - k) (q (Runqueue me)), Victims me := drop (length (q (Runqueue me)) - k) (q (Runqueue me)))) q2"
  shows "balanced n me q (q2(Victims me := [], Runqueue me := q2 (Runqueue me) @ q2 (Victims me)))" (is "balanced n me q ?q3")
proof -
  let ?R = "Runqueue me" and ?V = "Victims me" and ?m = "length (q (Runqueue me)) - k" and ?I = "{..< n} - {me}"
  let ?q1 = "q(?R := take ?m (q ?R), ?V := drop ?m (q ?R))"
  have keep: "q2 l = ?q1 l" if "l \<noteq> ?V" "l \<notin> Runqueue ` ?I" for l using sh that unfolding shared_def by blast
  have R: "q2 ?R = take ?m (q ?R)" using keep [of ?R] by auto
  have sub: "set (q2 ?V) \<subseteq> set (drop ?m (q ?R))" using sh by (auto simp: shared_def)
  have "length (q2 ?V) \<le> length (drop ?m (q ?R))"
    using card_mono [OF _ sub] distinct_card [OF dist] card_length [of "drop ?m (q ?R)"] by simp
  then have len: "length (?q3 ?R) \<le> length (q ?R)" using R k by simp
  have split: "set (q ?R) = set (take ?m (q ?R)) \<union> set (drop ?m (q ?R))" by (metis append_take_drop_id set_append)
  have un: "(\<Union>i < n. set (f (Runqueue i))) = set (f ?R) \<union> (\<Union>i \<in> ?I. set (f (Runqueue i)))" for f :: "tlist \<Rightarrow> tid list"
    using me by auto
  have same: "(\<Union>i \<in> ?I. set (?q3 (Runqueue i))) = (\<Union>i \<in> ?I. set (q2 (Runqueue i)))" "(\<Union>i \<in> ?I. set (?q1 (Runqueue i))) = (\<Union>i \<in> ?I. set (q (Runqueue i)))" by auto
  have all: "set (q2 ?V) \<union> (\<Union>i \<in> ?I. set (q2 (Runqueue i))) = set (?q1 ?V) \<union> (\<Union>i \<in> ?I. set (?q1 (Runqueue i)))" using sh unfolding shared_def by blast
  have "(\<Union>i < n. set (?q3 (Runqueue i))) = set (q2 ?R) \<union> (set (q2 ?V) \<union> (\<Union>i \<in> ?I. set (q2 (Runqueue i))))"
    unfolding un same by auto
  also have "\<dots> = set (take ?m (q ?R)) \<union> (set (drop ?m (q ?R)) \<union> (\<Union>i \<in> ?I. set (q (Runqueue i))))"
    unfolding all same R by simp
  also have "\<dots> = (\<Union>i < n. set (q (Runqueue i)))" unfolding un using split by blast
  finally have union: "(\<Union>i < n. set (?q3 (Runqueue i))) = (\<Union>i < n. set (q (Runqueue i)))" .
  have "?q3 l = q l" if "l \<notin> Runqueue ` {..< n}" "l \<noteq> ?V" for l
  proof -
    have "l \<notin> Runqueue ` ?I" "l \<noteq> ?R" using that(1) me by blast+
    then show ?thesis using keep [OF that(2)] that(2) by simp
  qed
  moreover have "length (?q3 (Runqueue i)) \<le> max (length (q (Runqueue i))) (unat (one_share n q))" if "i < n" "i \<noteq> me" for i
    using sh that by (auto simp: shared_def)
  ultimately show ?thesis using union len unfolding balanced_def by blast
qed

lemma migrate_ok:
  assumes inv: "sinv {} None s q" and on: "runs_on s cur me"
  obtains s' q' where "thread_consider_migration cur s = Some s'" and "sinv {} None s' q'" and "moved cur s s'" and "balanced (length (allcpus s)) me q q'"
proof -
  let ?R = "Runqueue me" and ?V = "Victims me" and ?n = "length (allcpus s)"
  let ?my = "of_nat (length (q ?R)) :: u32" and ?share = "one_share ?n q"
  have me: "me < ?n" using on by (simp add: runs_on_def)
  obtain th where run: "running cur me th s" "thr s cur = Some th" by (rule sinv_cur [OF inv on])
  have cnt: "count_runqueues cur 0 ?n 0 0 s = Some (?my, of_nat (\<Sum>j \<leftarrow> [0..< ?n]. length (q (Runqueue j))), s)"
    using count_ok [OF inv on, of 0 ?n] me by simp
  show thesis
  proof (cases "?my < ?share")
    case True
    then show ?thesis
      using inv running_cur(1) [OF run(1)] cnt by (intro that [of s q]) (simp_all add: thread_consider_migration_def Let_def one_share_def)
  next
    case False
    let ?k = "unat (?my - ?share)" and ?m = "length (q ?R) - unat (?my - ?share)"
    have "length (q ?R) < 2 ^ 32" using tl_count_ok [OF inv in_lists(1) [OF me]] by simp
    then have "unat ?my = length (q ?R)" by (simp add: unat_of_nat_u32)
    then have k: "?k \<le> length (q ?R)" using False by (simp add: unat_sub not_less)
    obtain x where x: "(do { s2 \<leftarrow> spinlock_acquire (Lk_runqueue me) cur (s\<lparr>tls := threadlist_init ?V (tls s)\<rparr>);
        s3 \<leftarrow> take_victims ?k me s2; spinlock_release (Lk_runqueue me) cur s3 }) = Some (s\<lparr>tls := x\<rparr>)"
        "sinv {?V} None (s\<lparr>tls := x\<rparr>) (q(?R := take ?m (q ?R), ?V := drop ?m (q ?R)))"
      by (rule victims_ok [OF inv on k])
    let ?s4 = "s\<lparr>tls := x\<rparr>" and ?q1 = "q(?R := take ?m (q ?R), ?V := drop ?m (q ?R))"
    have pre: "runs_on ?s4 cur me" "thr ?s4 cur = Some th" "?V \<in> sys_lists {?V} ?s4" "?n \<le> length (allcpus ?s4)" "?k \<le> length (?q1 ?V)"
      using on run(2) k by (simp_all add: runs_on_def sys_lists_def)
    obtain s5 q2 where s5: "spread_victims cur me ?share 0 ?n ?k ?s4 = Some s5" "sinv {?V} None s5 q2" "moved cur ?s4 s5" "shared ({..< ?n} - {me}) me (unat ?share) ?q1 q2"
      by (rule spread_ok [OF x(2) pre])
    have mv4: "moved cur s ?s4" by (simp add: moved_def same_res_def same_cpus_def)
    note mv5 = moved_trans [OF mv4 s5(3)]
    have on5: "runs_on s5 cur me" using on moved_runs(1) [OF mv5] by simp
    obtain y where y: "(if \<not> threadlist_isempty ?V (tls s5) then do {
          s6 \<leftarrow> spinlock_acquire (Lk_runqueue me) cur s5;
          s7 \<leftarrow> on_tls (move_threads threadlist_remhead threadlist_addtail ?V ?R) s6;
          spinlock_release (Lk_runqueue me) cur s7 } else Some s5) = Some (s5\<lparr>tls := y\<rparr>)"
        "sinv {} None (s5\<lparr>tls := y\<rparr>) (q2(?V := [], ?R := q2 ?R @ q2 ?V))" "threadlist_isempty ?V y" "threadlist_cleanup ?V y = Some ()"
      by (rule return_ok [OF s5(2) on5])
    have "distinct (q2 ?V)" by (rule tl_sys_distinct [OF sinvD(1) [OF s5(2)]]) (simp add: sys_lists_def)
    from balancedI [OF me k this s5(4)] have bal: "balanced ?n me q (q2(?V := [], ?R := q2 ?R @ q2 ?V))" .
    obtain s2 s3 where s23: "spinlock_acquire (Lk_runqueue me) cur (s\<lparr>tls := threadlist_init ?V (tls s)\<rparr>) = Some s2" "take_victims ?k me s2 = Some s3"
        "spinlock_release (Lk_runqueue me) cur s3 = Some ?s4" using x(1) by (auto simp: bind_eq_Some_conv)
    have "thread_consider_migration cur s = Some (s5\<lparr>tls := y\<rparr>)"
      using False running_cur(1) [OF run(1)] cnt s23 s5(1) y(1,3,4)
      by (simp add: thread_consider_migration_def Let_def flip: one_share_def)
    moreover have "moved cur s (s5\<lparr>tls := y\<rparr>)" using mv5 by (simp add: moved_def same_res_def same_cpus_def)
    ultimately show ?thesis using that y(2) bal by blast
  qed
qed

end
