(* ===== verification/Threads_Sys.thy ===== *)
theory Threads_Sys
  imports Threads_Fork Threads_Migrate
begin

text \<open>
  The thread system as a whole: the operations a thread, an interrupt or the idle loop can start on a
  processor, the invariant they keep, and what holds in every state they can reach.
\<close>

subsection \<open>Operations\<close>

definition sched_ok :: "(u32 \<rightharpoonup> nat) \<Rightarrow> sched \<Rightarrow> (tlist \<Rightarrow> tid list) \<Rightarrow> bool" where
  "sched_ok X s q \<longleftrightarrow> sinv {} None s q \<and> (\<exists>own L. res_inv own L X s) \<and> proc_inv s"

datatype sop = Op_yield | Op_sleep u32 | Op_wakeone u32 | Op_wakeall u32 | Op_exit | Op_fork string u32 u32 u32 u32 | Op_clock | Op_poll

definition cur_of :: "cpuid \<Rightarrow> sched \<Rightarrow> tid" where
  "cur_of c s = c_curthread (allcpus s ! c)"

fun run_op :: "cpuid \<Rightarrow> sop \<Rightarrow> sched \<Rightarrow> (switched \<times> sched) kres" where
  "run_op c Op_yield s = thread_yield (cur_of c s) s"
| "run_op c (Op_sleep w) s = lock_and_sleep w (cur_of c s) s"
| "run_op c (Op_wakeone w) s = do { s1 \<leftarrow> wchan_wakeone w (cur_of c s) s; Some (Same, s1) }"
| "run_op c (Op_wakeall w) s = do { s1 \<leftarrow> wchan_wakeall w (cur_of c s) s; Some (Same, s1) }"
| "run_op c Op_exit s = thread_exit (cur_of c s) s"
| "run_op c (Op_fork name p e d1 d2) s = do { (_, s1) \<leftarrow> thread_fork (cur_of c s) name p e d1 d2 s; Some (Same, s1) }"
| "run_op c Op_clock s = hardclock (cur_of c s) s"
| "run_op c Op_poll s = idle_poll (cur_of c s) s"

text \<open>
  When an operation can start.  Interrupt handlers also run while the processor idles; a thread sleeps
  or exits only while it runs, never inside an interrupt handler, and it leaves a user process before
  it exits.
\<close>

fun op_ok :: "cpuid \<Rightarrow> sop \<Rightarrow> sched \<Rightarrow> bool" where
  "op_ok c (Op_sleep w) s \<longleftrightarrow> \<not> c_isidle (allcpus s ! c) \<and> wc_name s w \<noteq> None \<and>
     (case thr s (cur_of c s) of None \<Rightarrow> False | Some th \<Rightarrow> \<not> t_in_interrupt th)"
| "op_ok c (Op_wakeone w) s \<longleftrightarrow> wc_name s w \<noteq> None"
| "op_ok c (Op_wakeall w) s \<longleftrightarrow> wc_name s w \<noteq> None"
| "op_ok c Op_exit s \<longleftrightarrow> \<not> c_isidle (allcpus s ! c) \<and>
     (case thr s (cur_of c s) of None \<Rightarrow> False | Some th \<Rightarrow> t_proc th = 0 \<or> t_proc th = kproc s)"
| "op_ok c (Op_fork name p e d1 d2) s \<longleftrightarrow> length name < 2 ^ 30 \<and> card (dom (thr s)) < 2 ^ 27 \<and>
     (case thr s (cur_of c s) of None \<Rightarrow> False | Some th \<Rightarrow> p_threads s (if p = 0 then t_proc th else p) \<noteq> None)"
| "op_ok c Op_poll s \<longleftrightarrow> c_isidle (allcpus s ! c)"
| "op_ok c _ s \<longleftrightarrow> True"

text \<open>What a context switch leaves: the new thread runs, and none of the translations of the old address space is left.\<close>

definition switch_facts :: "cpuid \<Rightarrow> switched \<Rightarrow> sched \<Rightarrow> bool" where
  "switch_facts c r s \<longleftrightarrow> (\<forall>n. r = To n \<longrightarrow> runs_on s n c \<and> \<not> c_isidle (allcpus s ! c) \<and>
     (\<exists>th. thr s n = Some th \<and> t_state th = S_RUN \<and>
       (t_proc th \<noteq> 0 \<and> p_addrspace (p_vm s (t_proc th)) \<noteq> None \<longrightarrow> (\<forall>j < NUM_TLB. \<not> tlb_valid (tlbs s c ! j)))))"

text \<open>
  What an operation leaves alone: the wait channels other than \<open>W\<close>, and the threads that have not exited,
  except those in \<open>D\<close>.
\<close>

definition live :: "sched \<Rightarrow> (tlist \<Rightarrow> tid list) \<Rightarrow> tid \<Rightarrow> bool" where
  "live s q t \<longleftrightarrow> thr s t \<noteq> None \<and> (\<forall>d < length (allcpus s). t \<notin> set (q (Zombies d)))"

definition leaves :: "u32 set \<Rightarrow> tid set \<Rightarrow> sched \<Rightarrow> (tlist \<Rightarrow> tid list) \<Rightarrow> sched \<Rightarrow> (tlist \<Rightarrow> tid list) \<Rightarrow> bool" where
  "leaves W D s q s' q' \<longleftrightarrow> length (allcpus s') = length (allcpus s) \<and> wc_name s' = wc_name s \<and> (\<forall>w. w \<notin> W \<longrightarrow> q' (Waiters w) = q (Waiters w)) \<and>
     (\<forall>t. t \<notin> D \<longrightarrow> live s q t \<longrightarrow> live s' q' t)"

lemma leaves_refl [simp]: "leaves W D s q s q"
  by (simp add: leaves_def)

lemma leaves_trans: "leaves W D s q s1 q1 \<Longrightarrow> leaves {} {} s1 q1 s' q' \<Longrightarrow> leaves W D s q s' q'"
  by (simp add: leaves_def)

lemma leaves_then: "leaves {} {} s q s1 q1 \<Longrightarrow> leaves W D s1 q1 s' q' \<Longrightarrow> leaves W D s q s' q'"
  by (simp add: leaves_def)

definition op_result :: "(u32 \<rightharpoonup> nat) \<Rightarrow> cpuid \<Rightarrow> sched \<Rightarrow> (tlist \<Rightarrow> tid list) \<Rightarrow> u32 set \<Rightarrow> tid set \<Rightarrow> (switched \<times> sched) kres \<Rightarrow> bool" where
  "op_result X c s q W D res \<longleftrightarrow> (\<exists>r s' q'. res = Some (r, s') \<and> sched_ok X s' q' \<and> length (allcpus s') = length (allcpus s) \<and> switch_facts c r s' \<and>
     leaves W D s q s' q')"

lemma op_resultI: "sched_ok X s' q' \<Longrightarrow> length (allcpus s') = length (allcpus s) \<Longrightarrow> switch_facts c r s' \<Longrightarrow>
    leaves W D s q s' q' \<Longrightarrow> op_result X c s q W D (Some (r, s'))"
  unfolding op_result_def by blast

lemma switch_facts_Same [simp]: "switch_facts c Same s"
  by (simp add: switch_facts_def)

lemma same_res_leaves:
  assumes "same_res s s'" and "length (allcpus s') = length (allcpus s)"
  shows "leaves {} {} s q s' q"
proof -
  have "thr s' t = None \<longleftrightarrow> thr s t = None" for t
  proof -
    have "map_option (\<lambda>th. (t_name th, t_stack th, t_proc th)) (thr s' t) = map_option (\<lambda>th. (t_name th, t_stack th, t_proc th)) (thr s t)"
      using assms(1) by (simp add: same_res_def)
    then show ?thesis by (cases "thr s t"; cases "thr s' t") simp_all
  qed
  then show ?thesis using assms by (simp add: leaves_def live_def same_res_def)
qed

lemma next_result:
  assumes nx: "next_ok {} X cur c q s1 r s'" and proc: "proc_inv s1" and len: "length (allcpus s1) = length (allcpus s)" and c: "c < length (allcpus s)"
    and thr: "\<And>n ts. q (Runqueue c) = n # ts \<Longrightarrow> thr s1 n \<noteq> None \<and> n \<notin> set (q (Zombies c))"
    and zs: "\<And>z th. z \<in> set (q (Zombies c)) \<Longrightarrow> thr s1 z = Some th \<Longrightarrow> t_proc th = 0"
    and kept: "leaves W D s pre s1 q"
  shows "op_result X c s pre W D (Some (r, s'))"
proof -
  have proc': "proc_inv s'" by (rule proc_inv_next [OF proc nx zs])
  show ?thesis
  proof (cases "q (Runqueue c)")
    case Nil
    then have "r = Idling" "sinv {} None s' q" "allcpus s' = allcpus s1" "\<exists>own L. res_inv own L X s'" "same_res s1 s'"
      using nx by (simp_all add: next_ok_def)
    then show ?thesis using proc' len leaves_trans [OF kept same_res_leaves] by (intro op_resultI [of X s' q]) (simp_all add: sched_ok_def switch_facts_def)
  next
    case (Cons n ts)
    then have sw: "r = To n" "sinv {} None s' (q(Runqueue c := ts, Zombies c := []))" "switched_to n c (set (q (Zombies c))) s1 s'" "\<exists>own L. res_inv own L X s'"
      using nx by (simp_all add: next_ok_def)
    obtain th where th: "thr s1 n = Some th" "n \<notin> set (q (Zombies c))" using thr [OF Cons] by blast
    have "switch_facts c r s'"
      using sw(1,3) th c len by (auto simp: switch_facts_def switched_to_def ran_def)
    moreover have "length (allcpus s') = length (allcpus s)" using sw(3) len by (simp add: switched_to_def)
    moreover have "leaves {} {} s1 q s' (q(Runqueue c := ts, Zombies c := []))" using sw(3) c len by (auto simp: leaves_def live_def switched_to_def)
    moreover have "sched_ok X s' (q(Runqueue c := ts, Zombies c := []))" using sw(2,4) proc' by (simp add: sched_ok_def)
    ultimately show ?thesis using leaves_trans [OF kept] by (intro op_resultI [of X s' "q(Runqueue c := ts, Zombies c := [])"]) simp_all
  qed
qed

lemma head_thr:
  assumes inv: "sinv E K s q" and c: "c < length (allcpus s)" and q: "q (Runqueue c) = n # ts"
  shows "thr s n \<noteq> None \<and> n \<notin> set (q (Zombies c))"
  using sinv_on [OF inv in_lists(1) [OF c], of n] tl_sys_apart [OF sinvD(1) [OF inv] in_lists(1) [OF c] in_lists(2) [OF c], of n] q by auto

lemma zombie_proc: "sinv E K s q \<Longrightarrow> c < length (allcpus s) \<Longrightarrow> z \<in> set (q (Zombies c)) \<Longrightarrow> thr s z = Some th \<Longrightarrow> t_proc th = 0"
  using sinvD(9) [OF _ in_lists(2), of E K s q c z th] by simp

lemma next_result':
  assumes "next_ok {} X cur c q s1 r s'" and "sinv {} (Some c) s1 q" and "proc_inv s1" and "length (allcpus s1) = length (allcpus s)" and "c < length (allcpus s)"
    and "leaves W D s pre s1 q"
  shows "op_result X c s pre W D (Some (r, s'))"
  by (rule next_result [OF assms(1,3,4,5)]) (use head_thr [OF assms(2)] zombie_proc [OF assms(2)] assms(4-6) in auto)

lemma op_result_pre:
  assumes "op_result X c s p {} D res" and "leaves W D s q s p"
  shows "op_result X c s q W D res"
proof -
  obtain r s' q' where r: "res = Some (r, s')" "sched_ok X s' q'" "length (allcpus s') = length (allcpus s)" "switch_facts c r s'" "leaves {} D s p s' q'"
    using assms(1) unfolding op_result_def by blast
  have "leaves W D s q s' q'" using r(5) assms(2) by (simp add: leaves_def)
  then show ?thesis using r by (simp add: op_resultI)
qed

text \<open>A switch after the current thread was put on list \<open>l\<close>, which is not the list of zombies.\<close>

lemma left_result:
  assumes nx: "next_ok {} X cur c (q(l := q l @ [cur])) (left cur c th st nm x s) r s'" and inv: "sinv {} None s q" and proc: "proc_inv s"
    and on: "runs_on s cur c" and th: "thr s cur = Some th" and l: "\<And>d. l \<noteq> Zombies d" and busy: "\<not> c_isidle (allcpus s ! c)"
  shows "op_result X c s (q(l := q l @ [cur])) {} D (Some (r, s'))"
proof (rule next_result [OF nx])
  have c: "c < length (allcpus s)" using on by (simp add: runs_on_def)
  have off: "cur \<notin> set (q (Zombies c))"
    by (rule sinv_cur [OF inv on]) (use busy off_all [OF inv _ in_lists(2) [OF c]] in auto)
  show "proc_inv (left cur c th st nm x s)" by (rule proc_inv_res [OF proc]) (use th in \<open>auto simp: same_res_def left_def\<close>)
  show "length (allcpus (left cur c th st nm x s)) = length (allcpus s)" "c < length (allcpus s)" using c by (simp_all add: left_def)
  show "thr (left cur c th st nm x s) n \<noteq> None \<and> n \<notin> set ((q(l := q l @ [cur])) (Zombies c))" if "(q(l := q l @ [cur])) (Runqueue c) = n # ts" for n ts
    using that head_thr [OF inv c] off l by (cases "q (Runqueue c)") (auto simp: left_thr split: if_splits)
  show "leaves {} D s (q(l := q l @ [cur])) (left cur c th st nm x s) (q(l := q l @ [cur]))"
    by (auto simp: leaves_def live_def left_thr left_def)
  show "t_proc zh = 0" if "z \<in> set ((q(l := q l @ [cur])) (Zombies c))" "thr (left cur c th st nm x s) z = Some zh" for z zh
    using that l off zombie_proc [OF inv c, of z zh] by (auto simp: left_thr split: if_splits)
qed

subsection \<open>Every operation keeps the invariant\<close>

lemma yield_result:
  assumes ok: "sched_ok X s q" and on: "runs_on s cur c"
  shows "op_result X c s q W D (thread_yield cur s)"
proof -
  have inv: "sinv {} None s q" and proc: "proc_inv s" using ok by (simp_all add: sched_ok_def)
  obtain own L where res: "res_inv own L X s" using ok by (auto simp: sched_ok_def)
  obtain th where th: "thr s cur = Some th" using runs_on_thr [OF inv on] by blast
  have same: "op_result X c s q W D (Some (Same, s))" by (rule op_resultI [OF ok]) simp_all
  consider "c_isidle (allcpus s ! c)" | "\<not> c_isidle (allcpus s ! c)" "q (Runqueue c) = []" | "\<not> c_isidle (allcpus s ! c)" "q (Runqueue c) \<noteq> []" by blast
  then show ?thesis
  proof cases
    case 1
    then show ?thesis using same yield_idle [OF inv on] by (simp add: thread_yield_def)
  next
    case 2
    then show ?thesis using same yield_alone [OF inv on] by simp
  next
    case 3
    from yield_next [OF inv res on 3(1) th 3(2)] obtain x r s' where
      "thread_yield cur s = Some (r, s')" "next_ok {} X cur c (q(Runqueue c := q (Runqueue c) @ [cur])) (left cur c th S_READY (t_wchan_name th) x s) r s'" by blast
    then have "op_result X c s (q(Runqueue c := q (Runqueue c) @ [cur])) {} D (thread_yield cur s)"
      using left_result [OF _ inv proc on th _ 3(1), of X "Runqueue c" S_READY] by simp
    then show ?thesis by (rule op_result_pre) (simp add: leaves_def live_def)
  qed
qed

lemma quiet_result:
  assumes "sched_ok X s q" and "sinv {} None s' q'" and "quiet s s'" and "\<And>w. w \<notin> W \<Longrightarrow> q' (Waiters w) = q (Waiters w)" and "\<And>d. q' (Zombies d) = q (Zombies d)"
  shows "op_result X c s q W D (Some (Same, s'))"
proof (rule op_resultI)
  show "sched_ok X s' q'"
    using assms(1,2) same_res_inv [OF _ quiet_res [OF assms(3)]] proc_inv_res [OF _ quiet_res [OF assms(3)]] unfolding sched_ok_def by blast
qed (use assms(3-5) in \<open>auto simp: quiet_def same_cpus_def leaves_def live_def\<close>)

lemma moved_ok:
  assumes "sched_ok X s q" and "sinv {} None s' q'" and "moved cur s s'"
  shows "sched_ok X s' q'"
proof -
  have same: "same_res s s'" using assms(3) by (simp add: moved_def)
  show ?thesis using assms(1,2) same_res_inv [OF _ same] proc_inv_res [OF _ same] unfolding sched_ok_def by blast
qed

lemma clock_result:
  assumes ok: "sched_ok X s q" and on: "runs_on s cur c"
  shows "op_result X c s q W D (hardclock cur s)"
proof -
  have c: "c < length (allcpus s)" using on by (simp add: runs_on_def)
  let ?cp = "(allcpus s ! c)\<lparr>c_hardclocks := c_hardclocks (allcpus s ! c) + 1\<rparr>"
  let ?s1 = "s\<lparr>allcpus := (allcpus s)[c := ?cp]\<rparr>"
  have inv: "sinv {} None s q" and proc: "proc_inv s" using ok by (simp_all add: sched_ok_def)
  have cpu: "curcpu cur s = Some c" by (rule sinv_cur [OF inv on]) (rule running_cur(1))
  have cpus: "same_cpus s ?s1" using c by (auto simp: same_cpus_def nth_list_update)
  have inv1: "sinv {} None ?s1 q" by (rule sinv_lists [OF inv]) (use sinvD(1,4,9) [OF inv] cpus in auto)
  have mv1: "moved cur s ?s1" using cpus by (simp add: moved_def same_res_def)
  have on1: "runs_on ?s1 cur c" using on moved_runs(1) [OF mv1] by simp
  obtain s2 q2 where s2: "thread_consider_migration cur ?s1 = Some s2" "sinv {} None s2 q2" "moved cur ?s1 s2" "balanced (length (allcpus ?s1)) c q q2"
    by (rule migrate_ok [OF inv1 on1])
  have kept: "q2 (Waiters w) = q (Waiters w)" "q2 (Zombies d) = q (Zombies d)" for w d using s2(4) by (auto simp: balanced_def)
  have yield: "op_result X c s q W D (thread_yield cur s3)"
    if "sinv {} None s3 q3" "moved cur s s3" "\<And>w. q3 (Waiters w) = q (Waiters w)" "\<And>d. q3 (Zombies d) = q (Zombies d)" for s3 q3
  proof -
    have "leaves {} {} s q s3 q" using that(2) by (intro same_res_leaves) (simp_all add: moved_def same_cpus_def)
    then have "leaves {} {} s q s3 q3" using that(3,4) by (simp add: leaves_def live_def)
    moreover have "length (allcpus s3) = length (allcpus s)" using that(2) by (simp add: moved_def same_cpus_def)
    moreover have "runs_on s3 cur c" using on moved_runs(1) [OF that(2)] by simp
    ultimately show ?thesis using yield_result [OF moved_ok [OF ok that(1,2)], of cur c W D] leaves_then unfolding op_result_def by metis
  qed
  show ?thesis
    using yield [OF inv1 mv1] yield [OF s2(2) moved_trans [OF mv1 s2(3)] kept] c s2(1) cpu
    by (simp add: hardclock_def upd_cpu_def schedule_def Let_def)
qed

lemma fork_result:
  assumes ok: "sched_ok X s q" and on: "runs_on s cur c" and th: "thr s cur = Some th" and p: "p_threads s (if p = 0 then t_proc th else p) \<noteq> None"
    and num: "card (dom (thr s)) < 2 ^ 27" "length name < 2 ^ 30"
  shows "op_result X c s q W D (do { (_, s1) \<leftarrow> thread_fork cur name p e d1 d2 s; Some (Same, s1) })"
proof -
  have inv: "sinv {} None s q" and proc: "proc_inv s" using ok by (simp_all add: sched_ok_def)
  obtain own L where res: "res_inv own L X s" using ok by (auto simp: sched_ok_def)
  obtain a where a: "p_threads s (if p = 0 then t_proc th else p) = Some a" using p by blast
  show ?thesis
  proof (rule fork_ok [OF inv res proc on th refl a num, of e d1 d2], goal_cases)
    case (1 s')
    have "length (allcpus s') = length (allcpus s)" "leaves W D s q s' q" by (subst 1(5), simp add: leaves_def live_def)+
    moreover have "sched_ok X s' q" using 1(2,3,4) unfolding sched_ok_def by blast
    ultimately show ?case using 1(1) by (simp add: op_resultI)
  next
    case (2 t nm st s' own' L')
    have "length (allcpus s') = length (allcpus s)" "leaves W D s q s' (q(Runqueue c := q (Runqueue c) @ [t]))"
      using 2(4,8,9) by (simp_all add: same_cpus_def leaves_def live_def)
    moreover have "sched_ok X s' (q(Runqueue c := q (Runqueue c) @ [t]))" using 2(5,6,7) unfolding sched_ok_def by blast
    ultimately show ?case using 2(1) by (simp add: op_resultI)
  qed
qed

lemma sleep_result:
  assumes ok: "sched_ok X s q" and on: "runs_on s cur c" and th: "thr s cur = Some th" and busy: "\<not> c_isidle (allcpus s ! c)" "\<not> t_in_interrupt th"
    and w: "wc_name s w \<noteq> None"
  shows "op_result X c s (q(Waiters w := q (Waiters w) @ [cur])) {} D (lock_and_sleep w cur s)"
proof -
  have inv: "sinv {} None s q" and proc: "proc_inv s" using ok by (simp_all add: sched_ok_def)
  obtain own L where res: "res_inv own L X s" using ok by (auto simp: sched_ok_def)
  obtain nm where nm: "wc_name s w = Some nm" using w by blast
  from sleep_ok [OF inv res on busy(1) th busy(2) nm] obtain x r s' where "lock_and_sleep w cur s = Some (r, s')"
    "next_ok {} X cur c (q(Waiters w := q (Waiters w) @ [cur])) (left cur c th S_SLEEP (Some nm) x s) r s'" by blast
  then show ?thesis using left_result [OF _ inv proc on th _ busy(1), of X "Waiters w" S_SLEEP] by simp
qed

fun touches :: "sop \<Rightarrow> u32 set" where
  "touches (Op_sleep w) = {w}"
| "touches (Op_wakeone w) = {w}"
| "touches (Op_wakeall w) = {w}"
| "touches _ = {}"

lemma run_op_result:
  assumes ok: "sched_ok X s q" and c: "c < length (allcpus s)" and op: "op_ok c op s"
  shows "op_result X c s q (touches op) (if op = Op_exit then {cur_of c s} else {}) (run_op c op s)"
proof -
  have inv: "sinv {} None s q" and proc: "proc_inv s" using ok by (simp_all add: sched_ok_def)
  obtain own L where res: "res_inv own L X s" using ok by (auto simp: sched_ok_def)
  let ?cur = "cur_of c s"
  have on: "runs_on s ?cur c" using c by (simp add: runs_on_def cur_of_def)
  obtain th where th: "thr s ?cur = Some th" using runs_on_thr [OF inv on] by blast
  show ?thesis
  proof (cases op)
    case Op_yield
    then show ?thesis using yield_result [OF ok on] by simp
  next
    case (Op_sleep w)
    then have "op_result X c s (q(Waiters w := q (Waiters w) @ [?cur])) {} {} (lock_and_sleep w ?cur s)"
      using op th by (intro sleep_result [OF ok on th]) auto
    then have "op_result X c s q {w} {} (lock_and_sleep w ?cur s)" by (rule op_result_pre) (simp add: leaves_def live_def)
    then show ?thesis using Op_sleep by simp
  next
    case (Op_wakeone w)
    then have w: "wc_name s w \<noteq> None" using op by simp
    show ?thesis
      using Op_wakeone quiet_result [where W = "{w}", OF ok inv quiet_refl] quiet_result [where W = "{w}", OF ok] by (auto intro: wakeone_ok [OF inv on w])
  next
    case (Op_wakeall w)
    then have w: "wc_name s w \<noteq> None" using op by simp
    obtain s' where s': "wchan_wakeall w ?cur s = Some s'" "sinv {} None s' (woken s (Waiters w) (q (Waiters w)) q)" "quiet s s'" by (rule wakeall_ok [OF inv on w])
    show ?thesis using Op_wakeall s'(1) quiet_result [where W = "{w}", OF ok s'(2,3)] by (simp add: woken_def)
  next
    case Op_exit
    then have busy: "\<not> c_isidle (allcpus s ! c)" and p: "t_proc th \<in> {0, kproc s}" using op th by auto
    from exit_ok [OF inv res proc on busy th p] obtain s1 x r s' where "thread_exit ?cur s = Some (r, s')" "proc_inv s1" "runs_on s1 = runs_on s"
      "sinv {} (Some c) s1 (q(Zombies c := q (Zombies c) @ [?cur]))" "next_ok {} X ?cur c (q(Zombies c := q (Zombies c) @ [?cur])) s1 r s'"
      "length (allcpus s1) = length (allcpus s)" "wc_name s1 = wc_name s" "thr s1 = (thr s)(?cur \<mapsto> x)" by blast
    moreover have "leaves {} {?cur} s q s1 (q(Zombies c := q (Zombies c) @ [?cur]))" 
      using calculation(6-8) by (auto simp: leaves_def live_def)
    ultimately show ?thesis using Op_exit next_result' [where pre = q and W = "{}" and D = "{?cur}", OF _ _ _ _ c] by simp
  next
    case (Op_fork name p e d1 d2)
    then show ?thesis using op th fork_result [OF ok on th] by simp
  next
    case Op_clock
    then show ?thesis using clock_result [OF ok on] by simp
  next
    case Op_poll
    then have idle: "c_isidle (allcpus s ! c)" using op by simp
    from poll_ok [OF inv res on idle th] obtain r s' where "idle_poll ?cur s = Some (r, s')" "next_ok {} X ?cur c q (locked (Lk_runqueue c) ?cur c th s) r s'" by blast
    moreover have "proc_inv (locked (Lk_runqueue c) ?cur c th s)" by (rule proc_inv_res [OF proc]) (use th in \<open>auto simp: same_res_def locked_def\<close>)
    moreover have "leaves {} {} s q (locked (Lk_runqueue c) ?cur c th s) q" using th by (auto simp: leaves_def live_def locked_def)
    ultimately show ?thesis using Op_poll next_result' [where pre = q and W = "{}", OF _ sinv_locked_idle [OF inv on idle th] _ _ c] by simp
  qed
qed

subsection \<open>Reachable states\<close>

inductive sched_reach :: "sched \<Rightarrow> sched \<Rightarrow> bool" where
  reach_here: "sched_reach s s"
| reach_step: "sched_reach s s1 \<Longrightarrow> c < length (allcpus s1) \<Longrightarrow> op_ok c op s1 \<Longrightarrow> run_op c op s1 = Some (r, s2) \<Longrightarrow> sched_reach s s2"

lemma reach_ok: "sched_reach s s' \<Longrightarrow> sched_ok X s q \<Longrightarrow> \<exists>q'. sched_ok X s' q'"
proof (induction rule: sched_reach.induct)
  case (reach_step s s1 c op r s2)
  then obtain q1 where "sched_ok X s1 q1" by blast
  then show ?case using run_op_result reach_step(2-4) by (fastforce simp: op_result_def)
qed blast

text \<open>Where a thread is: running on one processor, or on one list.\<close>

definition placed :: "sched \<Rightarrow> (tlist \<Rightarrow> tid list) \<Rightarrow> tid \<Rightarrow> bool" where
  "placed s q t \<longleftrightarrow> (if \<exists>c < length (allcpus s). cur_of c s = t \<and> \<not> c_isidle (allcpus s ! c)
     then (\<exists>!c. c < length (allcpus s) \<and> cur_of c s = t) \<and> (\<forall>l \<in> sys_lists {} s. t \<notin> set (q l))
     else (\<exists>!l. l \<in> sys_lists {} s \<and> t \<in> set (q l)) \<and> (\<forall>l \<in> sys_lists {} s. count_list (q l) t \<le> 1))"

lemma count_le_1: "distinct xs \<Longrightarrow> count_list xs x \<le> 1"
  by (induction xs) (auto simp: count_list_0_iff)

lemma sinv_placed:
  assumes inv: "sinv {} None s q" and th: "thr s t = Some th"
  shows "placed s q t"
proof (cases "\<exists>c < length (allcpus s). cur_of c s = t \<and> \<not> c_isidle (allcpus s ! c)")
  case True
  then obtain c where c: "runs_on s t c" "\<not> c_isidle (allcpus s ! c)" by (auto simp: runs_on_def cur_of_def)
  have off: "\<not> on_list {} s q t" by (rule sinv_cur [OF inv c(1)]) (use c(2) in auto)
  have "\<exists>!c. c < length (allcpus s) \<and> cur_of c s = t"
    using c(1) runs_on_unique [OF inv] by (auto simp: runs_on_def cur_of_def)
  then show ?thesis using True off by (simp add: placed_def on_list_def)
next
  case False
  then have "on_list {} s q t" using sinvD(6) [OF inv th] by (auto simp: runs_on_def cur_of_def)
  then obtain l where l: "l \<in> sys_lists {} s" "t \<in> set (q l)" by (auto simp: on_list_def)
  have "\<exists>!l. l \<in> sys_lists {} s \<and> t \<in> set (q l)"
    by (rule ex1I [of _ l]) (use l tl_sys_apart [OF sinvD(1) [OF inv] l(1)] in blast)+
  moreover have "count_list (q k) t \<le> 1" if "k \<in> sys_lists {} s" for k by (rule count_le_1 [OF tl_sys_distinct [OF sinvD(1) [OF inv] that]])
  ultimately show ?thesis unfolding placed_def by (simp only: False if_False) simp
qed

subsection \<open>Repeated yields\<close>

fun yields :: "nat \<Rightarrow> cpuid \<Rightarrow> sched \<Rightarrow> sched kres" where
  "yields 0 c s = Some s"
| "yields (Suc k) c s = do { (_, s1) \<leftarrow> thread_yield (cur_of c s) s; yields k c s1 }"

lemma yield_rotates:
  assumes ok: "sched_ok X s q" and on: "runs_on s cur c" and busy: "\<not> c_isidle (allcpus s ! c)"
  shows "\<exists>r s' q'. thread_yield cur s = Some (r, s') \<and> sched_ok X s' q' \<and> c < length (allcpus s') \<and> \<not> c_isidle (allcpus s' ! c) \<and>
    cur_of c s' # q' (Runqueue c) = rotate1 (cur # q (Runqueue c))"
proof (cases "q (Runqueue c)")
  case Nil
  have "sinv {} None s q" using ok by (simp add: sched_ok_def)
  from yield_alone [OF this on busy Nil] show ?thesis using ok on busy Nil by (auto simp: runs_on_def cur_of_def)
next
  case (Cons n ts)
  have inv: "sinv {} None s q" and proc: "proc_inv s" using ok by (simp_all add: sched_ok_def)
  obtain own L where res: "res_inv own L X s" using ok by (auto simp: sched_ok_def)
  obtain th where th: "thr s cur = Some th" using runs_on_thr [OF inv on] by blast
  let ?q = "q(Runqueue c := q (Runqueue c) @ [cur])"
  obtain x r s' where y: "thread_yield cur s = Some (r, s')" and nx: "next_ok {} X cur c ?q (left cur c th S_READY (t_wchan_name th) x s) r s'"
    using yield_next [OF inv res on busy th] Cons by auto
  have "op_result X c s (q(Runqueue c := q (Runqueue c) @ [cur])) {} {} (Some (r, s'))" by (rule left_result [OF nx inv proc on th _ busy]) simp
  then have proc': "proc_inv s'" by (auto simp: op_result_def sched_ok_def)
  have sw: "sinv {} None s' (?q(Runqueue c := ts @ [cur], Zombies c := []))" "switched_to n c (set (?q (Zombies c))) (left cur c th S_READY (t_wchan_name th) x s) s'"
      "\<exists>own L. res_inv own L X s'" using nx Cons by (simp_all add: next_ok_def)
  have c: "c < length (allcpus s)" using on by (simp add: runs_on_def)
  have "c < length (allcpus s')" "\<not> c_isidle (allcpus s' ! c)" "cur_of c s' = n" using sw(2) c by (simp_all add: switched_to_def left_def cur_of_def)
  moreover have "sched_ok X s' (?q(Runqueue c := ts @ [cur], Zombies c := []))" using sw(1,3) proc' by (simp add: sched_ok_def)
  ultimately show ?thesis using y Cons by (intro exI [of _ r] exI [of _ s'] exI [of _ "?q(Runqueue c := ts @ [cur], Zombies c := [])"]) simp
qed

lemma yields_rotate:
  assumes "sched_ok X s q" and "c < length (allcpus s)" and "\<not> c_isidle (allcpus s ! c)"
  shows "\<exists>s' q'. yields k c s = Some s' \<and> sched_ok X s' q' \<and> cur_of c s' # q' (Runqueue c) = rotate k (cur_of c s # q (Runqueue c))"
  using assms
proof (induction k arbitrary: s q)
  case (Suc k)
  have "runs_on s (cur_of c s) c" using Suc(3) by (simp add: runs_on_def cur_of_def)
  from yield_rotates [OF Suc(2) this Suc(4)] obtain r s1 q1 where s1: "thread_yield (cur_of c s) s = Some (r, s1)" "sched_ok X s1 q1" "c < length (allcpus s1)"
      "\<not> c_isidle (allcpus s1 ! c)" "cur_of c s1 # q1 (Runqueue c) = rotate1 (cur_of c s # q (Runqueue c))" by blast
  from Suc(1) [OF s1(2-4)] obtain s' q' where "yields k c s1 = Some s'" "sched_ok X s' q'"
      "cur_of c s' # q' (Runqueue c) = rotate k (rotate1 (cur_of c s # q (Runqueue c)))" unfolding s1(5) by blast
  then show ?case using s1(1) by (auto simp: rotate1_rotate_swap)
qed auto

subsection \<open>A sample system\<close>

lemma blocktype_500: "blocktype 500 = Some 5"
  by (simp add: blocktype_def blocktype_loop.simps sizes_def)

lemma kheap_seven_blocks: "\<exists>k1. kmalloc 500 (kheap_init vm_sample (\<lambda>_. 0)) = Some (0x80031e00, k1) \<and>
  (\<exists>k2. kmalloc 500 k1 = Some (0x80031c00, k2) \<and> (\<exists>k3. kmalloc 500 k2 = Some (0x80031a00, k3) \<and>
   (\<exists>k4. kmalloc 500 k3 = Some (0x80031800, k4) \<and> (\<exists>k5. kmalloc 500 k4 = Some (0x80031600, k5) \<and>
   (\<exists>k6. kmalloc 500 k5 = Some (0x80031400, k6) \<and> (\<exists>k7. kmalloc 500 k6 = Some (0x80031200, k7)))))))"
proof -
  have "allocpageref ((kheap_init vm_sample (\<lambda>_. 0))\<lparr>kvm := v\<rparr>) = Some (Some 0, (kheap_init vm_sample (\<lambda>_. 0))\<lparr>kvm := v, pagerefs_inuse := (replicate 8 0)[0 := 1]\<rparr>)" for v
    by (simp add: allocpageref_def allocpageref_loop.simps allocpageref_word.simps kheap_init_def)
  then show ?thesis
    using vm_sample_alloc
    by (simp add: kmalloc_def subpage_kmalloc_def blocktype_500 kheap_init_def subpage_find.simps subpage_newpage_def
      sizes_def freelist_init.simps subpage_doalloc_def PR_PAGEADDR_def PR_BLOCKTYPE_def MKPAB_def Let_def)
qed

lemma heap_seven_blocks:
  obtains k where "heap_inv k [0x80031e00 \<mapsto> 500, 0x80031c00 \<mapsto> 500, 0x80031a00 \<mapsto> 500, 0x80031800 \<mapsto> 500, 0x80031600 \<mapsto> 500,
    0x80031400 \<mapsto> 500, 0x80031200 \<mapsto> 500] Map.empty"
proof -
  obtain k1 k2 k3 k4 k5 k6 k7 where k: "kmalloc 500 (kheap_init vm_sample (\<lambda>_. 0)) = Some (0x80031e00, k1)" "kmalloc 500 k1 = Some (0x80031c00, k2)"
      "kmalloc 500 k2 = Some (0x80031a00, k3)" "kmalloc 500 k3 = Some (0x80031800, k4)" "kmalloc 500 k4 = Some (0x80031600, k5)"
      "kmalloc 500 k5 = Some (0x80031400, k6)" "kmalloc 500 k6 = Some (0x80031200, k7)"
    using kheap_seven_blocks by blast
  have step: "heap_inv h' (L(p \<mapsto> 500)) Map.empty" if "heap_inv h L Map.empty" "kmalloc 500 h = Some (p, h')" "p \<noteq> 0" for h h' L p
    using kh.kmalloc_fresh [OF that(1) _ that(2,3)] by simp
  show thesis by (rule that [OF step [OF step [OF step [OF step [OF step [OF step [OF step [OF kheap_sample k(1)] k(2)] k(3)] k(4)] k(5)] k(6)] k(7)]]) simp_all
qed

text \<open>One processor runs the thread at \<open>0x80031e00\<close>; the one at \<open>0x80031a00\<close> is ready; nobody waits on the three channels.\<close>

definition sample_thread :: "u32 \<Rightarrow> threadstate \<Rightarrow> switchframe \<Rightarrow> int \<Rightarrow> int \<Rightarrow> thread" where
  "sample_thread nm st fr spl n = \<lparr>t_name = nm, t_wchan_name = None, t_state = st, t_stack = 0, t_guard = [], t_badfaultfunc = 0,
     t_context = fr, t_cpu = Some 0, t_proc = 0, t_in_interrupt = False, t_curspl = spl, t_iplhigh_count = n\<rparr>"

definition sample_cpu :: cpu where
  "sample_cpu = \<lparr>c_hardware_number = 0, c_curthread = 0x80031e00, c_hardclocks = 0, c_isidle = False, c_ipi_pending = 0,
     c_shootdown = replicate 16 (0, 0), c_numshootdown = 16\<rparr>"

definition sample_sched :: "(tid, tlist) tlstore \<Rightarrow> kstate \<Rightarrow> sched" where
  "sample_sched l k = \<lparr>thr = [0x80031e00 \<mapsto> sample_thread 0x80031c00 S_RUN No_frame 0 0, 0x80031a00 \<mapsto> sample_thread 0x80031800 S_READY (Startup 0 0 0) 1 2],
     irq = (\<lambda>_. True), lks = (\<lambda>_. unlocked), allcpus = [sample_cpu], tls = l, wc_name = [0x80031600 \<mapsto> ''lbolt'', 0x80031400 \<mapsto> ''queue'', 0x80031200 \<mapsto> ''full''], heap = k, strs = (\<lambda>_. ''''),
     kproc = 1, p_threads = [1 \<mapsto> array_init 0], p_vm = (\<lambda>_. \<lparr>p_addrspace = None, loaded = False\<rparr>), tlbs = (\<lambda>_. replicate NUM_TLB (0, 0)),
     ipi_line = (\<lambda>_. False), lbolt = 0x80031600\<rparr>"

definition sample_lists :: "tlist \<Rightarrow> tid list" where
  "sample_lists = (\<lambda>_. [])(Runqueue 0 := [0x80031a00])"

definition no_lists :: "(tid, tlist) tlstore" where
  "no_lists = \<lparr>tnodes = (\<lambda>_. None), tl_count = (\<lambda>_. 0)\<rparr>"

lemma sample_store:
  obtains l where "tl_sys {Runqueue 0, Zombies 0, Waiters 0x80031200, Waiters 0x80031400, Waiters 0x80031600} {0x80031e00, 0x80031a00} sample_lists l"
proof -
  have "tl_sys {} {} (\<lambda>_. []) no_lists" by (simp add: tl_sys_def tq_all_def)
  from sys_init [OF this, of "Waiters 0x80031600"] have "tl_sys {Waiters 0x80031600} {} (\<lambda>_. []) (threadlist_init (Waiters 0x80031600) no_lists)" by (simp add: fun_upd_idem)
  from sys_init [OF this, of "Waiters 0x80031400"] obtain k0 :: "(tid, tlist) tlstore" where "tl_sys {Waiters 0x80031400, Waiters 0x80031600} {} (\<lambda>_. []) k0" by (auto simp: fun_upd_idem)
  from sys_init [OF this, of "Waiters 0x80031200"] obtain k1 :: "(tid, tlist) tlstore" where "tl_sys {Waiters 0x80031200, Waiters 0x80031400, Waiters 0x80031600} {} (\<lambda>_. []) k1"
    by (auto simp: fun_upd_idem)
  from sys_init [OF this, of "Zombies 0"] obtain k2 :: "(tid, tlist) tlstore" where
    "tl_sys {Zombies 0, Waiters 0x80031200, Waiters 0x80031400, Waiters 0x80031600} {} (\<lambda>_. []) k2" by (auto simp: fun_upd_idem)
  from sys_init [OF this, of "Runqueue 0"] obtain l0 :: "(tid, tlist) tlstore" where "tl_sys {Runqueue 0, Zombies 0, Waiters 0x80031200, Waiters 0x80031400, Waiters 0x80031600} {} (\<lambda>_. []) l0" by (auto simp: fun_upd_idem)
  from sys_node_init [OF this, of "0x80031a00"] obtain l1 :: "(tid, tlist) tlstore" where "tl_sys {Runqueue 0, Zombies 0, Waiters 0x80031200, Waiters 0x80031400, Waiters 0x80031600} {0x80031a00} (\<lambda>_. []) l1" by auto
  from sys_node_init [OF this, of "0x80031e00"] obtain l2 :: "(tid, tlist) tlstore" where l2: "tl_sys {Runqueue 0, Zombies 0, Waiters 0x80031200, Waiters 0x80031400, Waiters 0x80031600} {0x80031e00, 0x80031a00} (\<lambda>_. []) l2" by auto
  show thesis by (rule sys_addtail [OF l2, of "Runqueue 0" "0x80031a00"]) (use that in \<open>auto simp: sample_lists_def\<close>)
qed

lemma sample_ok:
  obtains l k where "sched_ok Map.empty (sample_sched l k) sample_lists"
proof -
  obtain l where l: "tl_sys {Runqueue 0, Zombies 0, Waiters 0x80031200, Waiters 0x80031400, Waiters 0x80031600} {0x80031e00, 0x80031a00} sample_lists l" by (rule sample_store)
  obtain k where k: "heap_inv k [0x80031e00 \<mapsto> 500, 0x80031c00 \<mapsto> 500, 0x80031a00 \<mapsto> 500, 0x80031800 \<mapsto> 500, 0x80031600 \<mapsto> 500,
    0x80031400 \<mapsto> 500, 0x80031200 \<mapsto> 500] Map.empty"
    by (rule heap_seven_blocks)
  let ?s = "sample_sched l k"
  have f: "irq ?s = (\<lambda>_. True)" "lks ?s = (\<lambda>_. unlocked)" "allcpus ?s = [sample_cpu]" "tls ?s = l" "tlbs ?s = (\<lambda>_. replicate NUM_TLB (0, 0))" "heap ?s = k"
      "thr ?s = [0x80031e00 \<mapsto> sample_thread 0x80031c00 S_RUN No_frame 0 0, 0x80031a00 \<mapsto> sample_thread 0x80031800 S_READY (Startup 0 0 0) 1 2]"
      "wc_name ?s = [0x80031600 \<mapsto> ''lbolt'', 0x80031400 \<mapsto> ''queue'', 0x80031200 \<mapsto> ''full'']" "p_threads ?s = [1 \<mapsto> array_init 0]" "kproc ?s = 1"
    by (simp_all add: sample_sched_def)
  have li: "sys_lists {} ?s = {Runqueue 0, Zombies 0, Waiters 0x80031200, Waiters 0x80031400, Waiters 0x80031600}" by (auto simp: sys_lists_def f)
  have dom: "dom (thr ?s) = {0x80031e00, 0x80031a00}" by (auto simp: f)
  have on: "on_list {} ?s sample_lists t \<longleftrightarrow> t = 0x80031a00" for t by (auto simp: on_list_def li sample_lists_def)
  have runs: "runs_on ?s t c \<longleftrightarrow> t = 0x80031e00 \<and> c = 0" for t c by (auto simp: runs_on_def f sample_cpu_def)
  have "cpu_ok {} None ?s sample_lists 0" unfolding cpu_ok_def on by (simp add: f sample_cpu_def sample_thread_def)
  then have "sinv {} None ?s sample_lists"
    unfolding sinv_def li dom on runs using l
    by (auto simp: f sample_thread_def thread_ok_def parked_def sample_lists_def sample_cpu_def split: if_splits)
  moreover have "res_inv [0x80031e00 \<mapsto> Own_thread 0x80031e00, 0x80031c00 \<mapsto> Own_name 0x80031e00, 0x80031a00 \<mapsto> Own_thread 0x80031a00,
      0x80031800 \<mapsto> Own_name 0x80031a00, 0x80031600 \<mapsto> Own_wchan 0x80031600, 0x80031400 \<mapsto> Own_wchan 0x80031400, 0x80031200 \<mapsto> Own_wchan 0x80031200]
      [0x80031e00 \<mapsto> 500, 0x80031c00 \<mapsto> 500, 0x80031a00 \<mapsto> 500, 0x80031800 \<mapsto> 500, 0x80031600 \<mapsto> 500,
    0x80031400 \<mapsto> 500, 0x80031200 \<mapsto> 500] Map.empty ?s"
    using k unfolding res_inv_def f
    by (auto simp: sample_thread_def arr_owned_def array_init_def arr_wf_def grow_size_def split: if_splits)
  moreover have "proc_inv ?s" by (auto simp: proc_inv_def f sample_thread_def split: if_splits)
  ultimately show thesis using that unfolding sched_ok_def by blast
qed

lemma sample_facts [simp]: "length (allcpus (sample_sched l k)) = 1" "c_isidle (allcpus (sample_sched l k) ! 0) = False" "cur_of 0 (sample_sched l k) = 0x80031e00"
  "runs_on (sample_sched l k) 0x80031e00 0" "p_threads (sample_sched l k) 1 = Some (array_init 0)" "wc_name (sample_sched l k) 0x80031600 = Some ''lbolt''"
  "wc_name (sample_sched l k) 0x80031400 = Some ''queue''" "wc_name (sample_sched l k) 0x80031200 = Some ''full''"
  "thr (sample_sched l k) 0x80031e00 = Some (sample_thread 0x80031c00 S_RUN No_frame 0 0)" "dom (thr (sample_sched l k)) = {0x80031e00, 0x80031a00}"
  by (auto simp: sample_sched_def sample_cpu_def cur_of_def runs_on_def)

subsection \<open>Properties\<close>

text \<open>
  C27.  Progress and preservation for the thread system.  In a consistent system every operation that
  can start on a processor returns: no assertion fails, no list node is missing, no lock is taken
  twice.  The result is consistent again.  When the operation switches to a thread, that thread now runs
  on the processor, and no translation of the previous address space is left in its translation buffer.
\<close>

theorem sched_progress:
  assumes "sched_ok X s q" and "c < length (allcpus s)" and "op_ok c op s"
  shows "\<exists>r s' q'. run_op c op s = Some (r, s') \<and> sched_ok X s' q' \<and> length (allcpus s') = length (allcpus s) \<and> switch_facts c r s'"
  using run_op_result [OF assms] unfolding op_result_def by blast

theorem sched_progress_witness:
  "\<exists>l k r s' q'. sched_ok Map.empty (sample_sched l k) sample_lists \<and> run_op 0 (Op_sleep 0x80031600) (sample_sched l k) = Some (r, s') \<and> sched_ok Map.empty s' q'"
proof (rule sample_ok)
  fix l k assume ok: "sched_ok Map.empty (sample_sched l k) sample_lists"
  have "op_ok 0 (Op_sleep 0x80031600) (sample_sched l k)" by (simp add: sample_thread_def)
  from sched_progress [OF ok _ this] ok show ?thesis by (simp, blast)
qed

text \<open>
  C28.  In every state the thread system can reach, every thread is in exactly one place: it is the
  current thread of exactly one processor and on no list, or it is on exactly one list, once.
\<close>

theorem sched_reach_placed:
  assumes "sched_ok X s q" and "sched_reach s s'"
  shows "\<exists>q'. tl_sys (sys_lists {} s') (dom (thr s')) q' (tls s') \<and> (\<forall>t th. thr s' t = Some th \<longrightarrow> placed s' q' t)"
proof -
  obtain q' where "sinv {} None s' q'" using reach_ok [OF assms(2,1)] by (auto simp: sched_ok_def)
  then show ?thesis using sinvD(1) sinv_placed by blast
qed

theorem sched_reach_placed_witness:
  "\<exists>l k s' q'. thread_yield 0x80031e00 (sample_sched l k) = Some (To 0x80031a00, s') \<and> placed s' q' 0x80031e00"
proof (rule sample_ok)
  fix l k assume ok: "sched_ok Map.empty (sample_sched l k) sample_lists"
  let ?s = "sample_sched l k" and ?th = "sample_thread 0x80031c00 S_RUN No_frame 0 0"
  obtain own L where ok': "sinv {} None ?s sample_lists" "res_inv own L Map.empty ?s" using ok by (auto simp: sched_ok_def)
  have q: "sample_lists (Runqueue 0) \<noteq> []" "sample_lists (Runqueue 0) = [0x80031a00]" "sample_lists (Zombies 0) = []" by (simp_all add: sample_lists_def)
  have pre: "runs_on ?s 0x80031e00 0" "\<not> c_isidle (allcpus ?s ! 0)" "thr ?s 0x80031e00 = Some ?th" by simp_all
  obtain x r s' where y: "thread_yield 0x80031e00 ?s = Some (r, s')"
      "next_ok {} Map.empty 0x80031e00 0 (sample_lists(Runqueue 0 := sample_lists (Runqueue 0) @ [0x80031e00])) (left 0x80031e00 0 ?th S_READY (t_wchan_name ?th) x ?s) r s'"
    using yield_next [OF ok' pre q(1)] by blast
  have r: "r = To 0x80031a00" and t: "\<exists>th. thr s' 0x80031e00 = Some th"
    using y(2) q(2,3) by (auto simp: next_ok_def switched_to_def left_thr)
  have "sched_reach ?s s'" by (rule reach_step [OF reach_here, of 0 _ Op_yield r]) (use y(1) in simp_all)
  from sched_reach_placed [OF ok this] t obtain q' where "placed s' q' 0x80031e00" by blast
  then show ?thesis using y(1) r by blast
qed

text \<open>
  C29.  Round robin.  On a processor that runs a thread, any number of yields returns, and the current
  thread followed by the run queue is rotated once by each: a ready thread runs after as many yields
  as its place in the queue, and after one yield more than the length of the queue the first thread
  runs again.
\<close>

theorem yield_round_robin:
  assumes "sched_ok X s q" and "c < length (allcpus s)" and "\<not> c_isidle (allcpus s ! c)"
  shows "\<exists>s' q'. yields k c s = Some s' \<and> sched_ok X s' q' \<and> cur_of c s' # q' (Runqueue c) = rotate k (cur_of c s # q (Runqueue c))"
  by (rule yields_rotate [OF assms])

theorem yield_round_robin_witness:
  "\<exists>l k s'. sched_ok Map.empty (sample_sched l k) sample_lists \<and> yields 3 0 (sample_sched l k) = Some s' \<and> cur_of 0 s' = 0x80031a00"
proof (rule sample_ok)
  fix l k assume ok: "sched_ok Map.empty (sample_sched l k) sample_lists"
  from yield_round_robin [OF ok, of 0 3] obtain s' q' where "yields 3 0 (sample_sched l k) = Some s'"
      "cur_of 0 s' # q' (Runqueue 0) = rotate 3 [0x80031e00, 0x80031a00]" by (auto simp: sample_lists_def)
  then show ?thesis using ok by (auto simp: numeral_eq_Suc)
qed



text \<open>
  C31.  Migration.  \<open>thread_consider_migration\<close> returns, keeps the system consistent and loses no ready
  thread: the run queues together hold the same threads as before, the queue of the processor that
  migrates does not grow, no other queue grows beyond the share of one processor, all other lists are
  unchanged, and the current thread keeps its processor.
\<close>

theorem migration_balances:
  assumes inv: "sinv {} None s q" and on: "runs_on s cur me"
  shows "\<exists>s' q'. thread_consider_migration cur s = Some s' \<and> sinv {} None s' q' \<and> moved cur s s' \<and> balanced (length (allcpus s)) me q q'"
  by (rule migrate_ok [OF inv on]) blast

theorem migration_balances_witness:
  "\<exists>l k s' q'. sinv {} None (sample_sched l k) sample_lists \<and> thread_consider_migration 0x80031e00 (sample_sched l k) = Some s' \<and> balanced 1 0 sample_lists q'"
proof (rule sample_ok)
  fix l k assume "sched_ok Map.empty (sample_sched l k) sample_lists"
  then have inv: "sinv {} None (sample_sched l k) sample_lists" by (simp add: sched_ok_def)
  from migration_balances [OF inv sample_facts(4)] inv show ?thesis by (simp, blast)
qed

text \<open>
  C32.  Too many shootdowns.  When \<open>TLBSHOOTDOWN_MAX\<close> requests are pending for a processor, one more is
  recorded as \<open>TLBSHOOTDOWN_ALL\<close>, and the next one writes outside the array \<open>c_shootdown\<close>.
\<close>

theorem shootdown_overruns:
  assumes inv: "sinv {} None s q" and on: "runs_on s cur c" and d: "d < length (allcpus s)" "c_numshootdown (allcpus s ! d) = int TLBSHOOTDOWN_MAX"
  shows "\<exists>s'. ipi_tlbshootdown cur d m s = Some s' \<and> c_numshootdown (allcpus s' ! d) = TLBSHOOTDOWN_ALL \<and> ipi_tlbshootdown cur d m' s' = None"
proof -
  obtain th where run: "running cur c th s" by (rule sinv_cur [OF inv on])
  note free = sinv_lks(1) [OF inv]
  let ?s = "s\<lparr>allcpus := (allcpus s)[d := (allcpus s ! d)\<lparr>c_numshootdown := TLBSHOOTDOWN_ALL, c_ipi_pending := c_ipi_pending (allcpus s ! d) OR push_bit IPI_TLBSHOOTDOWN 1\<rparr>],
     ipi_line := (ipi_line s)(d := True)\<rparr>"
  have one: "ipi_tlbshootdown cur d m s = Some ?s"
    using d by (simp add: ipi_tlbshootdown_def acquire_locked [OF run free] upd_cpu_def mainbus_send_ipi_def Let_def release_locked [OF run free] locked_def)
  have run': "running cur c th ?s" using run by (simp add: running_def)
  have "ipi_tlbshootdown cur d m' ?s = None"
    using d acquire_locked [OF run', of "Lk_ipi d"] free by (simp add: ipi_tlbshootdown_def Let_def TLBSHOOTDOWN_ALL_def TLBSHOOTDOWN_MAX_def)
  then show ?thesis using one d by (intro exI [of _ ?s]) simp
qed

theorem shootdown_overruns_witness:
  "\<exists>l k s'. sinv {} None (sample_sched l k) sample_lists \<and> ipi_tlbshootdown 0x80031e00 0 (0, 0) (sample_sched l k) = Some s' \<and>
     ipi_tlbshootdown 0x80031e00 0 (0, 0) s' = None"
proof (rule sample_ok)
  fix l k assume "sched_ok Map.empty (sample_sched l k) sample_lists"
  then have inv: "sinv {} None (sample_sched l k) sample_lists" by (simp add: sched_ok_def)
  have "c_numshootdown (allcpus (sample_sched l k) ! 0) = int TLBSHOOTDOWN_MAX" by (simp add: sample_sched_def sample_cpu_def TLBSHOOTDOWN_MAX_def)
  from shootdown_overruns [OF inv sample_facts(4) _ this] inv show ?thesis by (simp, blast)
qed

end
