(* ===== verification/Synch_Correct.thy ===== *)
theory Synch_Correct
  imports Synch Threads_Sys
begin

text \<open>
  The synchronization primitives from the invariant of the thread system.  The first part shows that
  the spinlocks around the wait channel operations leave only the effect on the lists.  The second
  part is the system in which threads on several processors call the primitives in any order and
  continue after a sleep: its invariant gives mutual exclusion, the counting of semaphores and that no
  wakeup is lost.
\<close>

subsection \<open>Wait channels under a spinlock\<close>

definition wakeable :: "u32 \<Rightarrow> sched \<Rightarrow> bool" where
  "wakeable w s \<longleftrightarrow> threadlist_remhead (Waiters w) (tls s) = Some (None, tls s) \<or>
     (\<exists>t x tt d x'. threadlist_remhead (Waiters w) (tls s) = Some (Some t, x) \<and> thr s t = Some tt \<and> t_cpu tt = Some d \<and>
        d < length (allcpus s) \<and> threadlist_addtail (Runqueue d) t x = Some x')"

lemma sinv_wakeable:
  assumes "sinv E None s q" and "wc_name s w \<noteq> None"
  shows "wakeable w s"
  by (rule wake_lists [where w = w and e = 0, OF assms(1) in_lists(3) [OF assms(2)] disjI1 [OF refl]]) (auto simp: wakeable_def)

lemma wakeable_locked:
  assumes "running cur c th s" and "wakeable w s"
  shows "wakeable w (locked A cur c th s)"
proof -
  have "\<exists>tt'. thr (locked A cur c th s) t = Some tt' \<and> t_cpu tt' = t_cpu tt" if "thr s t = Some tt" for t tt
    using running_cur(2) [OF assms(1)] that by (auto simp: locked_def)
  then show ?thesis using assms(2) unfolding wakeable_def by (simp, metis)
qed

lemma made_runnable_locked: "made_runnable d l (locked A cur c th s) = locked A cur c th (made_runnable d l s)"
  by (simp add: made_runnable_def locked_def posted_def)

text \<open>Waking a thread commutes with a lock that the wait channel does not use.\<close>

definition outer :: "u32 \<Rightarrow> lkid \<Rightarrow> bool" where
  "outer w A \<longleftrightarrow> A \<noteq> Lk_wchan w \<and> (\<forall>d. A \<noteq> Lk_runqueue d \<and> A \<noteq> Lk_ipi d)"

definition wchan_free :: "u32 \<Rightarrow> sched \<Rightarrow> bool" where
  "wchan_free w s \<longleftrightarrow> lks s (Lk_wchan w) = unlocked \<and> (\<forall>d. lks s (Lk_runqueue d) = unlocked \<and> lks s (Lk_ipi d) = unlocked)"

lemma wchan_free_locked: "wchan_free w s \<Longrightarrow> outer w A \<Longrightarrow> wchan_free w (locked A cur c th s)"
  by (auto simp: wchan_free_def outer_def locked_def)

lemma wakeone_locked:
  assumes run: "running cur c th s" and free: "wchan_free w s" and wk: "wakeable w s" and out: "outer w A"
  obtains s' where "wchan_wakeone w cur s = Some s'" and "wchan_wakeone w cur (locked A cur c th s) = Some (locked A cur c th s')"
    and "thr s' = thr s" and "irq s' = irq s" and "lks s' = lks s"
proof -
  let ?th = "th\<lparr>t_iplhigh_count := t_iplhigh_count th + 1\<rparr>"
  note run' = running_locked [OF run, of A]
  have free': "wchan_free w (locked A cur c th s)" by (rule wchan_free_locked [OF free out])
  note f = free [unfolded wchan_free_def] free' [unfolded wchan_free_def]
  consider "threadlist_remhead (Waiters w) (tls s) = Some (None, tls s)"
    | t x tt d x' where "threadlist_remhead (Waiters w) (tls s) = Some (Some t, x)" "thr s t = Some tt" "t_cpu tt = Some d" "d < length (allcpus s)"
        "threadlist_addtail (Runqueue d) t x = Some x'"
    using wk unfolding wakeable_def by blast
  then show thesis
  proof cases
    case 1
    then show thesis using that [of s] wakeone_none_eq [OF run] wakeone_none_eq [OF run'] f by simp
  next
    case 2
    obtain tt' where tt': "thr (locked A cur c th s) t = Some tt'" "t_cpu tt' = Some d"
      using 2(2,3) running_cur(2) [OF run] by (cases "t = cur") (auto simp: locked_def)
    have "wchan_wakeone w cur s = Some (made_runnable d x' s)" using wakeone_eq [OF run _ _ _ 2] f by simp
    moreover have "wchan_wakeone w cur (locked A cur c th s) = Some (locked A cur c th (made_runnable d x' s))"
      using wakeone_eq [OF run' _ _ _ _ tt'] 2 f by (simp add: made_runnable_locked)
    ultimately show thesis using that by simp
  qed
qed

lemma release_outer:
  assumes run: "running cur c th s" and A: "A \<noteq> B" and free: "lks s A = unlocked"
  shows "spinlock_release A cur (locked B cur c (th\<lparr>t_iplhigh_count := t_iplhigh_count th + 1\<rparr>) (locked A cur c th s)) = Some (locked B cur c th s)"
  by (subst spinlock_release_eq [where th = "th\<lparr>t_iplhigh_count := t_iplhigh_count th + 2\<rparr>" and c = c])
    (use run A free in \<open>auto simp: running_def locked_def put_thr_def put_lk_def fun_eq_iff intro!: sched.equality\<close>)

lemma release_cur:
  fixes s :: sched
  assumes "running cur c th s" and "lks s A = unlocked"
  shows "spinlock_release A cur (locked A cur c th s) = Some s"
  using release_locked [OF assms refl refl refl] unfolding locked_restore .

lemma guarded_wake:
  assumes run: "running cur c th s" and free: "wchan_free w s" "lks s A = unlocked" and wk: "wakeable w s" and out: "outer w A"
  shows "do { s1 \<leftarrow> spinlock_acquire A cur s; s2 \<leftarrow> wchan_wakeone w cur s1; spinlock_release A cur s2 } = wchan_wakeone w cur s"
proof -
  obtain s' where s': "wchan_wakeone w cur s = Some s'" "wchan_wakeone w cur (locked A cur c th s) = Some (locked A cur c th s')"
      "thr s' = thr s" "irq s' = irq s" "lks s' = lks s"
    by (rule wakeone_locked [OF run free(1) wk out])
  have "running cur c th s'" using run s'(3,4) by (simp add: running_def)
  then show ?thesis using s' acquire_locked [OF run free(2)] release_cur [of cur c th s' A] free(2) by simp
qed

lemma guarded_sleep:
  assumes run: "running cur c th s" and free: "lks s (Lk_wchan w) = unlocked" "lks s A = unlocked" and A: "A \<noteq> Lk_wchan w"
  shows "do { s1 \<leftarrow> spinlock_acquire A cur s; s2 \<leftarrow> wchan_lock w cur s1; s3 \<leftarrow> spinlock_release A cur s2; wchan_sleep w cur s3 } =
    lock_and_sleep w cur s"
proof -
  have "lks (locked A cur c th s) (Lk_wchan w) = unlocked" using free A by (auto simp: locked_def)
  then show ?thesis
    using acquire_locked [OF run free(2)] acquire_locked [OF run free(1)] acquire_locked [OF running_locked [OF run, of A]]
      release_outer [OF run A free(2)] by (simp add: lock_and_sleep_def wchan_lock_def)
qed

text \<open>What a caller of the primitives knows of the current thread and of a wait channel.\<close>

definition at :: "(tlist \<Rightarrow> tid list) \<Rightarrow> tid \<Rightarrow> cpuid \<Rightarrow> u32 \<Rightarrow> sched \<Rightarrow> bool" where
  "at q cur c w s \<longleftrightarrow> sinv {} None s q \<and> runs_on s cur c \<and> wc_name s w \<noteq> None"

lemma atE:
  assumes "at q cur c w s"
  obtains th where "running cur c th s" and "wchan_free w s" and "wakeable w s" and "\<And>A. lks s A = unlocked"
proof -
  have a: "sinv {} None s q" "runs_on s cur c" "wc_name s w \<noteq> None" using assms by (simp_all add: at_def)
  obtain th where "running cur c th s" by (rule sinv_cur [OF a(1,2)])
  then show thesis using that sinv_lks(1) [OF a(1)] sinv_wakeable [OF a(1,3)] by (simp add: wchan_free_def)
qed

lemma at_wake: "at q cur c w s \<Longrightarrow> outer w A \<Longrightarrow>
    do { s1 \<leftarrow> spinlock_acquire A cur s; s2 \<leftarrow> wchan_wakeone w cur s1; spinlock_release A cur s2 } = wchan_wakeone w cur s"
  by (erule atE) (rule guarded_wake)

lemma at_sleep: "at q cur c w s \<Longrightarrow> outer w A \<Longrightarrow>
    do { s1 \<leftarrow> spinlock_acquire A cur s; s2 \<leftarrow> wchan_lock w cur s1; s3 \<leftarrow> spinlock_release A cur s2; wchan_sleep w cur s3 } = lock_and_sleep w cur s"
  by (erule atE, rule guarded_sleep) (simp_all add: wchan_free_def outer_def)

lemma at_noop:
  assumes "at q cur c w s"
  obtains s1 where "spinlock_acquire A cur s = Some s1" and "spinlock_release A cur s1 = Some s"
  using assms by (rule atE) (use that acquire_locked release_cur in blast)

lemma outer_lk [simp]: "outer w (Lk_sem m)" "outer w (Lk_lock k)" "outer w (Lk_wchan v) \<longleftrightarrow> v \<noteq> w"
  by (auto simp: outer_def)

subsection \<open>The primitives as operations on the lists\<close>

definition with_count :: "u32 \<Rightarrow> semaphore \<Rightarrow> int \<Rightarrow> synch \<Rightarrow> synch" where
  "with_count m x n y = y\<lparr>sems := (sems y)(m \<mapsto> x\<lparr>sem_count := n\<rparr>)\<rparr>"

definition with_owner :: "u32 \<Rightarrow> lock \<Rightarrow> tid \<Rightarrow> synch \<Rightarrow> synch" where
  "with_owner k x t y = y\<lparr>slocks := (slocks y)(k \<mapsto> x\<lparr>lk_owner := t\<rparr>)\<rparr>"

definition then_sleep :: "u32 \<Rightarrow> tid \<Rightarrow> synch \<Rightarrow> (outcome \<times> synch) kres" where
  "then_sleep w cur y = do { (r, s) \<leftarrow> lock_and_sleep w cur (sch y); Some (Slept r, y\<lparr>sch := s\<rparr>) }"

lemma P_again_eq:
  assumes x: "sems y m = Some x" and a: "at q cur c (sem_wchan x) (sch y)"
  shows "P_again m cur y = (if sem_count x = 0 then then_sleep (sem_wchan x) cur y
    else if sem_count x > 0 then Some (Went_on, with_count m x (sem_count x - 1) y) else None)"
proof (cases "sem_count x = 0")
  case True
  then show ?thesis
    unfolding then_sleep_def at_sleep [OF a outer_lk(1) [of _ m], symmetric]
    using x by (cases "spinlock_acquire (Lk_sem m) cur (sch y)") (simp_all add: P_again_def P_loop_def on_sch_def Option.bind_assoc split_beta)
next
  case False
  obtain s1 where "spinlock_acquire (Lk_sem m) cur (sch y) = Some s1" "spinlock_release (Lk_sem m) cur s1 = Some (sch y)" by (rule at_noop [OF a])
  then show ?thesis using x False by (simp add: P_again_def P_loop_def on_sch_def with_count_def kassert_def)
qed

lemma V_eq:
  assumes x: "sems y m = Some x" and a: "at q cur c (sem_wchan x) (sch y)" and m: "m \<noteq> 0" and n: "0 < int32 (sem_count x + 1)"
  shows "V m cur y = do { s \<leftarrow> wchan_wakeone (sem_wchan x) cur (sch y); Some ((with_count m x (int32 (sem_count x + 1)) y)\<lparr>sch := s\<rparr>) }"
  unfolding at_wake [OF a outer_lk(1) [of _ m], symmetric]
  using x m n by (cases "spinlock_acquire (Lk_sem m) cur (sch y)") (simp_all add: V_def on_sch_def Option.bind_assoc with_count_def Let_def)

lemma lock_again_eq:
  assumes x: "slocks y k = Some x" and a: "at q cur c (lk_wchan x) (sch y)"
  shows "lock_again k cur y = (if lk_owner x \<noteq> 0 then then_sleep (lk_wchan x) cur y else Some (Went_on, with_owner k x cur y))"
proof (cases "lk_owner x = 0")
  case False
  then show ?thesis
    unfolding then_sleep_def at_sleep [OF a outer_lk(2) [of _ k], symmetric]
    using x by (cases "spinlock_acquire (Lk_lock k) cur (sch y)") (simp_all add: lock_again_def lock_loop_def on_sch_def Option.bind_assoc split_beta)
next
  case True
  obtain s1 where "spinlock_acquire (Lk_lock k) cur (sch y) = Some s1" "spinlock_release (Lk_lock k) cur s1 = Some (sch y)" by (rule at_noop [OF a])
  then show ?thesis using x True by (simp add: lock_again_def lock_loop_def on_sch_def with_owner_def)
qed

lemma lock_release_eq:
  assumes x: "slocks y k = Some x" and a: "at q cur c (lk_wchan x) (sch y)" and k: "k \<noteq> 0" and mine: "lk_owner x = cur"
  shows "lock_release k cur y = do { s \<leftarrow> wchan_wakeone (lk_wchan x) cur (sch y); Some ((with_owner k x 0 y)\<lparr>sch := s\<rparr>) }"
  unfolding at_wake [OF a outer_lk(2) [of _ k], symmetric]
  using x k mine by (cases "spinlock_acquire (Lk_lock k) cur (sch y)")
    (simp_all add: lock_release_def lock_do_i_hold_def on_sch_def Option.bind_assoc with_owner_def)

text \<open>\<open>cv_wait\<close> holds the spinlock of the wait channel while it releases the lock.\<close>

lemma cv_wait_eq:
  assumes v: "cvs y v = Some z" "v \<noteq> 0" and x: "slocks y k = Some x" "k \<noteq> 0" "lk_owner x = cur" and w: "cv_wchan z \<noteq> lk_wchan x"
    and a: "at q cur c (lk_wchan x) (sch y)" and s: "wchan_wakeone (lk_wchan x) cur (sch y) = Some s"
  shows "cv_wait v k cur y = then_sleep (cv_wchan z) cur ((with_owner k x 0 y)\<lparr>sch := s\<rparr>)"
proof -
  obtain th where th: "running cur c th (sch y)" "wchan_free (lk_wchan x) (sch y)" "wakeable (lk_wchan x) (sch y)" "\<And>A. lks (sch y) A = unlocked"
    using a by (rule atE) blast
  let ?th = "th\<lparr>t_iplhigh_count := t_iplhigh_count th + 1\<rparr>" and ?l = "\<lambda>s. locked (Lk_wchan (cv_wchan z)) cur c th s"
  have out: "outer (lk_wchan x) (Lk_wchan (cv_wchan z))" using w by simp
  obtain s' where s': "wchan_wakeone (lk_wchan x) cur (sch y) = Some s'" "wchan_wakeone (lk_wchan x) cur (?l (sch y)) = Some (?l s')"
      "thr s' = thr (sch y)" "irq s' = irq (sch y)" "lks s' = lks (sch y)"
    by (rule wakeone_locked [OF th(1,2,3) out])
  have "lks (?l (sch y)) (Lk_lock k) = unlocked" using th(4) by (simp add: locked_def)
  from guarded_wake [OF running_locked [OF th(1)] wchan_free_locked [OF th(2) out] this wakeable_locked [OF th(1,3)]]
  have g: "do { s1 \<leftarrow> spinlock_acquire (Lk_lock k) cur (?l (sch y)); s2 \<leftarrow> wchan_wakeone (lk_wchan x) cur s1; spinlock_release (Lk_lock k) cur s2 } = Some (?l s)"
    using s' s by simp
  have rel: "lock_release k cur (y\<lparr>sch := ?l (sch y)\<rparr>) = Some ((with_owner k x 0 y)\<lparr>sch := ?l s\<rparr>)"
    using g x by (cases "spinlock_acquire (Lk_lock k) cur (?l (sch y))")
      (auto simp: lock_release_def lock_do_i_hold_def on_sch_def with_owner_def bind_eq_Some_conv)
  have "spinlock_acquire (Lk_wchan (cv_wchan z)) cur s = Some (?l s)"
    by (rule acquire_locked) (use s s' th(1,4) in \<open>auto simp: running_def\<close>)
  then show ?thesis
    using v x(2) rel acquire_locked [OF th(1) th(4)]
    by (simp add: cv_wait_def wchan_lock_def on_sch_def then_sleep_def lock_and_sleep_def with_owner_def)
qed

subsection \<open>Threads that call the primitives\<close>

text \<open>
  What a thread is in the middle of: a \<open>P\<close>, a \<open>lock_acquire\<close>, or a \<open>cv_wait\<close> in which it has not yet
  asked for the lock again.  The other fields record the history: the calls of \<open>P\<close> and \<open>V\<close> that returned
  and the threads that returned from \<open>lock_acquire\<close> or \<open>cv_wait\<close> and have not released the lock.
\<close>

datatype pc = Free | In_P u32 | In_acquire u32 | In_wait u32 u32

record ssys =
  sy :: synch
  pcs :: "tid \<Rightarrow> pc"
  inside :: "u32 \<Rightarrow> tid set"
  taken :: "u32 \<Rightarrow> nat"
  given :: "u32 \<Rightarrow> nat"

datatype call = Call_P u32 | Call_V u32 | Call_acquire u32 | Call_release u32 | Call_wait u32 u32 | Call_signal u32 u32 | Call_broadcast u32 u32 |
  Resume | Sched sop

definition after_P :: "u32 \<Rightarrow> tid \<Rightarrow> outcome \<times> synch \<Rightarrow> ssys \<Rightarrow> ssys" where
  "after_P m cur r g = (case r of
     (Went_on, y) \<Rightarrow> g\<lparr>sy := y, pcs := (pcs g)(cur := Free), taken := (taken g)(m := taken g m + 1)\<rparr>
   | (Slept _, y) \<Rightarrow> g\<lparr>sy := y, pcs := (pcs g)(cur := In_P m)\<rparr>)"

definition after_acquire :: "u32 \<Rightarrow> tid \<Rightarrow> outcome \<times> synch \<Rightarrow> ssys \<Rightarrow> ssys" where
  "after_acquire k cur r g = (case r of
     (Went_on, y) \<Rightarrow> g\<lparr>sy := y, pcs := (pcs g)(cur := Free), inside := (inside g)(k := insert cur (inside g k))\<rparr>
   | (Slept _, y) \<Rightarrow> g\<lparr>sy := y, pcs := (pcs g)(cur := In_acquire k)\<rparr>)"

definition curt :: "cpuid \<Rightarrow> ssys \<Rightarrow> tid" where
  "curt c g = cur_of c (sch (sy g))"

fun exec :: "cpuid \<Rightarrow> call \<Rightarrow> ssys \<Rightarrow> ssys kres" where
  "exec c (Call_P m) g = do { r \<leftarrow> P m (curt c g) (sy g); Some (after_P m (curt c g) r g) }"
| "exec c (Call_V m) g = do { y \<leftarrow> V m (curt c g) (sy g); Some (g\<lparr>sy := y, given := (given g)(m := given g m + 1)\<rparr>) }"
| "exec c (Call_acquire k) g = do { r \<leftarrow> lock_acquire k (curt c g) (sy g); Some (after_acquire k (curt c g) r g) }"
| "exec c (Call_release k) g = do { y \<leftarrow> lock_release k (curt c g) (sy g); Some (g\<lparr>sy := y, inside := (inside g)(k := inside g k - {curt c g})\<rparr>) }"
| "exec c (Call_wait v k) g = do {
     (r, y) \<leftarrow> cv_wait v k (curt c g) (sy g);
     Some (g\<lparr>inside := (inside g)(k := inside g k - {curt c g}), sy := y, pcs := (pcs g)(curt c g := In_wait v k)\<rparr>) }"
| "exec c (Call_signal v k) g = do { y \<leftarrow> cv_signal v k (curt c g) (sy g); Some (g\<lparr>sy := y\<rparr>) }"
| "exec c (Call_broadcast v k) g = do { y \<leftarrow> cv_broadcast v k (curt c g) (sy g); Some (g\<lparr>sy := y\<rparr>) }"
| "exec c Resume g = (case pcs g (curt c g) of
     Free \<Rightarrow> Some g
   | In_P m \<Rightarrow> do { r \<leftarrow> P_again m (curt c g) (sy g); Some (after_P m (curt c g) r g) }
   | In_acquire k \<Rightarrow> do { r \<leftarrow> lock_again k (curt c g) (sy g); Some (after_acquire k (curt c g) r g) }
   | In_wait v k \<Rightarrow> do { r \<leftarrow> lock_acquire k (curt c g) (sy g); Some (after_acquire k (curt c g) r g) })"
| "exec c (Sched op) g = do { (r, s) \<leftarrow> run_op c op (sch (sy g)); Some (g\<lparr>sy := (sy g)\<lparr>sch := s\<rparr>\<rparr>) }"

text \<open>The objects with a wait channel, and the threads inside a call on one.\<close>

datatype obj = O_sem u32 | O_lock u32 | O_cv u32

fun chan :: "synch \<Rightarrow> obj \<Rightarrow> u32 option" where
  "chan y (O_sem m) = map_option sem_wchan (sems y m)"
| "chan y (O_lock k) = map_option lk_wchan (slocks y k)"
| "chan y (O_cv v) = map_option cv_wchan (cvs y v)"

fun waits :: "pc \<Rightarrow> obj \<Rightarrow> bool" where
  "waits (In_P m) (O_sem m') = (m = m')"
| "waits (In_acquire k) (O_lock k') = (k = k')"
| "waits (In_wait v k) (O_cv v') = (v = v')"
| "waits _ _ = False"

definition waiting :: "(tid \<Rightarrow> pc) \<Rightarrow> obj \<Rightarrow> tid set" where
  "waiting f obj = {t. waits (f t) obj}"

text \<open>
  When a call is in order.  \<open>V\<close> may come from an interrupt handler; the others are calls of the thread
  that runs, outside interrupts and outside another call.  A thread exits with no lock held.
\<close>

definition awake :: "cpuid \<Rightarrow> ssys \<Rightarrow> bool" where
  "awake c g \<longleftrightarrow> c < length (allcpus (sch (sy g))) \<and> \<not> c_isidle (allcpus (sch (sy g)) ! c) \<and>
     (\<forall>th. thr (sch (sy g)) (curt c g) = Some th \<longrightarrow> \<not> t_in_interrupt th)"

definition holds :: "ssys \<Rightarrow> u32 \<Rightarrow> tid \<Rightarrow> bool" where
  "holds g k t \<longleftrightarrow> (\<exists>x. slocks (sy g) k = Some x \<and> lk_owner x = t)"

fun enabled :: "cpuid \<Rightarrow> call \<Rightarrow> ssys \<Rightarrow> bool" where
  "enabled c (Call_P m) g \<longleftrightarrow> awake c g \<and> pcs g (curt c g) = Free \<and> sems (sy g) m \<noteq> None"
| "enabled c (Call_V m) g \<longleftrightarrow> c < length (allcpus (sch (sy g))) \<and> (\<exists>x. sems (sy g) m = Some x \<and> sem_count x + 1 < 2 ^ 31)"
| "enabled c (Call_acquire k) g \<longleftrightarrow> awake c g \<and> pcs g (curt c g) = Free \<and> slocks (sy g) k \<noteq> None \<and> \<not> holds g k (curt c g)"
| "enabled c (Call_release k) g \<longleftrightarrow> awake c g \<and> pcs g (curt c g) = Free \<and> holds g k (curt c g)"
| "enabled c (Call_wait v k) g \<longleftrightarrow> awake c g \<and> pcs g (curt c g) = Free \<and> cvs (sy g) v \<noteq> None \<and> holds g k (curt c g)"
| "enabled c (Call_signal v k) g \<longleftrightarrow> awake c g \<and> pcs g (curt c g) = Free \<and> cvs (sy g) v \<noteq> None \<and> holds g k (curt c g)"
| "enabled c (Call_broadcast v k) g \<longleftrightarrow> awake c g \<and> pcs g (curt c g) = Free \<and> cvs (sy g) v \<noteq> None \<and> holds g k (curt c g)"
| "enabled c Resume g \<longleftrightarrow> awake c g"
| "enabled c (Sched op) g \<longleftrightarrow> c < length (allcpus (sch (sy g))) \<and> op_ok c op (sch (sy g)) \<and> (\<forall>obj w. chan (sy g) obj = Some w \<longrightarrow> w \<notin> touches op) \<and>
     (op = Op_exit \<longrightarrow> pcs g (curt c g) = Free \<and> (\<forall>k. curt c g \<notin> inside g k)) \<and> (\<forall>w. op = Op_sleep w \<longrightarrow> pcs g (curt c g) = Free)"

inductive sync_reach :: "ssys \<Rightarrow> ssys \<Rightarrow> bool" where
  sync_here: "sync_reach g g"
| sync_next: "sync_reach g g1 \<Longrightarrow> enabled c call g1 \<Longrightarrow> exec c call g1 = Some g2 \<Longrightarrow> sync_reach g g2"

subsection \<open>The invariant\<close>

text \<open>
  Who waits on the channel of an object is inside a call on it.  A semaphore counts the calls.  While
  threads sleep on it, its count is at most the number of threads that were woken and have not yet
  continued.  A lock has as its holder the only thread inside; while threads sleep on it, it is held, or some
  thread was woken and will ask again.
\<close>

fun good :: "(u32 \<Rightarrow> int) \<Rightarrow> ssys \<Rightarrow> obj \<Rightarrow> tid list \<Rightarrow> bool" where
  "good n0 g (O_sem m) ws \<longleftrightarrow> (\<forall>x. sems (sy g) m = Some x \<longrightarrow> 0 \<le> sem_count x \<and> sem_count x + int (taken g m) = n0 m + int (given g m) \<and>
     (ws \<noteq> [] \<longrightarrow> sem_count x \<le> int (card (waiting (pcs g) (O_sem m) - set ws))))"
| "good n0 g (O_lock k) ws \<longleftrightarrow> (\<forall>x. slocks (sy g) k = Some x \<longrightarrow> inside g k = (if lk_owner x = 0 then {} else {lk_owner x}) \<and>
     (ws \<noteq> [] \<longrightarrow> lk_owner x \<noteq> 0 \<or> waiting (pcs g) (O_lock k) - set ws \<noteq> {}))"
| "good n0 g (O_cv v) ws \<longleftrightarrow> True"

definition obj_ok :: "(u32 \<Rightarrow> int) \<Rightarrow> ssys \<Rightarrow> (tlist \<Rightarrow> tid list) \<Rightarrow> obj \<Rightarrow> bool" where
  "obj_ok n0 g q obj \<longleftrightarrow> (\<forall>w. chan (sy g) obj = Some w \<longrightarrow> wc_name (sch (sy g)) w \<noteq> None \<and>
     set (q (Waiters w)) \<subseteq> waiting (pcs g) obj \<and> good n0 g obj (q (Waiters w)))"

fun pc_ok :: "ssys \<Rightarrow> tid \<Rightarrow> pc \<Rightarrow> bool" where
  "pc_ok g t Free \<longleftrightarrow> True"
| "pc_ok g t (In_P m) \<longleftrightarrow> chan (sy g) (O_sem m) \<noteq> None"
| "pc_ok g t (In_acquire k) \<longleftrightarrow> chan (sy g) (O_lock k) \<noteq> None"
| "pc_ok g t (In_wait v k) \<longleftrightarrow> chan (sy g) (O_lock k) \<noteq> None \<and> t \<notin> inside g k"

definition engaged :: "ssys \<Rightarrow> tid \<Rightarrow> bool" where
  "engaged g t \<longleftrightarrow> pcs g t \<noteq> Free \<or> (\<exists>k. chan (sy g) (O_lock k) \<noteq> None \<and> t \<in> inside g k)"

definition objs_ok :: "synch \<Rightarrow> bool" where
  "objs_ok y \<longleftrightarrow> chan y (O_sem 0) = None \<and> chan y (O_lock 0) = None \<and> chan y (O_cv 0) = None \<and>
     (\<forall>p p' w. chan y p = Some w \<longrightarrow> chan y p' = Some w \<longrightarrow> p = p')"

definition sync_inv :: "(u32 \<rightharpoonup> nat) \<Rightarrow> (u32 \<Rightarrow> int) \<Rightarrow> ssys \<Rightarrow> (tlist \<Rightarrow> tid list) \<Rightarrow> bool" where
  "sync_inv X n0 g q \<longleftrightarrow> sched_ok X (sch (sy g)) q \<and> objs_ok (sy g) \<and> (\<forall>p. obj_ok n0 g q p) \<and> finite {t. pcs g t \<noteq> Free} \<and>
     (\<forall>t. engaged g t \<longrightarrow> live (sch (sy g)) q t) \<and> (\<forall>t. pc_ok g t (pcs g t))"

lemma sync_invD:
  assumes "sync_inv X n0 g q"
  shows "sched_ok X (sch (sy g)) q" and "sinv {} None (sch (sy g)) q" and "objs_ok (sy g)" and "\<And>p. obj_ok n0 g q p" and "finite {t. pcs g t \<noteq> Free}"
    and "\<And>t. engaged g t \<Longrightarrow> live (sch (sy g)) q t" and "\<And>t. pc_ok g t (pcs g t)"
  using assms by (auto simp: sync_inv_def sched_ok_def)

lemma sync_chan:
  assumes "sync_inv X n0 g q" and "chan (sy g) p = Some w"
  shows "wc_name (sch (sy g)) w \<noteq> None" and "set (q (Waiters w)) \<subseteq> waiting (pcs g) p" and "good n0 g p (q (Waiters w))"
  using sync_invD(4) [OF assms(1), of p] assms(2) by (simp_all add: obj_ok_def)

lemma finite_waiting: "finite {t. pcs g t \<noteq> Free} \<Longrightarrow> finite (waiting (pcs g) p)"
  by (rule finite_subset [rotated]) (auto simp: waiting_def)

lemma sync_frame:
  assumes inv: "sync_inv X n0 g q" and ok: "sched_ok X (sch (sy g')) q'" and lv: "leaves W D (sch (sy g)) q (sch (sy g')) q'"
    and ch: "\<And>p. chan (sy g') p = chan (sy g) p" and pcs: "\<And>t. t \<noteq> cur \<Longrightarrow> pcs g' t = pcs g t"
    and other: "\<And>p. p \<notin> Os \<Longrightarrow> good n0 g' p = good n0 g p \<and> waiting (pcs g') p = waiting (pcs g) p"
    and W: "\<And>p w. p \<notin> Os \<Longrightarrow> chan (sy g) p = Some w \<Longrightarrow> w \<notin> W"
    and touched: "\<And>p w. p \<in> Os \<Longrightarrow> chan (sy g) p = Some w \<Longrightarrow> set (q' (Waiters w)) \<subseteq> waiting (pcs g') p \<and> good n0 g' p (q' (Waiters w))"
    and eng: "\<And>t. engaged g' t \<Longrightarrow> live (sch (sy g)) q t \<and> t \<notin> D" and pc: "\<And>t. pc_ok g' t (pcs g' t)"
  shows "sync_inv X n0 g' q'"
  unfolding sync_inv_def
proof (intro conjI allI impI)
  show "objs_ok (sy g')" using sync_invD(3) [OF inv] by (simp add: objs_ok_def ch del: chan.simps)
  show "obj_ok n0 g' q' p" for p
    using sync_invD(4) [OF inv, of p] lv other [of p] W [of p] touched [of p] by (cases "p \<in> Os") (auto simp: obj_ok_def leaves_def ch)
  have "{t. pcs g' t \<noteq> Free} \<subseteq> insert cur {t. pcs g t \<noteq> Free}" using pcs by auto
  then show "finite {t. pcs g' t \<noteq> Free}" using sync_invD(5) [OF inv] finite_subset by blast
  show "live (sch (sy g')) q' t" if "engaged g' t" for t using eng [OF that] lv by (simp add: leaves_def)
qed (use ok pc in simp_all)

lemma sync_at:
  assumes inv: "sync_inv X n0 g q" and c: "c < length (allcpus (sch (sy g)))" and w: "chan (sy g) p = Some w"
  shows "at q (curt c g) c w (sch (sy g))"
  using sync_invD(2) [OF inv] sync_chan(1) [OF inv w] c by (simp add: at_def runs_on_def curt_def cur_of_def)

lemma awake_cur:
  assumes inv: "sync_inv X n0 g q" and aw: "awake c g"
  obtains th where "c < length (allcpus (sch (sy g)))" and "runs_on (sch (sy g)) (curt c g) c" and "\<not> c_isidle (allcpus (sch (sy g)) ! c)"
    and "thr (sch (sy g)) (curt c g) = Some th" and "\<not> t_in_interrupt th" and "curt c g \<noteq> 0" and "live (sch (sy g)) q (curt c g)"
    and "\<And>w. wc_name (sch (sy g)) w \<noteq> None \<Longrightarrow> curt c g \<notin> set (q (Waiters w))"
proof -
  let ?s = "sch (sy g)" and ?cur = "curt c g"
  have c: "c < length (allcpus ?s)" "\<not> c_isidle (allcpus ?s ! c)" using aw by (simp_all add: awake_def)
  have on: "runs_on ?s ?cur c" using c by (simp add: runs_on_def curt_def cur_of_def)
  obtain th where th: "running ?cur c th ?s" "thr ?s ?cur = Some th" "\<not> on_list {} ?s q ?cur"
    by (rule sinv_cur [OF sync_invD(2) [OF inv] on]) (use c in auto)
  have "?cur \<notin> set (q (Waiters w))" if "wc_name ?s w \<noteq> None" for w using th(3) in_lists(3) [of ?s w] that by (auto simp: on_list_def)
  moreover have "?cur \<notin> set (q (Zombies d))" if "d < length (allcpus ?s)" for d using th(3) in_lists(2) [OF that] by (auto simp: on_list_def)
  ultimately show thesis using that [OF c(1) on c(2) th(2)] aw th by (auto simp: awake_def live_def running_def)
qed

subsection \<open>Every call keeps the invariant\<close>

lemma quiet_ok: "sched_ok X s q \<Longrightarrow> sinv {} None s' q' \<Longrightarrow> quiet s s' \<Longrightarrow> sched_ok X s' q'"
  unfolding sched_ok_def using same_res_inv [OF _ quiet_res] proc_inv_res [OF _ quiet_res] by blast

lemma quiet_leaves:
  "quiet s s' \<Longrightarrow> (\<And>w. q' (Waiters w) = p (Waiters w)) \<Longrightarrow> (\<And>d. q' (Zombies d) = p (Zombies d)) \<Longrightarrow> leaves {} {} s p s' q'"
  by (simp add: leaves_def live_def quiet_def same_cpus_def)

lemma wake_result:
  assumes ok: "sched_ok X s q" and at: "at q cur c w s"
  obtains s' q' where "wchan_wakeone w cur s = Some s'" and "sched_ok X s' q'" and "quiet s s'"
    and "leaves {} {} s (q(Waiters w := tl (q (Waiters w)))) s' q'"
proof -
  have a: "sinv {} None s q" "runs_on s cur c" "wc_name s w \<noteq> None" using at by (simp_all add: at_def)
  show thesis
  proof (rule wakeone_ok [OF a], goal_cases)
    case 1
    then show ?case using ok that [of s q] by (simp add: fun_upd_idem)
  next
    case (2 t ts tt d s')
    then show ?case using quiet_ok [OF ok 2(5,6)] quiet_leaves [OF 2(6)] that [of s' "q(Waiters w := ts, Runqueue d := q (Runqueue d) @ [t])"] by simp
  qed
qed

lemma wakeall_result:
  assumes ok: "sched_ok X s q" and at: "at q cur c w s"
  obtains s' q' where "wchan_wakeall w cur s = Some s'" and "sched_ok X s' q'" and "leaves {} {} s (q(Waiters w := [])) s' q'"
proof -
  have a: "sinv {} None s q" "runs_on s cur c" "wc_name s w \<noteq> None" using at by (simp_all add: at_def)
  obtain s' where s': "wchan_wakeall w cur s = Some s'" "sinv {} None s' (woken s (Waiters w) (q (Waiters w)) q)" "quiet s s'" by (rule wakeall_ok [OF a])
  show thesis by (rule that [OF s'(1) quiet_ok [OF ok s'(2,3)] quiet_leaves [OF s'(3)]]) (auto simp: woken_def)
qed

lemma then_sleep_result:
  assumes ok: "sched_ok X (sch y) q" and on: "runs_on (sch y) cur c" and th: "thr (sch y) cur = Some th"
    and busy: "\<not> c_isidle (allcpus (sch y) ! c)" "\<not> t_in_interrupt th" and w: "wc_name (sch y) w \<noteq> None"
  obtains r s' q' where "then_sleep w cur y = Some (Slept r, y\<lparr>sch := s'\<rparr>)" and "sched_ok X s' q'"
    and "leaves {} {} (sch y) (q(Waiters w := q (Waiters w) @ [cur])) s' q'"
  using sleep_result [OF ok on th busy w, of "{}"] that unfolding op_result_def then_sleep_def by auto

lemma leaves_at: "leaves {} {} s (q(Waiters w := ws)) s' q' \<Longrightarrow> q' (Waiters w) = ws" "leaves {} {} s (q(Waiters w := ws)) s' q' \<Longrightarrow> leaves {w} {} s q s' q'"
  by (simp_all add: leaves_def live_def)

text \<open>Who waits where.\<close>

definition waiters :: "(tlist \<Rightarrow> tid list) \<Rightarrow> u32 \<Rightarrow> tid list" where
  "waiters q w = q (Waiters w)"

lemma leaves_waiters: "leaves {} {} s (q(Waiters w := ws)) s' q' \<Longrightarrow> waiters q' = (waiters q)(w := ws)"
  by (auto simp: leaves_def waiters_def fun_eq_iff)

lemma chan_apart: "objs_ok y \<Longrightarrow> chan y p = Some w \<Longrightarrow> chan y p' = Some w' \<Longrightarrow> p' \<noteq> p \<Longrightarrow> w' \<noteq> w"
  by (auto simp: objs_ok_def)

text \<open>A call on one object by the current thread, which changes no other object.\<close>

lemma sync_call:
  assumes inv: "sync_inv X n0 g q" and ok: "sched_ok X (sch (sy g')) q'" and lv: "leaves {w} {} (sch (sy g)) q (sch (sy g')) q'"
    and w: "chan (sy g) p = Some w" and ch: "\<And>p. chan (sy g') p = chan (sy g) p" and pcs: "\<And>t. t \<noteq> cur \<Longrightarrow> pcs g' t = pcs g t"
    and other: "\<And>p'. p' \<noteq> p \<Longrightarrow> p' \<noteq> r \<Longrightarrow> good n0 g' p' = good n0 g p' \<and> waiting (pcs g') p' = waiting (pcs g) p'"
    and r: "\<And>v. r \<noteq> p \<Longrightarrow> chan (sy g) r = Some v \<Longrightarrow> set (q (Waiters v)) \<subseteq> waiting (pcs g') r \<and> good n0 g' r (q (Waiters v))"
    and touched: "set (q' (Waiters w)) \<subseteq> waiting (pcs g') p \<and> good n0 g' p (q' (Waiters w))"
    and eng: "\<And>t. engaged g' t \<Longrightarrow> engaged g t \<or> live (sch (sy g)) q t" and pc: "\<And>t. pc_ok g' t (pcs g' t)"
  shows "sync_inv X n0 g' q'"
proof (rule sync_frame [where Os = "{p, r}", OF inv ok lv ch pcs])
  show "engaged g' t \<Longrightarrow> live (sch (sy g)) q t \<and> t \<notin> {}" for t using eng [of t] sync_invD(6) [OF inv] by auto
  show "set (q' (Waiters v)) \<subseteq> waiting (pcs g') p' \<and> good n0 g' p' (q' (Waiters v))" if "p' \<in> {p, r}" "chan (sy g) p' = Some v" for p' v
  proof (cases "p' = p")
    case False
    then have "v \<noteq> w" using chan_apart [OF sync_invD(3) [OF inv] w that(2)] by simp
    then have "q' (Waiters v) = q (Waiters v)" using lv by (simp add: leaves_def)
    then show ?thesis using r False that by auto
  qed (use touched w that in auto)
  show "v \<notin> {w}" if "p' \<notin> {p, r}" "chan (sy g) p' = Some v" for p' v using chan_apart [OF sync_invD(3) [OF inv] w that(2)] that(1) by auto
qed (use other pc in auto)

fun same_obj :: "ssys \<Rightarrow> ssys \<Rightarrow> obj \<Rightarrow> bool" where
  "same_obj g g' (O_sem m) \<longleftrightarrow> sems (sy g') m = sems (sy g) m \<and> taken g' m = taken g m \<and> given g' m = given g m"
| "same_obj g g' (O_lock k) \<longleftrightarrow> slocks (sy g') k = slocks (sy g) k \<and> inside g' k = inside g k"
| "same_obj g g' (O_cv v) \<longleftrightarrow> True"

lemma same_good: "same_obj g g' p \<Longrightarrow> waiting (pcs g') p = waiting (pcs g) p \<Longrightarrow> good n0 g' p = good n0 g p"
  by (cases p) (auto simp: fun_eq_iff)

lemma waiting_upd: "waiting (f(t := p)) x = (if waits p x then insert t (waiting f x) else waiting f x - {t})"
  by (auto simp: waiting_def)

lemma waiting_off: "f t = Free \<Longrightarrow> waiting f p - {t} = waiting f p"
  by (auto simp: waiting_def)

lemma pc_ok_cong: "(\<And>p. chan (sy g') p = chan (sy g) p) \<Longrightarrow> inside g' = inside g \<Longrightarrow> pc_ok g' t x = pc_ok g t x"
  by (cases x) (simp_all del: chan.simps)

lemma card_without:
  assumes "finite A" and "n \<le> int (card (A - B))"
  shows "n - 1 \<le> int (card (A - {t} - B))"
proof -
  have "card (A - B) \<le> card (insert t (A - {t} - B))" by (rule card_mono) (use assms(1) in auto)
  also have "\<dots> \<le> Suc (card (A - {t} - B))" by (rule card_insert_le_m1) simp_all
  finally show ?thesis using assms(2) by simp
qed

lemma sync_distinct: "sync_inv X n0 g q \<Longrightarrow> chan (sy g) p = Some w \<Longrightarrow> distinct (q (Waiters w))"
  using tl_sys_distinct [OF sinvD(1) [OF sync_invD(2)]] in_lists(3) sync_chan(1) by metis

text \<open>The thread at the head of a channel is woken: it stays inside its call.\<close>

lemma woken_more:
  assumes "set ws \<subseteq> B" and "distinct ws" and "finite B" and "ws \<noteq> []"
  shows "card (B - set (tl ws)) = Suc (card (B - set ws))" and "hd ws \<in> B - set (tl ws)"
proof -
  have e: "B - set (tl ws) = insert (hd ws) (B - set ws)" using assms(1,2,4) by (cases ws) auto
  show "card (B - set (tl ws)) = Suc (card (B - set ws))" unfolding e using assms(3) hd_in_set [OF assms(4)] by simp
  show "hd ws \<in> B - set (tl ws)" unfolding e by simp
qed

lemma tl_subset: "set ws \<subseteq> B \<Longrightarrow> set (tl ws) \<subseteq> B"
  by (cases ws) auto

lemma V_step:
  assumes inv: "sync_inv X n0 g q" and c: "c < length (allcpus (sch (sy g)))" and x: "sems (sy g) m = Some x" "sem_count x + 1 < 2 ^ 31"
  shows "\<exists>y q'. V m (curt c g) (sy g) = Some y \<and> sync_inv X n0 (g\<lparr>sy := y, given := (given g)(m := given g m + 1)\<rparr>) q'"
proof -
  let ?cur = "curt c g" and ?w = "sem_wchan x"
  have w: "chan (sy g) (O_sem m) = Some ?w" using x by simp
  have m: "m \<noteq> 0" using sync_invD(3) [OF inv] x by (auto simp: objs_ok_def)
  have good: "0 \<le> sem_count x" "sem_count x + int (taken g m) = n0 m + int (given g m)"
      "q (Waiters ?w) \<noteq> [] \<Longrightarrow> sem_count x \<le> int (card (waiting (pcs g) (O_sem m) - set (q (Waiters ?w))))" "set (q (Waiters ?w)) \<subseteq> waiting (pcs g) (O_sem m)"
    using sync_chan(2,3) [OF inv w] x by simp_all
  have n: "int32 (sem_count x + 1) = sem_count x + 1" by (rule int32_id) (use good(1) x in simp_all)
  obtain s' q' where s': "wchan_wakeone ?w ?cur (sch (sy g)) = Some s'" "sched_ok X s' q'" "leaves {} {} (sch (sy g)) (q(Waiters ?w := tl (q (Waiters ?w)))) s' q'"
    by (rule wake_result [OF sync_invD(1) [OF inv] sync_at [OF inv c w]])
  let ?y = "(with_count m x (sem_count x + 1) (sy g))\<lparr>sch := s'\<rparr>"
  let ?g = "g\<lparr>sy := ?y, given := (given g)(m := given g m + 1)\<rparr>"
  have ch: "chan (sy ?g) p = chan (sy g) p" for p using x by (cases p) (simp_all add: with_count_def)
  have "sync_inv X n0 ?g q'"
  proof (rule sync_call [where r = "O_sem m" and cur = ?cur, OF inv _ _ w ch])
    note more = woken_more [OF good(4) sync_distinct [OF inv w] finite_waiting [OF sync_invD(5) [OF inv]]]
    have "sem_count x + 1 \<le> int (card (waiting (pcs g) (O_sem m) - set (tl (q (Waiters ?w)))))" if "tl (q (Waiters ?w)) \<noteq> []"
    proof -
      have "q (Waiters ?w) \<noteq> []" using that by auto
      then show ?thesis using more(1) good(3) by simp
    qed
    then show "set (q' (Waiters ?w)) \<subseteq> waiting (pcs ?g) (O_sem m) \<and> good n0 ?g (O_sem m) (q' (Waiters ?w))"
      using leaves_at(1) [OF s'(3)] good(1,2) tl_subset [OF good(4)] by (auto simp: with_count_def)
    show "good n0 ?g p' = good n0 g p' \<and> waiting (pcs ?g) p' = waiting (pcs g) p'" if "p' \<noteq> O_sem m" for p'
      using that by (intro conjI same_good) (cases p', auto simp: with_count_def)
    show "pc_ok ?g t (pcs ?g t)" for t using sync_invD(7) [OF inv, of t] pc_ok_cong [of ?g g t] ch by auto
  qed (use s' leaves_at(2) [OF s'(3)] in \<open>auto simp: engaged_def with_count_def split: if_splits\<close>)
  then show ?thesis using V_eq [OF x(1) sync_at [OF inv c w] m] n s'(1) good(1) by auto
qed

text \<open>The current thread goes to sleep on object \<open>p\<close>, to continue with \<open>pc'\<close>.\<close>

lemma sleep_step:
  assumes inv: "sync_inv X n0 g q" and aw: "awake c g" and w: "chan (sy g) p = Some w" and new: "\<And>p'. waits pc' p' \<longleftrightarrow> p' = p"
    and old: "\<And>p'. waits (pcs g (curt c g)) p' \<Longrightarrow> p' = p \<or> p' = O_cv v" and pc: "pc_ok g (curt c g) pc'"
    and good: "\<And>s'. good n0 (g\<lparr>sy := (sy g)\<lparr>sch := s'\<rparr>, pcs := (pcs g)(curt c g := pc')\<rparr>) p (q (Waiters w) @ [curt c g])"
  shows "\<exists>r s' q'. then_sleep w (curt c g) (sy g) = Some (Slept r, (sy g)\<lparr>sch := s'\<rparr>) \<and>
    sync_inv X n0 (g\<lparr>sy := (sy g)\<lparr>sch := s'\<rparr>, pcs := (pcs g)(curt c g := pc')\<rparr>) q' \<and> waiters q' = (waiters q)(w := waiters q w @ [curt c g])"
proof -
  let ?cur = "curt c g"
  obtain th where cur: "runs_on (sch (sy g)) ?cur c" "\<not> c_isidle (allcpus (sch (sy g)) ! c)" "thr (sch (sy g)) ?cur = Some th"
      "\<not> t_in_interrupt th" "live (sch (sy g)) q ?cur" "\<And>w. wc_name (sch (sy g)) w \<noteq> None \<Longrightarrow> curt c g \<notin> set (q (Waiters w))"
    using inv aw by (rule awake_cur) blast
  obtain r s' q' where s': "then_sleep w ?cur (sy g) = Some (Slept r, (sy g)\<lparr>sch := s'\<rparr>)" "sched_ok X s' q'"
      "leaves {} {} (sch (sy g)) (q(Waiters w := q (Waiters w) @ [?cur])) s' q'"
    by (rule then_sleep_result [OF sync_invD(1) [OF inv] cur(1,3,2,4) sync_chan(1) [OF inv w]])
  let ?g = "g\<lparr>sy := (sy g)\<lparr>sch := s'\<rparr>, pcs := (pcs g)(?cur := pc')\<rparr>"
  have ch: "chan (sy ?g) p = chan (sy g) p" for p by (cases p) simp_all
  have "sync_inv X n0 ?g q'"
  proof (rule sync_call [where r = "O_cv v" and cur = ?cur, OF inv _ _ w ch])
    show "set (q' (Waiters w)) \<subseteq> waiting (pcs ?g) p \<and> good n0 ?g p (q' (Waiters w))"
      using leaves_at(1) [OF s'(3)] good [of s'] sync_chan(2) [OF inv w] new by (auto simp: waiting_upd)
    show "good n0 ?g p' = good n0 g p' \<and> waiting (pcs ?g) p' = waiting (pcs g) p'" if "p' \<noteq> p" "p' \<noteq> O_cv v" for p'
    proof -
      have "waiting (pcs ?g) p' = waiting (pcs g) p'" using new [of p'] old [of p'] that by (auto simp: waiting_def)
      then show ?thesis by (intro conjI same_good) (cases p', auto)
    qed
    show "set (q (Waiters u)) \<subseteq> waiting (pcs ?g) (O_cv v) \<and> good n0 ?g (O_cv v) (q (Waiters u))" if "O_cv v \<noteq> p" "chan (sy g) (O_cv v) = Some u" for u
      using sync_chan(2) [OF inv that(2)] cur(6) [OF sync_chan(1) [OF inv that(2)]] new [of "O_cv v"] by (auto simp: waiting_upd)
    show "pc_ok ?g t (pcs ?g t)" for t using sync_invD(7) [OF inv, of t] pc_ok_cong [of ?g g t] ch pc by auto
  qed (use s' leaves_at(2) [OF s'(3)] cur(5) in \<open>auto simp: engaged_def split: if_splits\<close>)
  moreover have "waiters q' = (waiters q)(w := waiters q w @ [?cur])" using leaves_waiters [OF s'(3)] by (simp add: waiters_def)
  ultimately show ?thesis using s'(1) by blast
qed

lemma P_step:
  assumes inv: "sync_inv X n0 g q" and aw: "awake c g" and x: "sems (sy g) m = Some x" and pc: "pcs g (curt c g) \<in> {Free, In_P m}"
  shows "\<exists>r q'. P_again m (curt c g) (sy g) = Some r \<and> sync_inv X n0 (after_P m (curt c g) r g) q'"
proof -
  let ?cur = "curt c g" and ?w = "sem_wchan x"
  have w: "chan (sy g) (O_sem m) = Some ?w" using x by simp
  have cur: "c < length (allcpus (sch (sy g)))" "?cur \<notin> set (q (Waiters ?w))" using awake_cur [OF inv aw] sync_chan(1) [OF inv w] by blast+
  have good: "0 \<le> sem_count x" "sem_count x + int (taken g m) = n0 m + int (given g m)"
      "q (Waiters ?w) \<noteq> [] \<Longrightarrow> sem_count x \<le> int (card (waiting (pcs g) (O_sem m) - set (q (Waiters ?w))))" "set (q (Waiters ?w)) \<subseteq> waiting (pcs g) (O_sem m)"
    using sync_chan(2,3) [OF inv w] x by simp_all
  have fin: "finite (waiting (pcs g) (O_sem m))" by (rule finite_waiting [OF sync_invD(5) [OF inv]])
  note eq = P_again_eq [OF x sync_at [OF inv cur(1) w]]
  have rest: "waiting ((pcs g)(?cur := p)) p' = waiting (pcs g) p'" if "p \<in> {Free, In_P m}" "p' \<noteq> O_sem m" for p p'
  proof -
    have "\<not> waits u p'" if "u \<in> {Free, In_P m}" for u using \<open>p' \<noteq> O_sem m\<close> that by (cases p') auto
    then show ?thesis using that(1) pc by (auto simp: waiting_def)
  qed
  show ?thesis
  proof (cases "sem_count x = 0")
    case True
    have "\<exists>r s' q'. then_sleep ?w ?cur (sy g) = Some (Slept r, (sy g)\<lparr>sch := s'\<rparr>) \<and>
        sync_inv X n0 (g\<lparr>sy := (sy g)\<lparr>sch := s'\<rparr>, pcs := (pcs g)(?cur := In_P m)\<rparr>) q' \<and> waiters q' = (waiters q)(?w := waiters q ?w @ [?cur])"
    proof (rule sleep_step [OF inv aw w])
      show "waits (In_P m) p' \<longleftrightarrow> p' = O_sem m" for p' by (cases p') auto
      show "p' = O_sem m \<or> p' = O_cv 0" if "waits (pcs g ?cur) p'" for p' using that pc by (cases p') auto
    qed (use x True good(2) in auto)
    then show ?thesis using eq True by (auto simp: after_P_def)
  next
    case False
    let ?g = "g\<lparr>sy := with_count m x (sem_count x - 1) (sy g), pcs := (pcs g)(?cur := Free), taken := (taken g)(m := taken g m + 1)\<rparr>"
    have ch: "chan (sy ?g) p = chan (sy g) p" for p using x by (cases p) (simp_all add: with_count_def)
    have "sync_inv X n0 ?g q"
    proof (rule sync_call [where r = "O_sem m" and cur = ?cur and w = ?w, OF inv _ _ w ch])
      have "sem_count x - 1 \<le> int (card (waiting (pcs g) (O_sem m) - {?cur} - set (q (Waiters ?w))))" if "q (Waiters ?w) \<noteq> []"
        by (rule card_without [OF fin good(3) [OF that]])
      then show "set (q (Waiters ?w)) \<subseteq> waiting (pcs ?g) (O_sem m) \<and> good n0 ?g (O_sem m) (q (Waiters ?w))"
        using good(1,2,4) False x cur(2) by (auto simp: waiting_upd with_count_def)
      show "good n0 ?g p' = good n0 g p' \<and> waiting (pcs ?g) p' = waiting (pcs g) p'" if "p' \<noteq> O_sem m" for p'
        using rest [of Free p'] that by (intro conjI same_good) (cases p', auto simp: with_count_def)
      show "pc_ok ?g t (pcs ?g t)" for t using sync_invD(7) [OF inv, of t] pc_ok_cong [of ?g g t] ch by auto
    qed (use sync_invD(1) [OF inv] ch in \<open>auto simp: engaged_def with_count_def split: if_splits\<close>)
    then show ?thesis using eq False good(1) by (auto simp: after_P_def)
  qed
qed

lemma acquire_step:
  assumes inv: "sync_inv X n0 g q" and aw: "awake c g" and x: "slocks (sy g) k = Some x" and pc: "pcs g (curt c g) \<in> {Free, In_acquire k, In_wait v k}"
  shows "\<exists>r q'. lock_again k (curt c g) (sy g) = Some r \<and> sync_inv X n0 (after_acquire k (curt c g) r g) q'"
proof -
  let ?cur = "curt c g" and ?w = "lk_wchan x"
  have w: "chan (sy g) (O_lock k) = Some ?w" using x by simp
  have cur: "c < length (allcpus (sch (sy g)))" "live (sch (sy g)) q ?cur" "?cur \<noteq> 0" "\<And>p u. chan (sy g) p = Some u \<Longrightarrow> ?cur \<notin> set (q (Waiters u))"
    using awake_cur [OF inv aw] sync_chan(1) [OF inv] by blast+
  have ins: "inside g k = (if lk_owner x = 0 then {} else {lk_owner x})" using sync_chan(3) [OF inv w] x by simp
  note eq = lock_again_eq [OF x sync_at [OF inv cur(1) w]]
  have old: "p' = O_lock k \<or> p' = O_cv v" if "waits (pcs g ?cur) p'" for p' using that pc by (cases p') auto
  show ?thesis
  proof (cases "lk_owner x = 0")
    case False
    have "\<exists>r s' q'. then_sleep ?w ?cur (sy g) = Some (Slept r, (sy g)\<lparr>sch := s'\<rparr>) \<and>
        sync_inv X n0 (g\<lparr>sy := (sy g)\<lparr>sch := s'\<rparr>, pcs := (pcs g)(?cur := In_acquire k)\<rparr>) q' \<and> waiters q' = (waiters q)(?w := waiters q ?w @ [?cur])"
    proof (rule sleep_step [OF inv aw w _ old])
      show "waits (In_acquire k) p' \<longleftrightarrow> p' = O_lock k" for p' by (cases p') auto
    qed (use x False ins in auto)
    then show ?thesis using eq False by (auto simp: after_acquire_def)
  next
    case True
    let ?g = "g\<lparr>sy := with_owner k x ?cur (sy g), pcs := (pcs g)(?cur := Free), inside := (inside g)(k := insert ?cur (inside g k))\<rparr>"
    have ch: "chan (sy ?g) p = chan (sy g) p" for p using x by (cases p) (simp_all add: with_owner_def)
    have "sync_inv X n0 ?g q"
    proof (rule sync_call [where r = "O_cv v" and cur = ?cur and w = ?w, OF inv _ _ w ch])
      show "set (q (Waiters ?w)) \<subseteq> waiting (pcs ?g) (O_lock k) \<and> good n0 ?g (O_lock k) (q (Waiters ?w))"
        using sync_chan(2) [OF inv w] True cur(3) cur(4) [OF w] ins x by (auto simp: waiting_upd with_owner_def)
      show "good n0 ?g p' = good n0 g p' \<and> waiting (pcs ?g) p' = waiting (pcs g) p'" if "p' \<noteq> O_lock k" "p' \<noteq> O_cv v" for p'
      proof -
        have "waiting (pcs ?g) p' = waiting (pcs g) p'" using old [of p'] that by (auto simp: waiting_def)
        then show ?thesis using that by (intro conjI same_good) (cases p', auto simp: with_owner_def)
      qed
      show "set (q (Waiters u)) \<subseteq> waiting (pcs ?g) (O_cv v) \<and> good n0 ?g (O_cv v) (q (Waiters u))" if "chan (sy g) (O_cv v) = Some u" for u
        using sync_chan(2) [OF inv that] cur(4) [OF that] by (auto simp: waiting_upd)
      show "pc_ok ?g t (pcs ?g t)" for t using sync_invD(7) [OF inv, of t] ch by (cases "pcs g t") (auto simp del: chan.simps)
    qed (use sync_invD(1) [OF inv] cur(2) x in \<open>auto simp: engaged_def with_owner_def split: if_splits\<close>)
    then show ?thesis using eq True by (auto simp: after_acquire_def)
  qed
qed

lemma release_step:
  assumes inv: "sync_inv X n0 g q" and aw: "awake c g" and h: "slocks (sy g) k = Some x" "lk_owner x = curt c g"
  obtains s' q' where "wchan_wakeone (lk_wchan x) (curt c g) (sch (sy g)) = Some s'" and "quiet (sch (sy g)) s'"
    and "lock_release k (curt c g) (sy g) = Some ((with_owner k x 0 (sy g))\<lparr>sch := s'\<rparr>)"
    and "sync_inv X n0 (g\<lparr>sy := (with_owner k x 0 (sy g))\<lparr>sch := s'\<rparr>, inside := (inside g)(k := inside g k - {curt c g})\<rparr>) q'"
    and "waiters q' = (waiters q)(lk_wchan x := tl (waiters q (lk_wchan x)))"
proof -
  let ?cur = "curt c g" and ?w = "lk_wchan x"
  have w: "chan (sy g) (O_lock k) = Some ?w" using h by simp
  have k: "k \<noteq> 0" using sync_invD(3) [OF inv] h by (auto simp: objs_ok_def)
  have cur: "c < length (allcpus (sch (sy g)))" "?cur \<noteq> 0" using awake_cur [OF inv aw] by blast+
  have ins: "inside g k = {?cur}" using sync_chan(3) [OF inv w] h cur(2) by simp
  obtain s' q' where s': "wchan_wakeone ?w ?cur (sch (sy g)) = Some s'" "sched_ok X s' q'" "quiet (sch (sy g)) s'"
      "leaves {} {} (sch (sy g)) (q(Waiters ?w := tl (q (Waiters ?w)))) s' q'"
    by (rule wake_result [OF sync_invD(1) [OF inv] sync_at [OF inv cur(1) w]])
  let ?g = "g\<lparr>sy := (with_owner k x 0 (sy g))\<lparr>sch := s'\<rparr>, inside := (inside g)(k := inside g k - {?cur})\<rparr>"
  have ch: "chan (sy ?g) p = chan (sy g) p" for p using h by (cases p) (simp_all add: with_owner_def)
  have "sync_inv X n0 ?g q'"
  proof (rule sync_call [where r = "O_lock k" and cur = ?cur, OF inv _ _ w ch])
    note sub = sync_chan(2) [OF inv w]
    have "waiting (pcs g) (O_lock k) - set (tl (q (Waiters ?w))) \<noteq> {}" if "tl (q (Waiters ?w)) \<noteq> []"
      using woken_more(2) [OF sub sync_distinct [OF inv w] finite_waiting [OF sync_invD(5) [OF inv]]] that by (cases "q (Waiters ?w)") auto
    then show "set (q' (Waiters ?w)) \<subseteq> waiting (pcs ?g) (O_lock k) \<and> good n0 ?g (O_lock k) (q' (Waiters ?w))"
      using leaves_at(1) [OF s'(4)] tl_subset [OF sub] ins by (auto simp: with_owner_def)
    show "good n0 ?g p' = good n0 g p' \<and> waiting (pcs ?g) p' = waiting (pcs g) p'" if "p' \<noteq> O_lock k" for p'
      using that by (intro conjI same_good) (cases p', auto simp: with_owner_def)
    show "pc_ok ?g t (pcs ?g t)" for t using sync_invD(7) [OF inv, of t] ch by (cases "pcs g t") (auto simp del: chan.simps)
  qed (use s' leaves_at(2) [OF s'(4)] h(1) in \<open>auto simp: engaged_def with_owner_def split: if_splits\<close>)
  moreover have "lock_release k ?cur (sy g) = Some ((with_owner k x 0 (sy g))\<lparr>sch := s'\<rparr>)"
    using lock_release_eq [OF h(1) sync_at [OF inv cur(1) w] k h(2)] s'(1) by simp
  moreover have "waiters q' = (waiters q)(?w := tl (waiters q ?w))" using leaves_waiters [OF s'(4)] by (simp add: waiters_def)
  ultimately show thesis using that s'(1,3) by blast
qed

lemma quiet_awake:
  assumes "quiet (sch (sy g)) (sch (sy g'))" and "awake c g"
  shows "awake c g'" and "curt c g' = curt c g"
  using assms by (auto simp: quiet_def same_cpus_def awake_def curt_def cur_of_def)

lemma wait_step:
  assumes inv: "sync_inv X n0 g q" and aw: "awake c g" and pc: "pcs g (curt c g) = Free" and v: "cvs (sy g) v = Some z"
    and h: "slocks (sy g) k = Some x" "lk_owner x = curt c g"
  shows "\<exists>r y q'. cv_wait v k (curt c g) (sy g) = Some (Slept r, y) \<and>
    sync_inv X n0 (g\<lparr>inside := (inside g)(k := inside g k - {curt c g}), sy := y, pcs := (pcs g)(curt c g := In_wait v k)\<rparr>) q' \<and>
    waiters q' = (waiters q)(lk_wchan x := tl (waiters q (lk_wchan x)), cv_wchan z := waiters q (cv_wchan z) @ [curt c g])"
proof -
  let ?cur = "curt c g"
  have w: "chan (sy g) (O_lock k) = Some (lk_wchan x)" "chan (sy g) (O_cv v) = Some (cv_wchan z)" using h v by simp_all
  have nz: "v \<noteq> 0" "k \<noteq> 0" using sync_invD(3) [OF inv] h v by (auto simp: objs_ok_def)
  have apart: "cv_wchan z \<noteq> lk_wchan x" using chan_apart [OF sync_invD(3) [OF inv] w] by simp
  have c: "c < length (allcpus (sch (sy g)))" using aw by (simp add: awake_def)
  obtain s' q' where s': "wchan_wakeone (lk_wchan x) ?cur (sch (sy g)) = Some s'" "quiet (sch (sy g)) s'"
      "sync_inv X n0 (g\<lparr>sy := (with_owner k x 0 (sy g))\<lparr>sch := s'\<rparr>, inside := (inside g)(k := inside g k - {?cur})\<rparr>) q'"
      "waiters q' = (waiters q)(lk_wchan x := tl (waiters q (lk_wchan x)))"
    by (rule release_step [OF inv aw h])
  let ?y = "(with_owner k x 0 (sy g))\<lparr>sch := s'\<rparr>"
  let ?g = "g\<lparr>sy := ?y, inside := (inside g)(k := inside g k - {?cur})\<rparr>"
  have aw': "awake c ?g" and cur: "curt c ?g = ?cur" using quiet_awake [of g ?g c] s'(2) aw by simp_all
  have w': "chan (sy ?g) (O_cv v) = Some (cv_wchan z)" using v by (simp add: with_owner_def)
  have "\<exists>r s1 q1. then_sleep (cv_wchan z) (curt c ?g) (sy ?g) = Some (Slept r, (sy ?g)\<lparr>sch := s1\<rparr>) \<and>
      sync_inv X n0 (?g\<lparr>sy := (sy ?g)\<lparr>sch := s1\<rparr>, pcs := (pcs ?g)(curt c ?g := In_wait v k)\<rparr>) q1 \<and> waiters q1 = (waiters q')(cv_wchan z := waiters q' (cv_wchan z) @ [curt c ?g])"
  proof (rule sleep_step [OF s'(3) aw' w'])
    show "waits (In_wait v k) p' \<longleftrightarrow> p' = O_cv v" for p' by (cases p') auto
    show "p' = O_cv v \<or> p' = O_cv 0" if "waits (pcs ?g (curt c ?g)) p'" for p' using that pc unfolding cur by simp
    show "pc_ok ?g (curt c ?g) (In_wait v k)" unfolding cur by (simp add: with_owner_def)
  qed simp
  then show ?thesis
    unfolding cur using cv_wait_eq [OF v nz(1) h(1) nz(2) h(2) apart sync_at [OF inv c w(1)] s'(1)] apart s'(4) by auto
qed

text \<open>Waking threads of a condition variable.\<close>

lemma cv_step:
  assumes inv: "sync_inv X n0 g q" and w: "chan (sy g) (O_cv v) = Some w" and ok: "sched_ok X s' q'"
    and lv: "leaves {} {} (sch (sy g)) (q(Waiters w := ws)) s' q'" and ws: "set ws \<subseteq> set (q (Waiters w))"
  shows "sync_inv X n0 (g\<lparr>sy := (sy g)\<lparr>sch := s'\<rparr>\<rparr>) q'"
proof (rule sync_call [where r = "O_cv v" and cur = 0, OF inv _ _ w])
  let ?g = "g\<lparr>sy := (sy g)\<lparr>sch := s'\<rparr>\<rparr>"
  show ch: "chan (sy ?g) p = chan (sy g) p" for p by (cases p) simp_all
  show "set (q' (Waiters w)) \<subseteq> waiting (pcs ?g) (O_cv v) \<and> good n0 ?g (O_cv v) (q' (Waiters w))"
    using leaves_at(1) [OF lv] ws sync_chan(2) [OF inv w] by simp
  show "good n0 ?g p' = good n0 g p' \<and> waiting (pcs ?g) p' = waiting (pcs g) p'" for p' by (intro conjI same_good) (cases p', auto)
  show "pc_ok ?g t (pcs ?g t)" for t using sync_invD(7) [OF inv, of t] pc_ok_cong [of ?g g t] ch by auto
qed (use ok leaves_at(2) [OF lv] in \<open>auto simp: engaged_def\<close>)

lemma signal_step:
  assumes inv: "sync_inv X n0 g q" and c: "c < length (allcpus (sch (sy g)))" and v: "cvs (sy g) v = Some z" and h: "slocks (sy g) k = Some x" "lk_owner x = curt c g"
  shows "\<exists>y q'. cv_signal v k (curt c g) (sy g) = Some y \<and> sync_inv X n0 (g\<lparr>sy := y\<rparr>) q' \<and> waiters q' = (waiters q)(cv_wchan z := tl (waiters q (cv_wchan z)))"
    and "\<exists>y q'. cv_broadcast v k (curt c g) (sy g) = Some y \<and> sync_inv X n0 (g\<lparr>sy := y\<rparr>) q' \<and> waiters q' = (waiters q)(cv_wchan z := [])"
proof -
  have w: "chan (sy g) (O_cv v) = Some (cv_wchan z)" using v by simp
  have nz: "v \<noteq> 0" "k \<noteq> 0" using sync_invD(3) [OF inv] h v by (auto simp: objs_ok_def)
  note at = sync_at [OF inv c w]
  obtain s' q' where s': "wchan_wakeone (cv_wchan z) (curt c g) (sch (sy g)) = Some s'" "sched_ok X s' q'"
      "leaves {} {} (sch (sy g)) (q(Waiters (cv_wchan z) := tl (q (Waiters (cv_wchan z))))) s' q'"
    by (rule wake_result [OF sync_invD(1) [OF inv] at])
  show "\<exists>y q'. cv_signal v k (curt c g) (sy g) = Some y \<and> sync_inv X n0 (g\<lparr>sy := y\<rparr>) q' \<and> waiters q' = (waiters q)(cv_wchan z := tl (waiters q (cv_wchan z)))"
    using cv_step [OF inv w s'(2,3) tl_subset [OF subset_refl]] leaves_waiters [OF s'(3)] s'(1) v h nz
    by (auto simp: cv_signal_def lock_do_i_hold_def on_sch_def waiters_def)
  obtain s' q' where s': "wchan_wakeall (cv_wchan z) (curt c g) (sch (sy g)) = Some s'" "sched_ok X s' q'"
      "leaves {} {} (sch (sy g)) (q(Waiters (cv_wchan z) := [])) s' q'"
    by (rule wakeall_result [OF sync_invD(1) [OF inv] at])
  show "\<exists>y q'. cv_broadcast v k (curt c g) (sy g) = Some y \<and> sync_inv X n0 (g\<lparr>sy := y\<rparr>) q' \<and> waiters q' = (waiters q)(cv_wchan z := [])"
    using cv_step [OF inv w s'(2,3)] leaves_waiters [OF s'(3)] s'(1) v h nz by (auto simp: cv_broadcast_def lock_do_i_hold_def on_sch_def)
qed

lemma sched_step:
  assumes inv: "sync_inv X n0 g q" and en: "enabled c (Sched op) g"
  shows "\<exists>r s' q'. run_op c op (sch (sy g)) = Some (r, s') \<and> sync_inv X n0 (g\<lparr>sy := (sy g)\<lparr>sch := s'\<rparr>\<rparr>) q'"
proof -
  let ?D = "if op = Op_exit then {cur_of c (sch (sy g))} else {}"
  have pre: "c < length (allcpus (sch (sy g)))" "op_ok c op (sch (sy g))" using en by simp_all
  obtain r s' q' where s': "run_op c op (sch (sy g)) = Some (r, s')" "sched_ok X s' q'" "leaves (touches op) ?D (sch (sy g)) q s' q'"
    using run_op_result [OF sync_invD(1) [OF inv] pre] unfolding op_result_def by blast
  let ?g = "g\<lparr>sy := (sy g)\<lparr>sch := s'\<rparr>\<rparr>"
  have ch: "chan (sy ?g) p = chan (sy g) p" for p by (cases p) simp_all
  have "sync_inv X n0 ?g q'"
  proof (rule sync_frame [where Os = "{}" and cur = 0 and D = ?D and W = "touches op", OF inv _ _ ch])
    show "good n0 ?g p' = good n0 g p' \<and> waiting (pcs ?g) p' = waiting (pcs g) p'" for p' by (intro conjI same_good) (cases p', auto)
    show "pc_ok ?g t (pcs ?g t)" for t using sync_invD(7) [OF inv, of t] pc_ok_cong [of ?g g t] ch by auto
    show "live (sch (sy g)) q t \<and> t \<notin> ?D" if "engaged ?g t" for t
    proof -
      have "engaged g t" using that by (simp add: engaged_def)
      then show ?thesis using sync_invD(6) [OF inv] en by (auto simp: engaged_def curt_def)
    qed
  qed (use s' en in auto)
  then show ?thesis using s'(1) by blast
qed

lemma exec_bind: "\<exists>r q'. A = Some r \<and> I (f r) q' \<Longrightarrow> \<exists>g' q'. do { r \<leftarrow> A; Some (f r) } = Some g' \<and> I g' q'"
  by auto

lemma exec_ok:
  assumes inv: "sync_inv X n0 g q" and en: "enabled c call g"
  shows "\<exists>g' q'. exec c call g = Some g' \<and> sync_inv X n0 g' q'"
proof -
  note bind = exec_bind [where I = "sync_inv X n0"]
  have nz: "m \<noteq> 0" if "sems (sy g) m = Some x \<or> slocks (sy g) m = Some y" for m x y using sync_invD(3) [OF inv] that by (auto simp: objs_ok_def)
  have aw: "\<exists>th. thr (sch (sy g)) (curt c g) = Some th \<and> \<not> t_in_interrupt th \<and> curt c g \<noteq> 0" if "awake c g"
    by (rule awake_cur [OF inv that]) blast
  have acq: "lock_acquire k (curt c g) (sy g) = lock_again k (curt c g) (sy g)" if "awake c g" "slocks (sy g) k = Some x" "lk_owner x \<noteq> curt c g" for k x
    using aw [OF that(1)] nz that by (auto simp: lock_acquire_def lock_do_i_hold_def)
  have P: "P m (curt c g) (sy g) = P_again m (curt c g) (sy g)" if "awake c g" "sems (sy g) m = Some x" for m x
    using aw [OF that(1)] nz that by (auto simp: P_def)
  show ?thesis
  proof (cases call)
    case (Call_P m)
    then obtain x where x: "awake c g" "sems (sy g) m = Some x" "pcs g (curt c g) = Free" using en by auto
    show ?thesis unfolding Call_P exec.simps P [OF x(1,2)] by (rule bind, rule P_step [OF inv x(1,2)]) (use x(3) in simp)
  next
    case (Call_V m)
    then obtain x where "c < length (allcpus (sch (sy g)))" "sems (sy g) m = Some x" "sem_count x + 1 < 2 ^ 31" using en by auto
    then show ?thesis unfolding Call_V exec.simps by (intro bind V_step [OF inv])
  next
    case (Call_acquire k)
    then obtain x where x: "awake c g" "slocks (sy g) k = Some x" "lk_owner x \<noteq> curt c g" "pcs g (curt c g) = Free" using en by (auto simp: holds_def)
    show ?thesis unfolding Call_acquire exec.simps acq [OF x(1-3)] by (rule bind, rule acquire_step [OF inv x(1,2)]) (use x(4) in simp)
  next
    case (Call_release k)
    then obtain x where "awake c g" "slocks (sy g) k = Some x" "lk_owner x = curt c g" using en by (auto simp: holds_def)
    then obtain s' q' where "lock_release k (curt c g) (sy g) = Some ((with_owner k x 0 (sy g))\<lparr>sch := s'\<rparr>)"
        "sync_inv X n0 (g\<lparr>sy := (with_owner k x 0 (sy g))\<lparr>sch := s'\<rparr>, inside := (inside g)(k := inside g k - {curt c g})\<rparr>) q'"
      by (rule release_step [OF inv])
    then show ?thesis using Call_release by (simp, blast)
  next
    case (Call_wait v k)
    then obtain x z where h: "awake c g" "pcs g (curt c g) = Free" "cvs (sy g) v = Some z" "slocks (sy g) k = Some x" "lk_owner x = curt c g" using en by (auto simp: holds_def)
    obtain r y q' where "cv_wait v k (curt c g) (sy g) = Some (Slept r, y)"
        "sync_inv X n0 (g\<lparr>inside := (inside g)(k := inside g k - {curt c g}), sy := y, pcs := (pcs g)(curt c g := In_wait v k)\<rparr>) q'"
      using wait_step [OF inv h] by blast
    then show ?thesis using Call_wait by auto
  next
    case (Call_signal v k)
    then obtain x z where h: "c < length (allcpus (sch (sy g)))" "cvs (sy g) v = Some z" "slocks (sy g) k = Some x" "lk_owner x = curt c g" using en by (auto simp: holds_def awake_def)
    obtain y q' where "cv_signal v k (curt c g) (sy g) = Some y" "sync_inv X n0 (g\<lparr>sy := y\<rparr>) q'" using signal_step(1) [OF inv h] by blast
    then show ?thesis using Call_signal by auto
  next
    case (Call_broadcast v k)
    then obtain x z where h: "c < length (allcpus (sch (sy g)))" "cvs (sy g) v = Some z" "slocks (sy g) k = Some x" "lk_owner x = curt c g" using en by (auto simp: holds_def awake_def)
    obtain y q' where "cv_broadcast v k (curt c g) (sy g) = Some y" "sync_inv X n0 (g\<lparr>sy := y\<rparr>) q'" using signal_step(2) [OF inv h] by blast
    then show ?thesis using Call_broadcast by auto
  next
    case Resume
    then have a: "awake c g" using en by simp
    note pc = sync_invD(7) [OF inv, of "curt c g"]
    show ?thesis
    proof (cases "pcs g (curt c g)")
      case (In_wait v k)
      then obtain x where x: "slocks (sy g) k = Some x" "curt c g \<notin> inside g k" using pc by auto
      have "inside g k = (if lk_owner x = 0 then {} else {lk_owner x})" using sync_chan(3) [OF inv, of "O_lock k"] x by simp
      then have "lk_owner x \<noteq> curt c g" using x(2) aw [OF a] by (auto split: if_splits)
      then have "exec c call g = do { r \<leftarrow> lock_again k (curt c g) (sy g); Some (after_acquire k (curt c g) r g) }" using Resume In_wait acq [OF a x(1)] by simp
      then show ?thesis using bind [OF acquire_step [OF inv a x(1), of v]] In_wait by simp
    next
      case (In_P m)
      then obtain x where "sems (sy g) m = Some x" using pc by auto
      from bind [OF P_step [OF inv a this]] show ?thesis using Resume In_P by simp
    next
      case (In_acquire k)
      then obtain x where "slocks (sy g) k = Some x" using pc by auto
      from bind [OF acquire_step [OF inv a this]] show ?thesis using Resume In_acquire by simp
    qed (use Resume inv in auto)
  next
    case (Sched op)
    then obtain r s' q' where "run_op c op (sch (sy g)) = Some (r, s')" "sync_inv X n0 (g\<lparr>sy := (sy g)\<lparr>sch := s'\<rparr>\<rparr>) q'" using sched_step [OF inv] en by blast
    then show ?thesis using Sched by auto
  qed
qed

lemma sync_reach_inv: "sync_reach g g' \<Longrightarrow> sync_inv X n0 g q \<Longrightarrow> \<exists>q'. sync_inv X n0 g' q'"
proof (induction rule: sync_reach.induct)
  case (sync_next g g1 c call g2)
  then obtain q1 where "sync_inv X n0 g1 q1" by blast
  then show ?case using exec_ok sync_next(2,3) by fastforce
qed blast

text \<open>The objects are new: nobody waits, no lock is held, and no call was made.\<close>

definition sync_init :: "(u32 \<rightharpoonup> nat) \<Rightarrow> (u32 \<Rightarrow> int) \<Rightarrow> ssys \<Rightarrow> (tlist \<Rightarrow> tid list) \<Rightarrow> bool" where
  "sync_init X n0 g q \<longleftrightarrow> sched_ok X (sch (sy g)) q \<and> objs_ok (sy g) \<and> (\<forall>p w. chan (sy g) p = Some w \<longrightarrow> wc_name (sch (sy g)) w \<noteq> None \<and> waiters q w = []) \<and>
     (\<forall>m x. sems (sy g) m = Some x \<longrightarrow> sem_count x = n0 m \<and> 0 \<le> n0 m) \<and> (\<forall>k x. slocks (sy g) k = Some x \<longrightarrow> lk_owner x = 0) \<and>
     pcs g = (\<lambda>_. Free) \<and> inside g = (\<lambda>_. {}) \<and> taken g = (\<lambda>_. 0) \<and> given g = (\<lambda>_. 0)"

lemma sync_init_inv: "sync_init X n0 g q \<Longrightarrow> sync_inv X n0 g q"
proof -
  assume i: "sync_init X n0 g q"
  have "good n0 g p []" for p using i by (cases p) (auto simp: sync_init_def)
  then show ?thesis using i by (auto simp: sync_init_def sync_inv_def obj_ok_def engaged_def waiters_def)
qed

lemma reach_inv: "sync_init X n0 g0 q0 \<Longrightarrow> sync_reach g0 g \<Longrightarrow> \<exists>q. sync_inv X n0 g q"
  using sync_reach_inv sync_init_inv by blast

subsection \<open>A sample system\<close>

definition sample_sys :: "(tid, tlist) tlstore \<Rightarrow> kstate \<Rightarrow> ssys" where
  "sample_sys l k = \<lparr>sy = \<lparr>sch = sample_sched l k, sems = [0x80030100 \<mapsto> \<lparr>sem_name = 0x80030180, sem_wchan = 0x80031600, sem_count = 1\<rparr>],
     slocks = [0x80030200 \<mapsto> \<lparr>lk_name = 0x80030280, lk_wchan = 0x80031400, lk_owner = 0\<rparr>], cvs = [0x80030300 \<mapsto> \<lparr>cv_name = 0x80030380, cv_wchan = 0x80031200\<rparr>]\<rparr>,
     pcs = (\<lambda>_. Free), inside = (\<lambda>_. {}), taken = (\<lambda>_. 0), given = (\<lambda>_. 0)\<rparr>"

lemma sample_sys_simps [simp]:
  "sch (sy (sample_sys l k)) = sample_sched l k" "pcs (sample_sys l k) = (\<lambda>_. Free)" "curt 0 (sample_sys l k) = 0x80031e00" "awake 0 (sample_sys l k)"
  by (simp_all add: sample_sys_def curt_def awake_def sample_thread_def)

lemma sample_init:
  obtains l k where "sync_init Map.empty (\<lambda>_. 1) (sample_sys l k) sample_lists"
proof (rule sample_ok)
  fix l k assume ok: "sched_ok Map.empty (sample_sched l k) sample_lists"
  have c: "chan (sy (sample_sys l k)) p = Some w \<longleftrightarrow> p = O_sem 0x80030100 \<and> w = 0x80031600 \<or> p = O_lock 0x80030200 \<and> w = 0x80031400 \<or> p = O_cv 0x80030300 \<and> w = 0x80031200" for p w
    by (cases p) (auto simp: sample_sys_def)
  have "objs_ok (sy (sample_sys l k))" unfolding objs_ok_def c by (auto simp: sample_sys_def)
  then have "sync_init Map.empty (\<lambda>_. 1) (sample_sys l k) sample_lists"
    using ok unfolding sync_init_def c by (auto simp: sample_sys_def sample_lists_def waiters_def split: if_splits)
  then show thesis by (rule that)
qed

subsection \<open>Properties\<close>

text \<open>
  C33.  The primitives never fail.  However calls of \<open>P\<close>, \<open>V\<close>, \<open>lock_acquire\<close>, \<open>lock_release\<close>, \<open>cv_wait\<close>,
  \<open>cv_signal\<close> and \<open>cv_broadcast\<close> interleave on the processors with each other, with the continuation of
  calls that slept, and with the operations of the thread system, every call that is in order returns or
  sleeps: no assertion fails.
\<close>

theorem synch_progress:
  assumes "sync_init X n0 g0 q0" and "sync_reach g0 g" and "enabled c call g"
  shows "\<exists>g'. exec c call g = Some g'"
  using reach_inv [OF assms(1,2)] exec_ok [OF _ assms(3)] by blast

theorem synch_progress_witness:
  "\<exists>l k g'. sync_init Map.empty (\<lambda>_. 1) (sample_sys l k) sample_lists \<and> exec 0 (Call_acquire 0x80030200) (sample_sys l k) = Some g'"
proof (rule sample_init)
  fix l k assume i: "sync_init Map.empty (\<lambda>_. 1) (sample_sys l k) sample_lists"
  have "enabled 0 (Call_acquire 0x80030200) (sample_sys l k)" by (simp add: holds_def) (simp add: sample_sys_def)
  from synch_progress [OF i sync_here this] i show ?thesis by blast
qed

text \<open>
  C34.  Mutual exclusion.  At any time at most one thread is past \<open>lock_acquire\<close> or \<open>cv_wait\<close> and has not
  released the lock, and \<open>lock_do_i_hold\<close> tells a thread whether it is that thread.
\<close>

theorem lock_excludes:
  assumes "sync_init X n0 g0 q0" and "sync_reach g0 g" and x: "slocks (sy g) k = Some x"
  shows "card (inside g k) \<le> 1 \<and> (\<forall>t. t \<noteq> 0 \<longrightarrow> lock_do_i_hold k t (sy g) = Some (t \<in> inside g k))"
proof -
  obtain q where inv: "sync_inv X n0 g q" using reach_inv [OF assms(1,2)] by blast
  have "k \<noteq> 0" using sync_invD(3) [OF inv] x by (auto simp: objs_ok_def)
  then show ?thesis using sync_chan(3) [OF inv, of "O_lock k"] x by (auto simp: lock_do_i_hold_def)
qed

theorem lock_excludes_witness:
  "\<exists>l k g. exec 0 (Call_acquire 0x80030200) (sample_sys l k) = Some g \<and> card (inside g 0x80030200) \<le> 1 \<and>
     lock_do_i_hold 0x80030200 0x80031e00 (sy g) = Some (0x80031e00 \<in> inside g 0x80030200)"
proof (rule sample_init)
  fix l k assume i: "sync_init Map.empty (\<lambda>_. 1) (sample_sys l k) sample_lists"
  have en: "enabled 0 (Call_acquire 0x80030200) (sample_sys l k)" by (simp add: holds_def) (simp add: sample_sys_def)
  obtain g q where g: "exec 0 (Call_acquire 0x80030200) (sample_sys l k) = Some g" "sync_inv Map.empty (\<lambda>_. 1) g q"
    using exec_ok [OF sync_init_inv [OF i] en] by blast
  have r: "sync_reach (sample_sys l k) g" by (rule sync_next [OF sync_here en g(1)])
  have "slocks (sy g) 0x80030200 \<noteq> None"
    using g(1) by (auto simp: after_acquire_def lock_acquire_def lock_again_def lock_loop_def on_sch_def lock_do_i_hold_def bind_eq_Some_conv Let_def sample_sys_def
      split: if_splits)
  then show ?thesis using lock_excludes [OF i r, of "0x80030200"] g(1) by fastforce
qed

text \<open>
  C35.  Counting.  The count of a semaphore is what it started with, plus the calls of \<open>V\<close>, minus the
  calls of \<open>P\<close> that returned, and it is never negative: \<open>P\<close> returns at most as often as the initial count
  and the calls of \<open>V\<close> allow.
\<close>

theorem semaphore_counts:
  assumes "sync_init X n0 g0 q0" and "sync_reach g0 g" and x: "sems (sy g) m = Some x"
  shows "sem_count x = n0 m + int (given g m) - int (taken g m) \<and> 0 \<le> sem_count x"
proof -
  obtain q where inv: "sync_inv X n0 g q" using reach_inv [OF assms(1,2)] by blast
  show ?thesis using sync_chan(3) [OF inv, of "O_sem m"] x by auto
qed

lemma sample_V:
  assumes i: "sync_init Map.empty (\<lambda>_. 1) (sample_sys l k) sample_lists"
  obtains g x where "exec 0 (Call_V 0x80030100) (sample_sys l k) = Some g" and "sync_reach (sample_sys l k) g" and "sems (sy g) 0x80030100 = Some x"
    and "given g 0x80030100 = 1" and "taken g 0x80030100 = 0" and "sem_wchan x = 0x80031600"
proof -
  have en: "enabled 0 (Call_V 0x80030100) (sample_sys l k)" by simp (simp add: sample_sys_def)
  obtain g q where g: "exec 0 (Call_V 0x80030100) (sample_sys l k) = Some g" "sync_inv Map.empty (\<lambda>_. 1) g q"
    using exec_ok [OF sync_init_inv [OF i] en] by blast
  have r: "sync_reach (sample_sys l k) g" by (rule sync_next [OF sync_here en g(1)])
  have "\<exists>x. sems (sy g) 0x80030100 = Some x \<and> sem_wchan x = 0x80031600" "given g 0x80030100 = 1" "taken g 0x80030100 = 0"
    using g(1) by (auto simp: V_def on_sch_def bind_eq_Some_conv Let_def sample_sys_def split: if_splits)
  then show thesis using that g(1) r by blast
qed

theorem semaphore_counts_witness:
  "\<exists>l k g x. exec 0 (Call_V 0x80030100) (sample_sys l k) = Some g \<and> sems (sy g) 0x80030100 = Some x \<and> sem_count x = 2"
proof (rule sample_init)
  fix l k assume i: "sync_init Map.empty (\<lambda>_. 1) (sample_sys l k) sample_lists"
  obtain g x where g: "exec 0 (Call_V 0x80030100) (sample_sys l k) = Some g" "sync_reach (sample_sys l k) g" "sems (sy g) 0x80030100 = Some x"
      "given g 0x80030100 = 1" "taken g 0x80030100 = 0"
    by (rule sample_V [OF i])
  show ?thesis using semaphore_counts [OF i g(2,3)] g by auto
qed





end
