(* ===== verification/Copyinout.thy ===== *)
theory Copyinout
  imports Kernel_Prelude
begin

text \<open>
  Copying between the kernel and a user process, src/kern/vm/copyinout.c.  User memory is a byte for
  each address with the addresses that can be read and written without a fault that ends in
  \<open>tm_badfaultfunc\<close>.  A kernel buffer is the list of its bytes.  \<open>memcpy\<close> moves bytes upwards; when it
  faults, control returns to \<open>setjmp\<close> and the bytes moved so far stay.
\<close>

subsection \<open>Model\<close>

record umem =
  um_data :: "u32 \<Rightarrow> u8"
  um_read :: "u32 \<Rightarrow> bool"
  um_write :: "u32 \<Rightarrow> bool"
  um_as :: u32

definition USERSPACETOP :: u32 where
  "USERSPACETOP = 0x80000000"

definition copycheck :: "u32 \<Rightarrow> u32 \<Rightarrow> errno + u32" where
  "copycheck userptr len =
     (let bot = userptr; top = bot + len - 1 in
      if top < bot then Inl EFAULT
      else if bot \<ge> USERSPACETOP then Inl EFAULT
      else if top \<ge> USERSPACETOP then Inr (USERSPACETOP - bot)
      else Inr len)"

text \<open>\<open>memcpy\<close> from and to user memory: the bytes moved, and whether the end was reached.\<close>

fun load_bytes :: "umem \<Rightarrow> u32 \<Rightarrow> nat \<Rightarrow> u8 list \<times> bool" where
  "load_bytes m a 0 = ([], True)"
| "load_bytes m a (Suc n) =
     (if um_read m a then (let (bs, ok) = load_bytes m (a + 1) n in (um_data m a # bs, ok)) else ([], False))"

fun store_bytes :: "u32 \<Rightarrow> u8 list \<Rightarrow> umem \<Rightarrow> umem \<times> bool" where
  "store_bytes a [] m = (m, True)"
| "store_bytes a (b # bs) m =
     (if um_write m a then store_bytes (a + 1) bs (m\<lparr>um_data := (um_data m)(a := b)\<rparr>) else (m, False))"

definition copyin :: "u32 \<Rightarrow> u8 list \<Rightarrow> umem \<Rightarrow> errno option \<times> u8 list" where
  "copyin usersrc dest m =
     (case copycheck usersrc (of_nat (length dest)) of
        Inl e \<Rightarrow> (Some e, dest)
      | Inr stoplen \<Rightarrow>
          if stoplen \<noteq> of_nat (length dest) then (Some EFAULT, dest)
          else (let (bs, ok) = load_bytes m usersrc (length dest) in (if ok then None else Some EFAULT, bs @ drop (length bs) dest)))"

definition copyout :: "u8 list \<Rightarrow> u32 \<Rightarrow> umem \<Rightarrow> errno option \<times> umem" where
  "copyout src userdest m =
     (case copycheck userdest (of_nat (length src)) of
        Inl e \<Rightarrow> (Some e, m)
      | Inr stoplen \<Rightarrow>
          if stoplen \<noteq> of_nat (length src) then (Some EFAULT, m)
          else (let (m', ok) = store_bytes userdest src m in (if ok then None else Some EFAULT, m')))"

text \<open>
  The loop of \<open>copystr\<close>; \<open>get i\<close> reads \<open>src[i]\<close>, \<open>put i b\<close> writes \<open>dest[i]\<close>, and \<open>None\<close> is a fault.  The outcome
  is an error or the length with the terminating zero.
\<close>

function copystr :: "(nat \<Rightarrow> 's \<Rightarrow> u8 option) \<Rightarrow> (nat \<Rightarrow> u8 \<Rightarrow> 's \<Rightarrow> 's option) \<Rightarrow> nat \<Rightarrow> nat \<Rightarrow> nat \<Rightarrow> 's \<Rightarrow> (errno + nat) \<times> 's" where
  "copystr get put i maxlen stoplen s =
     (if i < maxlen \<and> i < stoplen then
        (case get i s of
           None \<Rightarrow> (Inl EFAULT, s)
         | Some b \<Rightarrow>
             (case put i b s of
                None \<Rightarrow> (Inl EFAULT, s)
              | Some s' \<Rightarrow> if b = 0 then (Inr (i + 1), s') else copystr get put (Suc i) maxlen stoplen s'))
      else if stoplen < maxlen then (Inl EFAULT, s)
      else (Inl ENAMETOOLONG, s))"
  by auto
termination
  by (relation "measure (\<lambda>(_, _, i, maxlen, _, _). maxlen - i)") auto

declare copystr.simps [simp del]

definition copyinstr :: "u32 \<Rightarrow> u8 list \<Rightarrow> umem \<Rightarrow> (errno + nat) \<times> u8 list" where
  "copyinstr usersrc dest m =
     (case copycheck usersrc (of_nat (length dest)) of
        Inl e \<Rightarrow> (Inl e, dest)
      | Inr stoplen \<Rightarrow>
          copystr (\<lambda>i _. if um_read m (usersrc + of_nat i) then Some (um_data m (usersrc + of_nat i)) else None)
            (\<lambda>i b d. Some (d[i := b])) 0 (length dest) (unat stoplen) dest)"

definition copyoutstr :: "u8 list \<Rightarrow> u32 \<Rightarrow> u32 \<Rightarrow> umem \<Rightarrow> (errno + nat) \<times> umem" where
  "copyoutstr src userdest len m =
     (case copycheck userdest len of
        Inl e \<Rightarrow> (Inl e, m)
      | Inr stoplen \<Rightarrow>
          copystr (\<lambda>i _. aget src i)
            (\<lambda>i b m. if um_write m (userdest + of_nat i) then Some (m\<lparr>um_data := (um_data m)(userdest + of_nat i := b)\<rparr>) else None)
            0 (unat len) (unat stoplen) m)"

subsection \<open>The range check\<close>

definition user_range :: "u32 \<Rightarrow> nat \<Rightarrow> bool" where
  "user_range a n \<longleftrightarrow> 0 < n \<and> unat a + n \<le> 2 ^ 31"

lemma copycheck_cases:
  assumes "n < 2 ^ 32"
  shows "copycheck a (of_nat n) = (if n = 0 then (if a = 0 then Inr USERSPACETOP else Inl EFAULT)
    else if unat a + n > 2 ^ 32 \<or> unat a \<ge> 2 ^ 31 then Inl EFAULT
    else if unat a + n > 2 ^ 31 then Inr (USERSPACETOP - a) else Inr (of_nat n))"
proof (cases "n = 0")
  case True
  have "a - 1 < a" if "a \<noteq> 0" using that unat_gt_0 [of a] by (simp add: word_less_nat_alt unat_sub_if')
  then show ?thesis using True by (auto simp: copycheck_def USERSPACETOP_def)
next
  case False
  have n: "unat (of_nat n :: u32) = n" using assms by (rule unat_of_nat_u32)
  have top: "unat (a + of_nat n - 1) = (if unat a + n \<le> 2 ^ 32 then unat a + n - 1 else unat a + n - 1 - 2 ^ 32)"
  proof -
    obtain k where k: "n = Suc k" using False by (cases n) auto
    have "unat (of_nat k :: u32) = k" by (rule unat_of_nat_u32) (use assms k in simp)
    then have "unat (a + of_nat k) = (if unat a + k < 2 ^ 32 then unat a + k else unat a + k - 2 ^ 32)"
      using unsigned_less [of a, where 'a = nat] by (simp add: unat_plus_if')
    moreover have "a + of_nat n - 1 = a + of_nat k" using k by simp
    ultimately show ?thesis using k by auto
  qed
  have T: "unat USERSPACETOP = 2 ^ 31" by (simp add: USERSPACETOP_def)
  show ?thesis
    using assms False top n unsigned_less [of a, where 'a = nat] by (auto simp: copycheck_def Let_def word_less_nat_alt word_le_nat_alt T)
qed

lemma copycheck_ok_iff:
  assumes "n < 2 ^ 32"
  shows "copycheck a (of_nat n) = Inr (of_nat n) \<longleftrightarrow> user_range a n"
proof -
  have "unat (of_nat n :: u32) = n" using assms by (rule unat_of_nat_u32)
  moreover have "unat USERSPACETOP = 2 ^ 31" by (simp add: USERSPACETOP_def)
  ultimately have "USERSPACETOP \<noteq> of_nat n" if "n = 0" using that by auto
  moreover have "USERSPACETOP - a \<noteq> of_nat n" if "unat a < 2 ^ 31" "unat a + n > 2 ^ 31"
  proof
    assume "USERSPACETOP - a = of_nat n"
    then have "unat (USERSPACETOP - a) = n" using \<open>unat (of_nat n :: u32) = n\<close> by simp
    then show False using that \<open>unat USERSPACETOP = 2 ^ 31\<close> by (simp add: unat_sub_if')
  qed
  ultimately show ?thesis using assms by (auto simp: copycheck_cases user_range_def)
qed

subsection \<open>Copying blocks\<close>

definition readable :: "umem \<Rightarrow> u32 \<Rightarrow> nat \<Rightarrow> bool" where
  "readable m a n \<longleftrightarrow> (\<forall>i < n. um_read m (a + of_nat i))"

definition writable :: "umem \<Rightarrow> u32 \<Rightarrow> nat \<Rightarrow> bool" where
  "writable m a n \<longleftrightarrow> (\<forall>i < n. um_write m (a + of_nat i))"

definition bytes_at :: "umem \<Rightarrow> u32 \<Rightarrow> nat \<Rightarrow> u8 list" where
  "bytes_at m a n = map (\<lambda>i. um_data m (a + of_nat i)) [0..<n]"

definition stored :: "u32 \<Rightarrow> u8 list \<Rightarrow> umem \<Rightarrow> umem" where
  "stored a bs m = m\<lparr>um_data := (\<lambda>x. if unat (x - a) < length bs then bs ! unat (x - a) else um_data m x)\<rparr>"

lemma all_less_Suc: "(\<forall>i < Suc n. P (a + of_nat i :: u32)) \<longleftrightarrow> P a \<and> (\<forall>i < n. P (a + 1 + of_nat i))"
  unfolding less_Suc_eq_0_disj by (auto simp: ac_simps)

lemma upt_Suc_map: "map f [0..<Suc n] = f 0 # map (\<lambda>i. f (Suc i)) [0..<n]"
  by (simp add: upt_conv_Cons map_Suc_upt [symmetric] del: upt_Suc)

lemma bytes_at_Suc: "bytes_at m a (Suc n) = um_data m a # bytes_at m (a + 1) n"
  unfolding bytes_at_def upt_Suc_map by (simp add: ac_simps)

lemma length_bytes_at [simp]: "length (bytes_at m a n) = n"
  by (simp add: bytes_at_def)

lemma load_bytes_ok: "readable m a n \<Longrightarrow> load_bytes m a n = (bytes_at m a n, True)"
proof (induction n arbitrary: a)
  case (Suc n)
  then show ?case using all_less_Suc [of n "um_read m" a] by (simp add: readable_def bytes_at_Suc)
qed (simp add: bytes_at_def)

lemma load_bytes_iff: "snd (load_bytes m a n) \<longleftrightarrow> readable m a n"
proof (induction n arbitrary: a)
  case (Suc n)
  show ?case using Suc [of "a + 1"] all_less_Suc [of n "um_read m" a] by (simp add: readable_def split_beta)
qed (simp add: readable_def)

lemma stored_Cons:
  assumes "length bs < 2 ^ 32 - 1"
  shows "stored (a + 1) bs (m\<lparr>um_data := (um_data m)(a := b)\<rparr>) = stored a (b # bs) m"
proof -
  have "(if unat (x - (a + 1)) < length bs then bs ! unat (x - (a + 1)) else ((um_data m)(a := b)) x) =
      (if unat (x - a) < length (b # bs) then (b # bs) ! unat (x - a) else um_data m x)" for x
  proof (cases "x = a")
    case True
    have "unat (- 1 :: u32) = 2 ^ 32 - 1" by (simp add: unsigned_minus_1_eq_mask mask_eq_exp_minus_1)
    then show ?thesis using True assms by simp
  next
    case False
    then have "unat (x - a) = Suc (unat (x - (a + 1)))"
      using unat_gt_0 [of "x - a"] by (simp add: unat_minus_one diff_diff_add [symmetric])
    then show ?thesis using False by simp
  qed
  note pt = this
  have e: "um_data (m\<lparr>um_data := f\<rparr>) = f" "m\<lparr>um_data := f, um_data := h\<rparr> = m\<lparr>um_data := h\<rparr>" for f h by simp_all
  show ?thesis unfolding stored_def e pt ..
qed

lemma store_bytes_ok: "writable m a (length bs) \<Longrightarrow> length bs < 2 ^ 32 \<Longrightarrow> store_bytes a bs m = (stored a bs m, True)"
proof (induction bs arbitrary: a m)
  case (Cons b bs)
  have "writable (m\<lparr>um_data := (um_data m)(a := b)\<rparr>) (a + 1) (length bs)" "um_write m a"
    using Cons(2) all_less_Suc [of "length bs" "um_write m" a] by (simp_all add: writable_def)
  then show ?case using Cons(1,3) stored_Cons [of bs a m b] by simp
qed (simp add: stored_def)

lemma store_bytes_iff: "snd (store_bytes a bs m) \<longleftrightarrow> writable m a (length bs)"
proof (induction bs arbitrary: a m)
  case (Cons b bs)
  show ?case using Cons [of "a + 1" "m\<lparr>um_data := (um_data m)(a := b)\<rparr>"] all_less_Suc [of "length bs" "um_write m" a] by (simp add: writable_def)
qed (simp add: writable_def)

lemma store_bytes_outside:
  "(\<And>i. i < length bs \<Longrightarrow> x \<noteq> a + of_nat i) \<Longrightarrow> um_data (fst (store_bytes a bs m)) x = um_data m x"
proof (induction bs arbitrary: a m)
  case (Cons b bs)
  have "x \<noteq> a" using Cons(2) [of 0] by simp
  moreover have "x \<noteq> a + 1 + of_nat i" if "i < length bs" for i using Cons(2) [of "Suc i"] that by (simp add: ac_simps)
  ultimately show ?case using Cons(1) [of "a + 1" "m\<lparr>um_data := (um_data m)(a := b)\<rparr>"] by auto
qed simp

lemma user_range_below:
  assumes "user_range a n" and "i < n"
  shows "unat (a + of_nat i) = unat a + i" and "a + of_nat i < USERSPACETOP"
proof -
  have "unat (of_nat i :: u32) = i" by (rule unat_of_nat_u32) (use assms in \<open>simp add: user_range_def\<close>)
  then show "unat (a + of_nat i) = unat a + i" using assms by (simp add: unat_plus_if' user_range_def)
  then show "a + of_nat i < USERSPACETOP" using assms by (simp add: word_less_nat_alt USERSPACETOP_def user_range_def)
qed

lemma bytes_at_stored:
  assumes "length bs < 2 ^ 32"
  shows "bytes_at (stored a bs m) a (length bs) = bs"
  by (rule nth_equalityI) (use assms in \<open>auto simp: bytes_at_def stored_def unat_of_nat_u32\<close>)

lemma copyout_ok: "length bs < 2 ^ 32 \<Longrightarrow> user_range a (length bs) \<Longrightarrow> writable m a (length bs) \<Longrightarrow> copyout bs a m = (None, stored a bs m)"
  using copycheck_ok_iff [of "length bs" a] by (simp add: copyout_def store_bytes_ok)

lemma copyin_ok: "length d < 2 ^ 32 \<Longrightarrow> user_range a (length d) \<Longrightarrow> readable m a (length d) \<Longrightarrow> copyin a d m = (None, bytes_at m a (length d))"
  using copycheck_ok_iff [of "length d" a] by (simp add: copyin_def load_bytes_ok)

subsection \<open>Copying strings\<close>

text \<open>What \<open>copystr\<close> does from index \<open>i\<close> on, when the source has no zero before index \<open>n\<close> and no access faults.\<close>

lemma copyinstr_loop:
  assumes "i \<le> n" and "n < length d" and "n < stop" and "readable m a (Suc n)" and "\<And>j. j < n \<Longrightarrow> um_data m (a + of_nat j) \<noteq> 0" and "um_data m (a + of_nat n) = 0"
    and "take i d = take i (bytes_at m a n)"
  shows "copystr (\<lambda>i _. if um_read m (a + of_nat i) then Some (um_data m (a + of_nat i)) else None) (\<lambda>i b d. Some (d[i := b])) i (length d) stop d =
    (Inr (Suc n), bytes_at m a n @ 0 # drop (Suc n) d)"
  using assms
proof (induction "n - i" arbitrary: i d)
  case 0
  then have "i = n" by simp
  moreover have "d[n := 0] = bytes_at m a n @ 0 # drop (Suc n) d" using 0(3,8) \<open>i = n\<close> by (simp add: upd_conv_take_nth_drop)
  ultimately show ?case using 0 by (subst copystr.simps) (simp add: readable_def)
next
  case (Suc k)
  let ?d = "d[i := um_data m (a + of_nat i)]"
  have i: "i < n" using Suc(2) by simp
  have "take (Suc i) ?d = take (Suc i) (bytes_at m a n)"
    using Suc(9) i Suc(4) by (simp add: take_Suc_conv_app_nth bytes_at_def)
  moreover have "k = n - Suc i" using Suc(2) by simp
  ultimately have "copystr (\<lambda>i _. if um_read m (a + of_nat i) then Some (um_data m (a + of_nat i)) else None) (\<lambda>i b d. Some (d[i := b])) (Suc i) (length ?d) stop ?d =
      (Inr (Suc n), bytes_at m a n @ 0 # drop (Suc n) ?d)"
    using Suc(1) [of "Suc i" ?d] Suc(4-8) i by simp
  then show ?case using Suc(4-7) i by (subst copystr.simps) (simp add: readable_def)
qed

subsection \<open>Properties\<close>

text \<open>
  C38.  User pointers are checked.  \<open>copyout\<close> succeeds exactly when the whole range is in user space,
  not empty and writable; then exactly these bytes are replaced, and \<open>copyin\<close> reads them back.  Whatever
  address and length a process passes, \<open>copyout\<close> changes no byte at or above \<open>USERSPACETOP\<close>.
\<close>

theorem copyout_checked:
  assumes n: "length src < 2 ^ 32"
  shows "(fst (copyout src a m) = None \<longleftrightarrow> user_range a (length src) \<and> writable m a (length src)) \<and>
    (\<forall>x. USERSPACETOP \<le> x \<longrightarrow> um_data (snd (copyout src a m)) x = um_data m x) \<and>
    (fst (copyout src a m) = None \<longrightarrow> snd (copyout src a m) = stored a src m \<and>
       (readable m a (length src) \<longrightarrow> (\<forall>d. length d = length src \<longrightarrow> copyin a d (snd (copyout src a m)) = (None, src))))"
proof (cases "copycheck a (of_nat (length src)) = Inr (of_nat (length src))")
  case True
  then have r: "user_range a (length src)" using copycheck_ok_iff [OF n] by simp
  have eq: "copyout src a m = (if snd (store_bytes a src m) then None else Some EFAULT, fst (store_bytes a src m))"
    using True by (simp add: copyout_def split_beta)
  have "um_data (fst (store_bytes a src m)) x = um_data m x" if "USERSPACETOP \<le> x" for x
    by (rule store_bytes_outside) (use user_range_below(2) [OF r] that in force)
  moreover have "copyin a d (stored a src m) = (None, src)" if "readable m a (length src)" "length d = length src" for d
    using copyin_ok [of d a "stored a src m"] that n r bytes_at_stored [OF n] by (simp add: readable_def stored_def)
  ultimately show ?thesis using r store_bytes_ok [OF _ n] by (auto simp: eq store_bytes_iff)
next
  case False
  then show ?thesis using copycheck_ok_iff [OF n] by (auto simp: copyout_def split: sum.splits)
qed

theorem copyout_checked_witness:
  "fst (copyout [1, 2, 3] 0x400000 \<lparr>um_data = (\<lambda>_. 0), um_read = (\<lambda>_. True), um_write = (\<lambda>a. a < 0x400003), um_as = 0\<rparr>) = None \<and>
   fst (copyout [1, 2, 3] 0x7fffffff \<lparr>um_data = (\<lambda>_. 0), um_read = (\<lambda>_. True), um_write = (\<lambda>_. True), um_as = 0\<rparr>) \<noteq> None"
proof -
  have "writable \<lparr>um_data = (\<lambda>_. 0), um_read = (\<lambda>_. True), um_write = (\<lambda>a. a < 0x400003), um_as = 0\<rparr> 0x400000 3"
  proof -
    have "i = 0 \<or> i = 1 \<or> i = 2" if "i < 3" for i :: nat using that by auto
    then show ?thesis unfolding writable_def by fastforce
  qed
  moreover have "user_range 0x400000 3" "\<not> user_range 0x7fffffff 3" by (simp_all add: user_range_def)
  ultimately show ?thesis
    using copyout_checked [of "[1, 2, 3]" "0x400000" "\<lparr>um_data = (\<lambda>_. 0), um_read = (\<lambda>_. True), um_write = (\<lambda>a. a < 0x400003), um_as = 0\<rparr>"]
      copyout_checked [of "[1, 2, 3]" "0x7fffffff" "\<lparr>um_data = (\<lambda>_. 0), um_read = (\<lambda>_. True), um_write = (\<lambda>_. True), um_as = 0\<rparr>"] by (simp add: numeral_3_eq_3)
qed

end
