(* ===== verification/Uio.thy ===== *)
theory Uio
  imports Copyinout
begin

text \<open>
  Transfers described by a \<open>struct uio\<close>, src/kern/lib/uio.c.  An I/O vector is a range of user memory, or a
  kernel buffer, given by the bytes already passed and those still to come.  \<open>uiomove\<close> takes and returns
  the bytes of the kernel buffer it is called with.  It moves chunks; the lemmas show that this is the
  same as moving one byte after the other.
\<close>

subsection \<open>Model\<close>

datatype uio_rw = UIO_READ | UIO_WRITE

datatype uio_seg = UIO_USERISPACE | UIO_USERSPACE | UIO_SYSSPACE

datatype iovec = Kvec "u8 list" "u8 list" | Uvec u32 nat

fun iov_len :: "iovec \<Rightarrow> nat" where
  "iov_len (Kvec done rest) = length rest"
| "iov_len (Uvec base n) = n"

record uio =
  uio_iov :: "iovec list"
  uio_offset :: int
  uio_resid :: nat
  uio_segflg :: uio_seg
  uio_rw :: uio_rw
  uio_space :: u32

text \<open>One turn of the loop: the bytes \<open>chunk\<close> of the buffer and the start of the vector.  A kernel pointer
  used as a user pointer, or the other way round, has no defined outcome.\<close>

fun iov_move :: "uio_seg \<Rightarrow> uio_rw \<Rightarrow> u8 list \<Rightarrow> iovec \<Rightarrow> umem \<Rightarrow> (errno option \<times> u8 list \<times> iovec \<times> umem) kres" where
  "iov_move UIO_SYSSPACE UIO_READ chunk (Kvec d r) m = Some (None, chunk, Kvec (d @ chunk) (drop (length chunk) r), m)"
| "iov_move UIO_SYSSPACE UIO_WRITE chunk (Kvec d r) m =
     Some (None, take (length chunk) r, Kvec (d @ take (length chunk) r) (drop (length chunk) r), m)"
| "iov_move UIO_SYSSPACE _ chunk (Uvec a n) m = None"
| "iov_move _ UIO_READ chunk (Uvec a n) m =
     (case copyout chunk a m of
        (None, m') \<Rightarrow> Some (None, chunk, Uvec (a + of_nat (length chunk)) (n - length chunk), m')
      | (Some e, m') \<Rightarrow> Some (Some e, chunk, Uvec a n, m'))"
| "iov_move _ UIO_WRITE chunk (Uvec a n) m =
     (case copyin a chunk m of
        (None, c') \<Rightarrow> Some (None, c', Uvec (a + of_nat (length chunk)) (n - length chunk), m)
      | (Some e, c') \<Rightarrow> Some (Some e, c', Uvec a n, m))"
| "iov_move _ _ chunk (Kvec d r) m = None"

text \<open>The subtraction from the 32-bit residue wraps.\<close>

definition sub32 :: "nat \<Rightarrow> nat \<Rightarrow> nat" where
  "sub32 a b = (a + 2 ^ 32 - b) mod 2 ^ 32"

function uiomove_loop :: "u8 list \<Rightarrow> u8 list \<Rightarrow> uio \<Rightarrow> umem \<Rightarrow> (errno option \<times> u8 list \<times> uio \<times> umem) kres" where
  "uiomove_loop moved ptr u m =
     (if ptr \<noteq> [] \<and> uio_resid u > 0 then
        (case uio_iov u of
           [] \<Rightarrow> None
         | iov # iovs \<Rightarrow>
             let size = min (iov_len iov) (length ptr) in
             if size = 0 then (if iovs = [] then None else uiomove_loop moved ptr (u\<lparr>uio_iov := iovs\<rparr>) m)
             else
               (case iov_move (uio_segflg u) (uio_rw u) (take size ptr) iov m of
                  None \<Rightarrow> None
                | Some (Some e, c, iov', m') \<Rightarrow> Some (Some e, moved @ c @ drop size ptr, u\<lparr>uio_iov := iov' # iovs\<rparr>, m')
                | Some (None, c, iov', m') \<Rightarrow>
                    uiomove_loop (moved @ c) (drop size ptr)
                      (u\<lparr>uio_iov := iov' # iovs, uio_resid := sub32 (uio_resid u) size, uio_offset := uio_offset u + int size\<rparr>) m'))
      else Some (None, moved @ ptr, u, m))"
  by pat_completeness auto
termination
  by (relation "measures [\<lambda>(_, ptr, _, _). length ptr, \<lambda>(_, _, u, _). length (uio_iov u)]") auto

declare uiomove_loop.simps [simp del]

definition uiomove :: "u8 list \<Rightarrow> uio \<Rightarrow> umem \<Rightarrow> (errno option \<times> u8 list \<times> uio \<times> umem) kres" where
  "uiomove ptr u m = do {
     kassert (if uio_segflg u = UIO_SYSSPACE then uio_space u = 0 else uio_space u = um_as m);
     uiomove_loop [] ptr u m
   }"

function uiomovezeros :: "nat \<Rightarrow> uio \<Rightarrow> umem \<Rightarrow> (errno option \<times> uio \<times> umem) kres" where
  "uiomovezeros n u m = do {
     kassert (uio_rw u = UIO_READ);
     if n > 0 then
       let amt = min 16 n in
       (case uiomove (replicate amt 0) u m of
          None \<Rightarrow> None
        | Some (Some e, _, u', m') \<Rightarrow> Some (Some e, u', m')
        | Some (None, _, u', m') \<Rightarrow> uiomovezeros (n - amt) u' m')
     else Some (None, u, m)
   }"
  by pat_completeness auto
termination
  by (relation "measure (\<lambda>(n, _, _). n)") auto

declare uiomovezeros.simps [simp del]

definition uio_kinit :: "u8 list \<Rightarrow> int \<Rightarrow> uio_rw \<Rightarrow> uio" where
  "uio_kinit kbuf pos rw = \<lparr>uio_iov = [Kvec [] kbuf], uio_offset = pos, uio_resid = length kbuf, uio_segflg = UIO_SYSSPACE,
     uio_rw = rw, uio_space = 0\<rparr>"

subsection \<open>Byte after byte\<close>

fun put_byte :: "u8 \<Rightarrow> iovec list \<times> umem \<Rightarrow> iovec list \<times> umem" where
  "put_byte b (Kvec d (x # r) # iovs, m) = (Kvec (d @ [b]) r # iovs, m)"
| "put_byte b (Uvec a (Suc n) # iovs, m) = (Uvec (a + 1) n # iovs, stored a [b] m)"
| "put_byte b (iov # iovs, m) = put_byte b (iovs, m)"
| "put_byte b ([], m) = ([], m)"

fun get_byte :: "umem \<Rightarrow> iovec list \<Rightarrow> u8 \<times> iovec list" where
  "get_byte m (Kvec d (x # r) # iovs) = (x, Kvec (d @ [x]) r # iovs)"
| "get_byte m (Uvec a (Suc n) # iovs) = (um_data m a, Uvec (a + 1) n # iovs)"
| "get_byte m (iov # iovs) = get_byte m iovs"
| "get_byte m [] = (0, [])"

fun get_bytes :: "nat \<Rightarrow> umem \<Rightarrow> iovec list \<Rightarrow> u8 list \<times> iovec list" where
  "get_bytes 0 m iovs = ([], iovs)"
| "get_bytes (Suc n) m iovs = (let (b, i1) = get_byte m iovs; (bs, i2) = get_bytes n m i1 in (b # bs, i2))"

lemma get_bytes_add: "get_bytes (n + k) m iovs = (let (bs, i1) = get_bytes n m iovs; (cs, i2) = get_bytes k m i1 in (bs @ cs, i2))"
  by (induction n arbitrary: iovs) (auto simp: Let_def split_beta)

lemma length_get_bytes [simp]: "length (fst (get_bytes n m iovs)) = n"
  by (induction n arbitrary: iovs) (auto simp: Let_def split_beta)

lemma stored_one: "stored a [b] m = m\<lparr>um_data := (um_data m)(a := b)\<rparr>"
proof -
  have "unat (x - a) < 1 \<longleftrightarrow> x = a" for x using unat_gt_0 [of "x - a"] by auto
  then have "(\<lambda>x. if unat (x - a) < 1 then [b] ! unat (x - a) else um_data m x) = (um_data m)(a := b)" by (auto simp: fun_eq_iff)
  then show ?thesis by (simp add: stored_def)
qed

lemma put_chunk_K: "length c \<le> length r \<Longrightarrow> fold put_byte c (Kvec d r # iovs, m) = (Kvec (d @ c) (drop (length c) r) # iovs, m)"
proof (induction c arbitrary: d r)
  case (Cons b c)
  then show ?case by (cases r) simp_all
qed simp

lemma put_chunk_U:
  "length c \<le> n \<Longrightarrow> n \<le> 2 ^ 31 \<Longrightarrow> fold put_byte c (Uvec a n # iovs, m) = (Uvec (a + of_nat (length c)) (n - length c) # iovs, stored a c m)"
proof (induction c arbitrary: a n m)
  case (Cons b c)
  then obtain k where k: "n = Suc k" by (cases n) auto
  have "stored (a + 1) c (stored a [b] m) = stored a (b # c) m" using stored_Cons [of c a m b] Cons(2,3) by (simp add: stored_one)
  then show ?case using Cons k by (simp add: ac_simps)
qed (simp add: stored_def)

lemma get_chunk_K: "k \<le> length r \<Longrightarrow> get_bytes k m (Kvec d r # iovs) = (take k r, Kvec (d @ take k r) (drop k r) # iovs)"
proof (induction k arbitrary: d r)
  case (Suc k)
  then show ?case by (cases r) simp_all
qed simp

lemma get_chunk_U: "k \<le> n \<Longrightarrow> get_bytes k m (Uvec a n # iovs) = (bytes_at m a k, Uvec (a + of_nat k) (n - k) # iovs)"
proof (induction k arbitrary: a n)
  case (Suc k)
  then show ?case by (cases n) (simp_all add: bytes_at_Suc ac_simps)
qed (simp add: bytes_at_def)

lemma put_skip: "iov_len iov = 0 \<Longrightarrow> c \<noteq> [] \<Longrightarrow> fold put_byte c (iov # iovs, m) = fold put_byte c (iovs, m)"
  by (cases iov; cases c) auto

lemma get_skip: "iov_len iov = 0 \<Longrightarrow> 0 < n \<Longrightarrow> get_bytes n m (iov # iovs) = get_bytes n m iovs"
  by (cases iov; cases n) auto

subsection \<open>Chunks and bytes\<close>

text \<open>A vector that fits the transfer: user memory is in range and accessible.\<close>

fun iov_fit :: "uio_seg \<Rightarrow> uio_rw \<Rightarrow> umem \<Rightarrow> iovec \<Rightarrow> bool" where
  "iov_fit UIO_SYSSPACE rw m (Kvec d r) \<longleftrightarrow> True"
| "iov_fit UIO_SYSSPACE rw m (Uvec a n) \<longleftrightarrow> False"
| "iov_fit seg rw m (Uvec a n) \<longleftrightarrow> n = 0 \<or> user_range a n \<and> (if rw = UIO_READ then writable m a n else readable m a n)"
| "iov_fit seg rw m (Kvec d r) \<longleftrightarrow> False"

definition uio_fit :: "uio \<Rightarrow> umem \<Rightarrow> bool" where
  "uio_fit u m \<longleftrightarrow> (\<forall>iov \<in> set (uio_iov u). iov_fit (uio_segflg u) (uio_rw u) m iov) \<and>
     (if uio_segflg u = UIO_SYSSPACE then uio_space u = 0 else uio_space u = um_as m) \<and> uio_resid u < 2 ^ 32"

definition room :: "iovec list \<Rightarrow> nat" where
  "room iovs = sum_list (map iov_len iovs)"

definition advanced :: "nat \<Rightarrow> iovec list \<Rightarrow> uio \<Rightarrow> uio" where
  "advanced n iovs u = u\<lparr>uio_iov := iovs, uio_resid := uio_resid u - n, uio_offset := uio_offset u + int n\<rparr>"

lemma stored_access [simp]: "writable (stored a c m) = writable m" "readable (stored a c m) = readable m" "um_as (stored a c m) = um_as m"
  by (auto simp: fun_eq_iff writable_def readable_def stored_def)

lemma iov_fit_stored [simp]: "iov_fit seg rw (stored a c m) iov = iov_fit seg rw m iov"
  by (cases seg; cases iov) simp_all

lemma sub32_le: "b \<le> a \<Longrightarrow> a < 2 ^ 32 \<Longrightarrow> sub32 a b = a - b"
proof -
  assume *: "b \<le> a" "a < 2 ^ 32"
  then have "a + 2 ^ 32 - b = (a - b) + 2 ^ 32" by simp
  then have "sub32 a b = (a - b) mod 2 ^ 32" unfolding sub32_def by (simp only: mod_add_self2)
  then show ?thesis using * by simp
qed

lemma user_range_part: "user_range a n \<Longrightarrow> k < n \<Longrightarrow> user_range (a + of_nat k) (n - k)"
  using user_range_below(1) [of a n k] by (auto simp: user_range_def)

lemma user_range_start: "user_range a n \<Longrightarrow> 0 < k \<Longrightarrow> k \<le> n \<Longrightarrow> user_range a k"
  by (auto simp: user_range_def)

lemma access_part:
  "writable m a n \<Longrightarrow> k \<le> n \<Longrightarrow> writable m a k" "readable m a n \<Longrightarrow> k \<le> n \<Longrightarrow> readable m a k"
  "writable m a n \<Longrightarrow> writable m (a + of_nat k) (n - k)" "readable m a n \<Longrightarrow> readable m (a + of_nat k) (n - k)"
proof -
  have *: "a + of_nat k + of_nat i = a + of_nat (k + i)" for i :: nat by (simp add: ac_simps)
  show "writable m a n \<Longrightarrow> writable m (a + of_nat k) (n - k)" "readable m a n \<Longrightarrow> readable m (a + of_nat k) (n - k)"
    unfolding writable_def readable_def * by (simp_all add: less_diff_conv add.commute del: of_nat_add)
qed (auto simp: writable_def readable_def)

text \<open>One turn of the loop.\<close>

lemma move_READ:
  assumes fit: "iov_fit seg UIO_READ m iov" and c: "0 < length c" "length c \<le> iov_len iov"
  obtains iov' m' where "iov_move seg UIO_READ c iov m = Some (None, c, iov', m')" and "fold put_byte c (iov # iovs, m) = (iov' # iovs, m')"
    and "iov_fit seg UIO_READ m' iov'" and "iov_len iov' = iov_len iov - length c" and "\<And>x. iov_fit seg UIO_READ m' x = iov_fit seg UIO_READ m x" and "um_as m' = um_as m"
proof (cases iov)
  case (Kvec d r)
  then show thesis using that fit c put_chunk_K [of c r d iovs m] by (cases seg) simp_all
next
  case (Uvec a n)
  then have r: "seg \<noteq> UIO_SYSSPACE" "user_range a n" "writable m a n" using fit c by (cases seg; force)+
  then have n: "n \<le> 2 ^ 31" by (simp add: user_range_def)
  have "copyout c a m = (None, stored a c m)"
    using copyout_ok [of c a m] access_part(1) [OF r(3), of "length c"] user_range_start [OF r(2) c(1)] c(2) n Uvec by simp
  moreover have "iov_fit seg UIO_READ (stored a c m) (Uvec (a + of_nat (length c)) (n - length c))"
    using r user_range_part [OF r(2), of "length c"] access_part(3) [OF r(3), of "length c"] c(2) Uvec by (cases seg; cases "n = length c") auto
  ultimately show thesis
    using that [of "Uvec (a + of_nat (length c)) (n - length c)" "stored a c m"] put_chunk_U [OF _ n, of c a iovs m] Uvec r(1) c(2) by (cases seg) simp_all
qed

lemma move_WRITE:
  assumes fit: "iov_fit seg UIO_WRITE m iov" and c: "0 < length c" "length c \<le> iov_len iov"
  obtains c' iov' where "iov_move seg UIO_WRITE c iov m = Some (None, c', iov', m)" and "get_bytes (length c) m (iov # iovs) = (c', iov' # iovs)"
    and "iov_fit seg UIO_WRITE m iov'" and "iov_len iov' = iov_len iov - length c"
proof (cases iov)
  case (Kvec d r)
  then show thesis using that fit c get_chunk_K [of "length c" r m d iovs] by (cases seg) simp_all
next
  case (Uvec a n)
  then have r: "seg \<noteq> UIO_SYSSPACE" "user_range a n" "readable m a n" using fit c by (cases seg; force)+
  then have n: "n \<le> 2 ^ 31" by (simp add: user_range_def)
  have "copyin a c m = (None, bytes_at m a (length c))"
    using copyin_ok [of c a m] access_part(2) [OF r(3), of "length c"] user_range_start [OF r(2) c(1)] c(2) n Uvec by simp
  moreover have "iov_fit seg UIO_WRITE m (Uvec (a + of_nat (length c)) (n - length c))"
    using r user_range_part [OF r(2), of "length c"] access_part(4) [OF r(3), of "length c"] c(2) Uvec by (cases seg; cases "n = length c") auto
  ultimately show thesis
    using that [of "bytes_at m a (length c)" "Uvec (a + of_nat (length c)) (n - length c)"] get_chunk_U [of "length c" n m a iovs] Uvec r(1) c(2) by (cases seg) simp_all
qed

lemma fit_next: "uio_fit u m \<Longrightarrow> uio_iov u = iov # iovs \<Longrightarrow> uio_fit (u\<lparr>uio_iov := iovs\<rparr>) m \<and> iov_fit (uio_segflg u) (uio_rw u) m iov"
  by (simp add: uio_fit_def)

lemma room_Cons [simp]: "room (iov # iovs) = iov_len iov + room iovs" "room [] = 0"
  by (simp_all add: room_def)

lemma advanced_0 [simp]: "advanced 0 (uio_iov u) u = u"
  by (simp add: advanced_def)

lemma loop_READ:
  assumes "uio_fit u m" and "uio_rw u = UIO_READ" and "length ptr \<le> uio_resid u" and "length ptr \<le> room (uio_iov u)"
  shows "\<exists>iovs m'. fold put_byte ptr (uio_iov u, m) = (iovs, m') \<and> uiomove_loop moved ptr u m = Some (None, moved @ ptr, advanced (length ptr) iovs u, m') \<and>
    uio_fit (advanced (length ptr) iovs u) m' \<and> room iovs = room (uio_iov u) - length ptr"
  using assms
proof (induction "length ptr + length (uio_iov u)" arbitrary: moved ptr u m rule: less_induct)
  case less
  show ?case
  proof (cases "ptr = []")
    case True
    then show ?thesis using less(2) by (subst uiomove_loop.simps) (simp add: advanced_def)
  next
    case False
    then have pos: "0 < uio_resid u" using less(4) by (cases ptr) auto
    obtain iov iovs where iov: "uio_iov u = iov # iovs" using less(5) False by (cases "uio_iov u") auto
    have fit: "uio_fit (u\<lparr>uio_iov := iovs\<rparr>) m" "iov_fit (uio_segflg u) UIO_READ m iov" using fit_next [OF less(2) iov] less(3) by simp_all
    show ?thesis
    proof (cases "iov_len iov = 0")
      case True
      then have "iovs \<noteq> []" using less(5) False iov by auto
      moreover have "fold put_byte ptr (uio_iov u, m) = fold put_byte ptr (iovs, m)" using put_skip [OF True False] iov by simp
      ultimately show ?thesis
        using less(1) [of ptr "u\<lparr>uio_iov := iovs\<rparr>" m moved] fit(1) less(3-5) iov True False pos
        by (subst uiomove_loop.simps) (auto simp: advanced_def)
    next
      case n0: False
      define sz where "sz = min (iov_len iov) (length ptr)"
      define c where "c = take sz ptr"
      have nz: "sz \<noteq> 0" using False n0 by (simp add: sz_def min_def)
      have c: "0 < length c" "length c \<le> iov_len iov" "length c = sz" "length c \<le> length ptr" using False n0 by (auto simp: c_def sz_def)
      obtain iov' m' where mv: "iov_move (uio_segflg u) UIO_READ c iov m = Some (None, c, iov', m')" "fold put_byte c (iov # iovs, m) = (iov' # iovs, m')"
          "iov_fit (uio_segflg u) UIO_READ m' iov'" "iov_len iov' = iov_len iov - length c" "\<And>x. iov_fit (uio_segflg u) UIO_READ m' x = iov_fit (uio_segflg u) UIO_READ m x"
          "um_as m' = um_as m"
        using fit(2) c(1,2) by (rule move_READ) blast
      let ?u = "u\<lparr>uio_iov := iov' # iovs, uio_resid := uio_resid u - length c, uio_offset := uio_offset u + int (length c)\<rparr>" and ?ptr = "drop (length c) ptr"
      have r: "sub32 (uio_resid u) (length c) = uio_resid u - length c" by (rule sub32_le) (use less(2,4) c(4) in \<open>auto simp: uio_fit_def\<close>)
      have ptr: "ptr = c @ ?ptr" unfolding c(3) by (simp add: c_def)
      have fit': "uio_fit ?u m'" using less(2,3) iov mv(3,5,6) by (auto simp: uio_fit_def)
      have p: "uio_rw ?u = UIO_READ" "length ?ptr \<le> uio_resid ?u" "length ?ptr \<le> room (uio_iov ?u)" using less(3-5) mv(4) c(2,4) iov by simp_all
      have "length ?ptr + length (uio_iov ?u) < length ptr + length (uio_iov u)" using c(1,4) iov by (simp del: length_greater_0_conv)
      moreover have e: "uio_iov ?u = iov' # iovs" by simp
      ultimately obtain iovs2 m2 where ih: "fold put_byte ?ptr (iov' # iovs, m') = (iovs2, m2)"
          "uiomove_loop (moved @ c) ?ptr ?u m' = Some (None, moved @ c @ ?ptr, advanced (length ?ptr) iovs2 ?u, m2)" "uio_fit (advanced (length ?ptr) iovs2 ?u) m2"
          "room iovs2 = room (iov' # iovs) - length ?ptr"
        using less(1) [OF _ fit' p, of "moved @ c", unfolded append_assoc] unfolding e by blast
      have adv: "advanced (length ?ptr) iovs2 ?u = advanced (length ptr) iovs2 u" using c(4) by (simp add: advanced_def)
      have "fold put_byte ptr (uio_iov u, m) = (iovs2, m2)" using ih(1) mv(2) iov by (subst ptr) simp
      moreover have "uiomove_loop moved ptr u m = Some (None, moved @ ptr, advanced (length ptr) iovs2 u, m2)"
        using ih(2) mv(1) False pos iov nz less(3) r c(3) ptr adv by (subst uiomove_loop.simps) (simp add: Let_def sz_def [symmetric] c_def [symmetric])
      moreover have "room iovs2 = room (uio_iov u) - length ptr" using ih(4) mv(4) iov c less(5) by simp
      ultimately show ?thesis using ih(3) unfolding adv by simp
    qed
  qed
qed

lemma loop_WRITE:
  assumes "uio_fit u m" and "uio_rw u = UIO_WRITE" and "length ptr \<le> uio_resid u" and "length ptr \<le> room (uio_iov u)"
  shows "\<exists>bs iovs. get_bytes (length ptr) m (uio_iov u) = (bs, iovs) \<and> uiomove_loop moved ptr u m = Some (None, moved @ bs, advanced (length ptr) iovs u, m) \<and>
    uio_fit (advanced (length ptr) iovs u) m \<and> room iovs = room (uio_iov u) - length ptr"
  using assms
proof (induction "length ptr + length (uio_iov u)" arbitrary: moved ptr u rule: less_induct)
  case less
  show ?case
  proof (cases "ptr = []")
    case True
    then show ?thesis using less(2) by (subst uiomove_loop.simps) (simp add: advanced_def)
  next
    case False
    then have pos: "0 < uio_resid u" using less(4) by (cases ptr) auto
    obtain iov iovs where iov: "uio_iov u = iov # iovs" using less(5) False by (cases "uio_iov u") auto
    have fit: "uio_fit (u\<lparr>uio_iov := iovs\<rparr>) m" "iov_fit (uio_segflg u) UIO_WRITE m iov" using fit_next [OF less(2) iov] less(3) by simp_all
    show ?thesis
    proof (cases "iov_len iov = 0")
      case True
      then have "iovs \<noteq> []" using less(5) False iov by auto
      moreover have "get_bytes (length ptr) m (uio_iov u) = get_bytes (length ptr) m iovs" using get_skip [OF True, of "length ptr"] False iov by simp
      ultimately show ?thesis
        using less(1) [of ptr "u\<lparr>uio_iov := iovs\<rparr>" moved] fit(1) less(3-5) iov True False pos
        by (subst uiomove_loop.simps) (auto simp: advanced_def)
    next
      case n0: False
      define sz where "sz = min (iov_len iov) (length ptr)"
      define c where "c = take sz ptr"
      have nz: "sz \<noteq> 0" using False n0 by (simp add: sz_def min_def)
      have c: "0 < length c" "length c \<le> iov_len iov" "length c = sz" "length c \<le> length ptr" using False n0 by (auto simp: c_def sz_def)
      obtain c' iov' where mv: "iov_move (uio_segflg u) UIO_WRITE c iov m = Some (None, c', iov', m)" "get_bytes (length c) m (iov # iovs) = (c', iov' # iovs)"
          "iov_fit (uio_segflg u) UIO_WRITE m iov'" "iov_len iov' = iov_len iov - length c"
        using fit(2) c(1,2) by (rule move_WRITE)
      let ?u = "u\<lparr>uio_iov := iov' # iovs, uio_resid := uio_resid u - length c, uio_offset := uio_offset u + int (length c)\<rparr>" and ?ptr = "drop (length c) ptr"
      have r: "sub32 (uio_resid u) (length c) = uio_resid u - length c" by (rule sub32_le) (use less(2,4) c(4) in \<open>auto simp: uio_fit_def\<close>)
      have fit': "uio_fit ?u m" using less(2,3) iov mv(3) by (auto simp: uio_fit_def)
      have p: "uio_rw ?u = UIO_WRITE" "length ?ptr \<le> uio_resid ?u" "length ?ptr \<le> room (uio_iov ?u)" using less(3-5) mv(4) c(2,4) iov by simp_all
      have "length ?ptr + length (uio_iov ?u) < length ptr + length (uio_iov u)" using c(1,4) iov by (simp del: length_greater_0_conv)
      moreover have e: "uio_iov ?u = iov' # iovs" by simp
      ultimately obtain bs iovs2 where ih: "get_bytes (length ?ptr) m (iov' # iovs) = (bs, iovs2)"
          "uiomove_loop (moved @ c') ?ptr ?u m = Some (None, moved @ c' @ bs, advanced (length ?ptr) iovs2 ?u, m)" "uio_fit (advanced (length ?ptr) iovs2 ?u) m"
          "room iovs2 = room (iov' # iovs) - length ?ptr"
        using less(1) [OF _ fit' p, of "moved @ c'", unfolded append_assoc] unfolding e by blast
      have adv: "advanced (length ?ptr) iovs2 ?u = advanced (length ptr) iovs2 u" using c(4) by (simp add: advanced_def)
      have "length ptr = length c + length ?ptr" using c(4) by simp
      then have "get_bytes (length ptr) m (uio_iov u) = (c' @ bs, iovs2)" using ih(1) mv(2) iov by (simp only: get_bytes_add) simp
      moreover have "uiomove_loop moved ptr u m = Some (None, moved @ c' @ bs, advanced (length ptr) iovs2 u, m)"
        using ih(2) mv(1) False pos iov nz less(3) r c(3) adv by (subst uiomove_loop.simps) (simp add: Let_def sz_def [symmetric] c_def [symmetric])
      moreover have "room iovs2 = room (uio_iov u) - length ptr" using ih(4) mv(4) iov c less(5) by simp
      ultimately show ?thesis using ih(3) unfolding adv by simp
    qed
  qed
qed

lemma uiomove_READ:
  assumes "uio_fit u m" and "uio_rw u = UIO_READ" and "length ptr \<le> uio_resid u" and "length ptr \<le> room (uio_iov u)"
  obtains iovs m' where "fold put_byte ptr (uio_iov u, m) = (iovs, m')" and "uiomove ptr u m = Some (None, ptr, advanced (length ptr) iovs u, m')"
    and "uio_fit (advanced (length ptr) iovs u) m'" and "room iovs = room (uio_iov u) - length ptr"
  using loop_READ [OF assms, of "[]"] that assms(1) by (auto simp: uiomove_def uio_fit_def)

lemma uiomove_WRITE:
  assumes "uio_fit u m" and "uio_rw u = UIO_WRITE" and "length ptr \<le> uio_resid u" and "length ptr \<le> room (uio_iov u)"
  obtains bs iovs where "get_bytes (length ptr) m (uio_iov u) = (bs, iovs)" and "uiomove ptr u m = Some (None, bs, advanced (length ptr) iovs u, m)"
    and "uio_fit (advanced (length ptr) iovs u) m" and "room iovs = room (uio_iov u) - length ptr"
  using loop_WRITE [OF assms, of "[]"] that assms(1) by (auto simp: uiomove_def uio_fit_def)

lemma advanced_add: "n + k \<le> uio_resid u \<Longrightarrow> advanced k iovs' (advanced n iovs u) = advanced (n + k) iovs' u"
  by (simp add: advanced_def)

lemma advanced_simps [simp]: "uio_iov (advanced n iovs u) = iovs" "uio_rw (advanced n iovs u) = uio_rw u" "uio_resid (advanced n iovs u) = uio_resid u - n"
  "uio_offset (advanced n iovs u) = uio_offset u + int n" "uio_segflg (advanced n iovs u) = uio_segflg u" "uio_space (advanced n iovs u) = uio_space u"
  by (simp_all add: advanced_def)

lemma movezeros_READ:
  assumes "uio_fit u m" and "uio_rw u = UIO_READ" and "n \<le> uio_resid u" and "n \<le> room (uio_iov u)"
  shows "\<exists>iovs m'. fold put_byte (replicate n 0) (uio_iov u, m) = (iovs, m') \<and> uiomovezeros n u m = Some (None, advanced n iovs u, m') \<and>
    uio_fit (advanced n iovs u) m' \<and> room iovs = room (uio_iov u) - n"
  using assms
proof (induction n arbitrary: u m rule: less_induct)
  case (less n)
  show ?case
  proof (cases "n = 0")
    case True
    then show ?thesis using less(2,3) by (subst uiomovezeros.simps) simp
  next
    case False
    define k where "k = min 16 n"
    have k: "0 < k" "k \<le> n" using False by (simp_all add: k_def)
    have pre: "length (replicate k (0 :: u8)) \<le> uio_resid u" "length (replicate k (0 :: u8)) \<le> room (uio_iov u)" using less(4,5) k(2) by simp_all
    obtain iovs m' where mv: "fold put_byte (replicate k 0) (uio_iov u, m) = (iovs, m')" "uiomove (replicate k 0) u m = Some (None, replicate k 0, advanced k iovs u, m')"
        "uio_fit (advanced k iovs u) m'" "room iovs = room (uio_iov u) - k"
      by (rule uiomove_READ [OF less(2,3) pre]) simp
    obtain iovs2 m2 where ih: "fold put_byte (replicate (n - k) 0) (iovs, m') = (iovs2, m2)" "uiomovezeros (n - k) (advanced k iovs u) m' = Some (None, advanced n iovs2 u, m2)"
        "uio_fit (advanced n iovs2 u) m2" "room iovs2 = room iovs - (n - k)"
    proof -
      have p: "n - k < n" "uio_rw (advanced k iovs u) = UIO_READ" "n - k \<le> uio_resid (advanced k iovs u)" "n - k \<le> room (uio_iov (advanced k iovs u))"
        using less(3-5) mv(4) k by (simp_all add: diff_le_mono)
      have "advanced (n - k) x (advanced k iovs u) = advanced n x u" for x using advanced_add [of k "n - k" u x iovs] less(4) k(2) by simp
      then show thesis using that less(1) [OF p(1) mv(3) p(2-4)] by auto
    qed
    have "replicate n (0 :: u8) = replicate k 0 @ replicate (n - k) 0" using k(2) by (simp add: replicate_add [symmetric])
    then have "fold put_byte (replicate n 0) (uio_iov u, m) = (iovs2, m2)" using mv(1) ih(1) by simp
    moreover have "uiomovezeros n u m = Some (None, advanced n iovs2 u, m2)"
      using mv(2) ih(2) less(3) False by (subst uiomovezeros.simps) (simp add: Let_def k_def)
    ultimately show ?thesis using ih(3,4) mv(4) k(2) by simp
  qed
qed

subsection \<open>Properties\<close>



end
