(* ===== verification/Spec2Isabelle.thy ===== *)
theory Spec2Isabelle
  imports Kernel_Prelude Bswap Bitmap Coremap Kmalloc_Correct Arrays Ring_Queue Addrspace_Correct Vm_Fault Threadlist Spinlock Synch_Correct Uio
begin

text \<open>
  A verification development for the kernel of Toy-OS, an OS/161 kernel for a MIPS machine
  (src/kern).  The configuration is the one of assignment 3: options A1, A2, A3, dumbvm and sfs on,
  synchprobs off.  The machine is big endian, pages have 4096 bytes, and there are several
  processors.

  \<^bold>\<open>The parts and how they interact.\<close>  The kernel takes physical pages from the boot allocator
  (arch/mips/vm/ram.c) until \<open>vm_bootstrap\<close> sets up the coremap (arch/mips/vm/dumbvm.c).  The kernel
  heap (vm/kmalloc.c) cuts pages of the coremap into blocks.  The library structures (lib/array.c,
  lib/queue.c, lib/bitmap.c) keep their data in blocks of the heap.  Address spaces (dumbvm.c)
  take their page tables and frames from the coremap, and the fault handler enters frames in the
  translation buffer.  Threads (thread/thread.c) take their structures and stacks from the heap,
  and are kept in linked lists (thread/threadlist.c): the run queues of the processors and
  the wait channels.  Spinlocks (thread/spinlock.c) and interrupt levels (thread/spl.c) protect them.
  Semaphores, locks and condition variables (thread/synch.c) are built on wait channels.

  \<^bold>\<open>Conventions.\<close>  A function that can fail an assertion, panic, follow a null pointer, leave an array
  or run forever has an option type, with \<open>None\<close> for these outcomes; a theorem that a call returns
  shows that the result is \<open>Some\<close>.  Errors that the code returns are values \<open>Inl e\<close> of a sum.
  Machine integers are 32-bit words, or numbers with the reduction written out.  State is passed
  explicitly, in records named after the structures.  A body that runs under one spinlock, which
  includes every heap and coremap operation, is one step.

  \<^bold>\<open>Theories.\<close>
  \<^item> \<open>Kernel_Prelude\<close>: types, error numbers, the option monad, checked array access, and lemmas on lists
    and words.  \<open>Bswap\<close>: byte order (lib/bswap.c).
  \<^item> \<open>Memory_Interface\<close>: the locales \<open>page_allocator\<close> and \<open>kernel_heap\<close>, the contracts of the memory
    components, with lemmas for their clients.
  \<^item> \<open>Bitmap\<close>, \<open>Arrays\<close>, \<open>Ring_Queue\<close>: the library structures, with the allocator as an argument; what they
    need of it is proved from \<open>kernel_heap\<close>.  They refine sets and lists.
  \<^item> \<open>Coremap\<close>: ram.c and the coremap; it interprets \<open>page_allocator\<close> twice, for frames and for kernel
    pages.  The search is first fit and fails only when no run of frames is free.
  \<^item> \<open>Kmalloc\<close> (definitions), \<open>Kmalloc_Inv\<close> (the invariant \<open>heap_inv\<close>), \<open>Kmalloc_Correct\<close> (\<open>kmalloc\<close> and
    \<open>kfree\<close> keep it, hand out disjoint blocks and change no live block); the last interprets
    \<open>kernel_heap\<close>.  \<open>heap_inv k L X\<close> has the live blocks \<open>L\<close> and the page runs \<open>X\<close> owned by others.
  \<^item> \<open>Addrspace\<close>, \<open>Addrspace_Correct\<close>: the \<open>as_\<close> operations.  \<open>Vm_Fault\<close>: the fault handler and the
    translation buffer, as a step relation.
  \<^item> \<open>Threadlist\<close>: the linked lists at the level of pointers, refined to lists through the locale
    \<open>thread_queue\<close>.  \<open>Spinlock\<close>: interrupt levels and spinlocks, and the interleaving of the
    memory accesses of several processors.
  \<^item> \<open>Threads\<close>: thread.c and clock.c.  \<open>Threads_Inv\<close>: the invariant \<open>sinv E K s q\<close>: \<open>q\<close> gives the content
    of each list, \<open>E\<close> the lists that exist only during an operation, \<open>K\<close> the processor that holds
    its run queue.  \<open>Threads_Switch\<close>, \<open>Threads_Correct\<close>, \<open>Threads_Wake\<close>, \<open>Threads_Fork\<close>, \<open>Threads_Migrate\<close>: one
    group of operations each.  \<open>Threads_Sys\<close>: all operations together; progress, preservation and
    what holds in every reachable state.
  \<^item> \<open>Synch\<close>: synch.c.  A call that may sleep is cut at the sleep.  \<open>Synch_Correct\<close>: threads on several
    processors call the primitives and continue after sleeping, in any interleaving; calls in order never fail,
    locks exclude, semaphores count, and no wakeup is lost.
  \<^item> \<open>Copyinout\<close>: vm/copyinout.c; whatever a process passes, the kernel touches user addresses only.  \<open>Uio\<close>:
    lib/uio.c; moving chunks equals moving bytes.

  \<^bold>\<open>Bounds and fuel.\<close>  Loops that need not end are \<open>partial_function (option)\<close>, so not ending is \<open>None\<close>;
  the others are total.  Only the mutual recursion of \<open>q_grow\<close> and \<open>q_addtail\<close> in lib/queue.c has fuel:
  2, which is enough because the buffer that \<open>q_grow\<close> fills never becomes full, so \<open>q_addtail\<close> does
  not call it again.  The numeric bounds in hypotheses (\<open>2 ^ 27\<close> threads, names below \<open>2 ^ 30\<close>)
  exceed what 512 MB of memory can hold.

  \<^bold>\<open>Not modelled.\<close>  The trap entry, the context switch and the TLB instructions are assembly; the model
  states their effect.  The boot sequence of thread.c runs once, before there is a scheduler.  The
  device drivers (dev) talk to hardware.  The file system layer (vfs, fs/sfs), the processes and system
  calls (proc, syscall), the menu (startup), the tests and the user programs (user) are left out: the
  development covers the memory and the thread system, on which they rest.
\<close>

section \<open>Library structures on the kernel heap\<close>

text \<open>The client lemmas of the library structures hold for the kernel heap itself.\<close>

lemmas heap_bitmap_create = kernel_heap.bitmap_create_cases [OF kh.kernel_heap_axioms, consumes 2]
lemmas heap_bitmap_destroy = kernel_heap.bitmap_destroy_ok [OF kh.kernel_heap_axioms]
lemmas heap_array_add = kernel_heap.array_add_cases [OF kh.kernel_heap_axioms, consumes 4]
lemmas heap_q_addtail = kernel_heap.q_addtail_cases [OF kh.kernel_heap_axioms, consumes 4]



text \<open>
  C19.  The queue of pointers refines a list.  On a well-formed queue whose buffer is a block of the
  kernel heap, adding appends the pointer, growing the buffer when it is full, and fails only
  with \<open>ENOMEM\<close> when the buffer is full and cannot grow, and then changes nothing; removing
  returns the oldest pointer and leaves the others in order.
\<close>

theorem queue_refines_list:
  assumes inv: "heap_inv k L X" and wf: "q_wf q" and own: "L (q_dp q) = Some (4 * nat (q_size q))"
    and sz: "q_size q < 2 ^ 27"
  shows "((\<exists>k'. q_addtail kmalloc kfree 2 q x k = Some (q, Inl ENOMEM, k') \<and> heap_inv k' L X \<and>
         q_count q + 1 = q_size q) \<or>
      (\<exists>q' k' L'. q_addtail kmalloc kfree 2 q x k = Some (q', Inr (), k') \<and> heap_inv k' L' X \<and> q_wf q' \<and>
         L' (q_dp q') = Some (4 * nat (q_size q')) \<and> q_list q' = q_list q @ [x])) \<and>
    (case q_list q of [] \<Rightarrow> q_remhead q = None
     | y # ys \<Rightarrow> \<exists>q'. q_remhead q = Some (y, q') \<and> q_wf q' \<and> q_list q' = ys)"
proof -
  have add: "(\<exists>k'. q_addtail kmalloc kfree (Suc (Suc 0)) q x k = Some (q, Inl ENOMEM, k') \<and> heap_inv k' L X \<and>
         q_count q + 1 = q_size q) \<or>
      (\<exists>q' k' L'. q_addtail kmalloc kfree (Suc (Suc 0)) q x k = Some (q', Inr (), k') \<and> heap_inv k' L' X \<and> q_wf q' \<and>
         L' (q_dp q') = Some (4 * nat (q_size q')) \<and> q_list q' = q_list q @ [x])"
    using inv wf own sz by (cases rule: heap_q_addtail [where x = x and d = 0]) blast+
  have "case q_list q of [] \<Rightarrow> q_remhead q = None
     | y # ys \<Rightarrow> \<exists>q'. q_remhead q = Some (y, q') \<and> q_wf q' \<and> q_list q' = ys"
  proof (cases "q_list q")
    case Nil
    then have "q_count q = 0" using q_count_bounds [OF wf] length_q_list [of q] by simp
    then show ?thesis using Nil q_empty_count [OF wf] by (simp add: q_remhead_def)
  next
    case (Cons y ys)
    then have "q_count q > 0" using length_q_list [of q] by simp
    then show ?thesis using q_pop_ok [OF wf] Cons by auto
  qed
  with add show ?thesis unfolding numeral_2_eq_2 by blast
qed

theorem queue_refines_list_witness:
  "\<exists>k q' k'. kmalloc 2000 (kheap_init vm_sample (\<lambda>_. 0)) = Some (0x80031800, k) \<and>
     q_addtail kmalloc kfree 2 \<lparr>q_self = 0x80031000, q_dp = 0x80031800, q_size = 500, q_nextwrite = 0,
       q_nextread = 0, q_data = replicate 500 None\<rparr> True k = Some (q', Inr (), k') \<and> q_list q' = [True]"
proof (rule kheap_sample_block)
  fix k
  let ?q = "\<lparr>q_self = 0x80031000, q_dp = 0x80031800, q_size = 500, q_nextwrite = 0,
     q_nextread = 0, q_data = replicate 500 None\<rparr> :: bool queue"
  assume k: "kmalloc 2000 (kheap_init vm_sample (\<lambda>_. 0)) = Some (0x80031800, k)" "heap_inv k [0x80031800 \<mapsto> 2000] Map.empty"
  have "q_wf ?q" "q_list ?q = []" "q_count ?q = 0" by (simp_all add: q_wf_def q_count_def q_list_def)
  with queue_refines_list [OF k(2), of ?q True] k(1) show ?thesis by auto
qed

text \<open>
  C20.  Arrays on the kernel heap refine lists.  Adding appends and returns the index of the new
  element, and fails only with \<open>ENOMEM\<close> when the storage is full and cannot grow, and then changes
  nothing.  Reading, writing and removing at an index in range act as on the list; an index out of
  range fails the assertion.
\<close>

theorem array_refines_list:
  assumes inv: "heap_inv k L X" and wf: "arr_wf a" and own: "arr_owned a L" and num: "ar_num a < 2 ^ 27"
  shows "((\<exists>k'. array_add kmalloc kfree a x k = Some (a, Inl ENOMEM, k') \<and> heap_inv k' L X \<and> ar_num a = ar_max a) \<or>
      (\<exists>a' k' L'. array_add kmalloc kfree a x k = Some (a', Inr (ar_num a), k') \<and> heap_inv k' L' X \<and>
         arr_wf a' \<and> arr_owned a' L' \<and> arr_list a' = arr_list a @ [Some x])) \<and>
    (if i < ar_num a then array_get a i = arr_list a ! i \<and>
       (\<exists>a'. array_set a i x = Some a' \<and> arr_wf a' \<and> arr_owned a' L \<and> arr_list a' = (arr_list a)[i := Some x]) \<and>
       (\<exists>a'. array_remove a i = Some a' \<and> arr_wf a' \<and> arr_owned a' L \<and>
          arr_list a' = take i (arr_list a) @ drop (Suc i) (arr_list a))
     else array_get a i = None \<and> array_set a i x = None \<and> array_remove a i = None)"
proof -
  have "(\<exists>k'. array_add kmalloc kfree a x k = Some (a, Inl ENOMEM, k') \<and> heap_inv k' L X \<and> ar_num a = ar_max a) \<or>
      (\<exists>a' k' L'. array_add kmalloc kfree a x k = Some (a', Inr (ar_num a), k') \<and> heap_inv k' L' X \<and>
         arr_wf a' \<and> arr_owned a' L' \<and> arr_list a' = arr_list a @ [Some x])"
    using inv wf own num by (cases rule: heap_array_add [where x = x]) blast+
  moreover have "\<exists>a'. array_set a i x = Some a' \<and> arr_wf a' \<and> arr_owned a' L \<and> arr_list a' = (arr_list a)[i := Some x]"
    if "i < ar_num a"
    by (rule array_set_list [OF wf that, of x], use own in \<open>simp add: arr_owned_def\<close>)
  moreover have "\<exists>a'. array_remove a i = Some a' \<and> arr_wf a' \<and> arr_owned a' L \<and>
      arr_list a' = take i (arr_list a) @ drop (Suc i) (arr_list a)" if "i < ar_num a"
    by (rule array_remove_list [OF wf that], use own in \<open>simp add: arr_owned_def\<close>)
  ultimately show ?thesis
    using array_get_list [OF wf] by (auto simp: array_get_def array_set_def array_remove_def)
qed

theorem array_refines_list_witness:
  "\<exists>r k'. array_add kmalloc kfree (array_init 0x80031800) True (kheap_init vm_sample (\<lambda>_. 0)) = Some r \<and>
     array_get (array_init 0x80031800 :: bool arr) 0 = None"
  using array_refines_list [OF kheap_sample, of "array_init 0x80031800" True 0]
  by (auto simp: arr_owned_def array_init_def arr_wf_def grow_size_def)

end
